(* ===== verification/Prelude.thy ===== *)
theory Prelude
  imports
    Main
    "HOL-Library.Word"
    "HOL-Library.Char_ord"
    "HOL-Library.List_Lexorder"
    "HOL-Library.Product_Lexorder"
    "HOL-Library.Multiset"
begin

text \<open>
  The vocabulary shared by every theory of the development: Rust's integer types as words, the
  outcome of a fallible Rust function (\<open>Ok\<close>, \<open>Err\<close>, or a panic) with the \<open>?\<close> operator and the
  early-returning loops written over it, checked arithmetic, slices' \<open>sort\<close>/\<open>dedup\<close>/\<open>windows(2)\<close>,
  and a small calculus (\<open>safely\<close>) for the statement "this computation does not panic, and what it
  returns satisfies \<open>P\<close>", which the component theories use for all their proofs about success.

  A Rust \<open>String\<close> is its UTF-8 bytes: \<open>string\<close>, a list of 8-bit characters, whose lexicographic
  order (\<open>List_Lexorder\<close> over \<open>Char_ord\<close>) is Rust's bytewise \<open>Ord for str\<close> and whose \<open>length\<close> is
  \<open>str::len\<close>. A \<open>usize\<close> is a \<open>nat\<close> on which every checked operation tests the 64-bit bound.
\<close>

section \<open>Machine integers\<close>

type_synonym u8 = "8 word"
type_synonym u16 = "16 word"
type_synonym u32 = "32 word"
type_synonym u64 = "64 word"
type_synonym i64 = "64 word"
type_synonym usize = nat
type_synonym bytes = "u8 list"

definition u64_checked_add :: "u64 \<Rightarrow> u64 \<Rightarrow> u64 option" where
  "u64_checked_add a b = (if unat a + unat b < 2 ^ 64 then Some (a + b) else None)"

definition u64_checked_mul :: "u64 \<Rightarrow> u64 \<Rightarrow> u64 option" where
  "u64_checked_mul a b = (if unat a * unat b < 2 ^ 64 then Some (a * b) else None)"

definition u64_saturating_add :: "u64 \<Rightarrow> u64 \<Rightarrow> u64" where
  "u64_saturating_add a b = (if unat a + unat b < 2 ^ 64 then a + b else - 1)"

definition u16_saturating_sub :: "u16 \<Rightarrow> u16 \<Rightarrow> u16" where
  "u16_saturating_sub a b = (if b \<le> a then a - b else 0)"

definition usize_checked_add :: "usize \<Rightarrow> usize \<Rightarrow> usize option" where
  "usize_checked_add a b = (if a + b < 2 ^ 64 then Some (a + b) else None)"

definition usize_checked_mul :: "usize \<Rightarrow> usize \<Rightarrow> usize option" where
  "usize_checked_mul a b = (if a * b < 2 ^ 64 then Some (a * b) else None)"

lemma u64_checked_add_SomeD:
  "u64_checked_add a b = Some c \<Longrightarrow> unat c = unat a + unat b"
  by (auto simp: u64_checked_add_def unat_word_ariths split: if_splits)

lemma u64_checked_mul_SomeD:
  "u64_checked_mul a b = Some c \<Longrightarrow> unat c = unat a * unat b"
  by (auto simp: u64_checked_mul_def unat_word_ariths split: if_splits)

lemma u64_checked_add_None_iff:
  "u64_checked_add a b = None \<longleftrightarrow> 2 ^ 64 \<le> unat a + unat b"
  by (auto simp: u64_checked_add_def)

lemma usize_checked_add_SomeD:
  "usize_checked_add a b = Some c \<Longrightarrow> c = a + b \<and> a + b < 2 ^ 64"
  by (auto simp: usize_checked_add_def split: if_splits)

lemma usize_checked_mul_SomeD:
  "usize_checked_mul a b = Some c \<Longrightarrow> c = a * b \<and> a * b < 2 ^ 64"
  by (auto simp: usize_checked_mul_def split: if_splits)

lemma unat_u16_saturating_sub: "unat (u16_saturating_sub a b) = unat a - unat b"
  by (auto simp: u16_saturating_sub_def unat_sub word_le_nat_alt)

lemma unat_ucast_u16 [simp]: "unat (ucast (w :: u16) :: u32) = unat w"
  by transfer (simp add: take_bit_take_bit)

lemma unat_Suc_u32: "(n :: u32) + 1 \<noteq> 0 \<Longrightarrow> unat (n + 1) = unat n + 1"
  by (metis Suc_eq_plus1 unatSuc add.commute)

section \<open>Outcomes of fallible code\<close>

text \<open>
  \<open>Panic\<close> stands for every way the source can abort instead of returning: an out-of-range index, a
  failed \<open>expect\<close>, a missing key under \<open>map[&k]\<close>, \<open>unreachable!\<close>, an arithmetic overflow.
\<close>

datatype ('e, 'a) outcome = Ok (ok_value: 'a) | Err (err_value: 'e) | Panic

text \<open>Facts that analyse an outcome: what it means for a composed computation to return.\<close>
named_theorems outcome_simps

text \<open>Introduction rules of the \<open>safely\<close> calculus.\<close>
named_theorems safely_intros

fun and_then :: "('e, 'a) outcome \<Rightarrow> ('a \<Rightarrow> ('e, 'b) outcome) \<Rightarrow> ('e, 'b) outcome" where
  "and_then (Ok x) f = f x"
| "and_then (Err e) f = Err e"
| "and_then Panic f = Panic"

fun ok_or :: "'a option \<Rightarrow> 'e \<Rightarrow> ('e, 'a) outcome" where
  "ok_or (Some x) e = Ok x"
| "ok_or None e = Err e"

fun expect :: "'a option \<Rightarrow> ('e, 'a) outcome" where
  "expect (Some x) = Ok x"
| "expect None = Panic"

fun map_err :: "('e \<Rightarrow> 'd) \<Rightarrow> ('e, 'a) outcome \<Rightarrow> ('d, 'a) outcome" where
  "map_err f (Ok x) = Ok x"
| "map_err f (Err e) = Err (f e)"
| "map_err f Panic = Panic"

definition guard :: "bool \<Rightarrow> 'e \<Rightarrow> ('e, unit) outcome" where
  "guard b e = (if b then Err e else Ok ())"

definition is_err :: "('e, 'a) outcome \<Rightarrow> bool" where
  "is_err m = (case m of Err _ \<Rightarrow> True | _ \<Rightarrow> False)"

fun option_or :: "'a option \<Rightarrow> 'a option \<Rightarrow> 'a option" where
  "option_or (Some x) v = Some x"
| "option_or None v = v"

lemma option_or_None [simp]: "option_or u None = u"
  by (cases u) auto

lemma option_or_same [simp]: "option_or u u = u"
  by (cases u) auto

definition index :: "'a list \<Rightarrow> nat \<Rightarrow> ('e, 'a) outcome" where
  "index xs i = (if i < length xs then Ok (xs ! i) else Panic)"

definition get :: "'a list \<Rightarrow> nat \<Rightarrow> 'a option" where
  "get xs i = (if i < length xs then Some (xs ! i) else None)"

text \<open>\<open>for x in xs { ... }\<close> whose body may return early with an error.\<close>

fun try_fold :: "('s \<Rightarrow> 'a \<Rightarrow> ('e, 's) outcome) \<Rightarrow> 's \<Rightarrow> 'a list \<Rightarrow> ('e, 's) outcome" where
  "try_fold f s [] = Ok s"
| "try_fold f s (x # xs) = and_then (f s x) (\<lambda>s'. try_fold f s' xs)"

text \<open>\<open>xs.iter().map(f).collect::<Result<Vec<_>, _>>()\<close>.\<close>

fun try_map :: "('a \<Rightarrow> ('e, 'b) outcome) \<Rightarrow> 'a list \<Rightarrow> ('e, 'b list) outcome" where
  "try_map f [] = Ok []"
| "try_map f (x # xs) = and_then (f x) (\<lambda>y. and_then (try_map f xs) (\<lambda>ys. Ok (y # ys)))"

lemma and_then_cong [fundef_cong]:
  "m = m' \<Longrightarrow> (\<And>x. m' = Ok x \<Longrightarrow> f x = g x) \<Longrightarrow> and_then m f = and_then m' g"
  by (cases m') auto

lemma try_fold_cong [fundef_cong]:
  assumes "s = s'" and "xs = ys" and "\<And>t y. y \<in> set ys \<Longrightarrow> f t y = g t y"
  shows "try_fold f s xs = try_fold g s' ys"
  unfolding assms(1,2) using assms(3)
  by (induction ys arbitrary: s') (auto intro!: and_then_cong)

lemma and_then_Ok_iff [outcome_simps]:
  "and_then m f = Ok y \<longleftrightarrow> (\<exists>x. m = Ok x \<and> f x = Ok y)"
  by (cases m) auto

lemma and_then_Err_iff [outcome_simps]:
  "and_then m f = Err e \<longleftrightarrow> m = Err e \<or> (\<exists>x. m = Ok x \<and> f x = Err e)"
  by (cases m) auto

lemma and_then_Panic_iff [outcome_simps]:
  "and_then m f = Panic \<longleftrightarrow> m = Panic \<or> (\<exists>x. m = Ok x \<and> f x = Panic)"
  by (cases m) auto

lemma and_then_assoc: "and_then (and_then m f) g = and_then m (\<lambda>x. and_then (f x) g)"
  by (cases m) auto

lemma ok_or_Ok_iff [outcome_simps]: "ok_or v e = Ok x \<longleftrightarrow> v = Some x"
  by (cases v) auto

lemma ok_or_Err_iff [outcome_simps]: "ok_or v e = Err d \<longleftrightarrow> v = None \<and> d = e"
  by (cases v) auto

lemma ok_or_Panic_iff [outcome_simps]: "ok_or v e \<noteq> Panic"
  by (cases v) auto

lemma expect_Ok_iff [outcome_simps]: "expect v = Ok x \<longleftrightarrow> v = Some x"
  by (cases v) auto

lemma expect_Err_iff [outcome_simps]: "expect v \<noteq> Err d"
  by (cases v) auto

lemma expect_Panic_iff [outcome_simps]: "expect v = Panic \<longleftrightarrow> v = None"
  by (cases v) auto

lemma map_err_Ok_iff [outcome_simps]: "map_err f m = Ok x \<longleftrightarrow> m = Ok x"
  by (cases m) auto

lemma map_err_Panic_iff [outcome_simps]: "map_err f m = Panic \<longleftrightarrow> m = Panic"
  by (cases m) auto

lemma guard_Ok_iff [outcome_simps]: "guard b e = Ok u \<longleftrightarrow> \<not> b"
  by (simp add: guard_def)

lemma guard_Err_iff [outcome_simps]: "guard b e = Err d \<longleftrightarrow> b \<and> d = e"
  by (auto simp: guard_def)

lemma guard_Panic_iff [outcome_simps]: "guard b e \<noteq> Panic"
  by (simp add: guard_def)

lemma index_Ok_iff [outcome_simps]: "index xs i = Ok x \<longleftrightarrow> i < length xs \<and> xs ! i = x"
  by (auto simp: index_def)

lemma index_Err_iff [outcome_simps]: "index xs i \<noteq> Err e"
  by (auto simp: index_def)

lemma index_Panic_iff [outcome_simps]: "index xs i = Panic \<longleftrightarrow> length xs \<le> i"
  by (auto simp: index_def)

lemma try_map_Ok_iff: "try_map f xs = Ok ys \<longleftrightarrow> list_all2 (\<lambda>x y. f x = Ok y) xs ys"
  by (induction xs arbitrary: ys) (auto simp: outcome_simps list_all2_Cons1)

lemma try_fold_append: "try_fold f s (xs @ ys) = and_then (try_fold f s xs) (\<lambda>t. try_fold f t ys)"
  by (induction xs arbitrary: s) (auto simp: and_then_assoc)

lemma try_fold_invariant:
  assumes "try_fold f s xs = Ok t" and "I s"
    and "\<And>a x b. x \<in> set xs \<Longrightarrow> I a \<Longrightarrow> f a x = Ok b \<Longrightarrow> I b"
  shows "I t"
  using assms by (induction xs arbitrary: s) (auto simp: outcome_simps)

text \<open>A loop that only tests: it passes exactly when every element passes.\<close>

lemma try_fold_unit_Ok_iff:
  "try_fold (\<lambda>_. f) () xs = Ok () \<longleftrightarrow> (\<forall>x \<in> set xs. f x = Ok ())"
  by (induction xs) (auto simp: outcome_simps)

section \<open>The \<open>safely\<close> calculus\<close>

definition safely :: "('e, 'a) outcome \<Rightarrow> ('a \<Rightarrow> bool) \<Rightarrow> bool" where
  "safely m P = (case m of Ok x \<Rightarrow> P x | Err _ \<Rightarrow> True | Panic \<Rightarrow> False)"

lemma safely_iff: "safely m P \<longleftrightarrow> m \<noteq> Panic \<and> (\<forall>x. m = Ok x \<longrightarrow> P x)"
  by (cases m) (auto simp: safely_def)

lemma safely_OkD: "safely m P \<Longrightarrow> m = Ok x \<Longrightarrow> P x"
  by (simp add: safely_def)

lemma safely_not_Panic: "safely m P \<Longrightarrow> m \<noteq> Panic"
  by (auto simp: safely_def)

lemma safely_Ok [safely_intros]: "P x \<Longrightarrow> safely (Ok x) P"
  by (simp add: safely_def)

lemma safely_Err [safely_intros]: "safely (Err e) P"
  by (simp add: safely_def)

lemma safely_and_then [safely_intros]:
  "safely m (\<lambda>x. safely (f x) P) \<Longrightarrow> safely (and_then m f) P"
  by (cases m) (auto simp: safely_def)

lemma safely_mono: "safely m P \<Longrightarrow> (\<And>x. m = Ok x \<Longrightarrow> P x \<Longrightarrow> Q x) \<Longrightarrow> safely m Q"
  by (cases m) (auto simp: safely_def)

lemma safely_conj: "safely m P \<Longrightarrow> safely m Q \<Longrightarrow> safely m (\<lambda>x. P x \<and> Q x)"
  by (cases m) (auto simp: safely_def)

lemma safely_ok_or [safely_intros]: "(\<And>x. v = Some x \<Longrightarrow> P x) \<Longrightarrow> safely (ok_or v e) P"
  by (cases v) (auto simp: safely_def)

lemma safely_expect [safely_intros]: "v = Some x \<Longrightarrow> P x \<Longrightarrow> safely (expect v) P"
  by (auto simp: safely_def)

lemma safely_map_err [safely_intros]: "safely m P \<Longrightarrow> safely (map_err f m) P"
  by (cases m) (auto simp: safely_def)

lemma safely_guard [safely_intros]: "(\<not> b \<Longrightarrow> P ()) \<Longrightarrow> safely (guard b e) P"
  by (simp add: safely_def guard_def)

lemma safely_index [safely_intros]: "i < length xs \<Longrightarrow> P (xs ! i) \<Longrightarrow> safely (index xs i) P"
  by (simp add: safely_def index_def)

lemma safely_if [safely_intros]:
  "(b \<Longrightarrow> safely m P) \<Longrightarrow> (\<not> b \<Longrightarrow> safely n P) \<Longrightarrow> safely (if b then m else n) P"
  by simp

lemma safely_try_fold:
  assumes "I s" and "\<And>a x. x \<in> set xs \<Longrightarrow> I a \<Longrightarrow> safely (f a x) I"
  shows "safely (try_fold f s xs) I"
  using assms
proof (induction xs arbitrary: s)
  case Nil
  then show ?case by (simp add: safely_def)
next
  case (Cons x xs)
  from Cons.prems have "safely (f s x) I" by simp
  moreover have "safely (try_fold f t xs) I" if "I t" for t
    using Cons.IH [OF that] Cons.prems(2) by simp
  ultimately show ?case
    by (auto intro!: safely_and_then elim: safely_mono)
qed

text \<open>The same with an invariant that also sees the part of the list already processed.\<close>

lemma safely_try_fold_prefix:
  assumes "I [] s"
    and "\<And>pre x rest a. xs = pre @ x # rest \<Longrightarrow> I pre a \<Longrightarrow> safely (f a x) (I (pre @ [x]))"
  shows "safely (try_fold f s xs) (I xs)"
proof -
  have "safely (try_fold f a rest) (I xs)" if "xs = pre @ rest" and "I pre a" for a pre rest
    using that
  proof (induction rest arbitrary: pre a)
    case Nil
    then show ?case by (simp add: safely_def)
  next
    case (Cons x rest)
    then have "safely (f a x) (I (pre @ [x]))"
      by (intro assms(2))
    moreover have "safely (try_fold f b rest) (I xs)" if "I (pre @ [x]) b" for b
      using Cons.IH [of "pre @ [x]" b] Cons.prems(1) that by simp
    ultimately show ?case
      by (auto intro!: safely_and_then elim: safely_mono)
  qed
  from this [of "[]" xs s] assms(1) show ?thesis by simp
qed

lemma safely_try_map [safely_intros]:
  assumes "\<And>x. x \<in> set xs \<Longrightarrow> safely (f x) (Q x)"
    and "\<And>ys. list_all2 Q xs ys \<Longrightarrow> P ys"
  shows "safely (try_map f xs) P"
proof -
  have "safely (try_map f xs) (list_all2 Q xs)"
    using assms(1)
  proof (induction xs)
    case Nil
    then show ?case by (simp add: safely_def)
  next
    case (Cons x xs)
    then have "safely (f x) (Q x)" and "safely (try_map f xs) (list_all2 Q xs)" by auto
    then show ?case
      by (cases "f x"; cases "try_map f xs") (auto simp: safely_def)
  qed
  then show ?thesis by (rule safely_mono) (rule assms(2))
qed

lemma try_fold_measure:
  fixes m :: "'s \<Rightarrow> nat"
  assumes step: "\<And>s x s'. f s x = Ok s' \<Longrightarrow> m s' \<le> m s" and "try_fold f s xs = Ok s'"
  shows "m s' \<le> m s"
  using assms(2)
proof (induction xs arbitrary: s)
  case Nil
  then show ?case by simp
next
  case (Cons x xs)
  then obtain s1 where "f s x = Ok s1" and "try_fold f s1 xs = Ok s'"
    by (auto simp: outcome_simps)
  with step Cons.IH show ?case by (meson order_trans)
qed

section \<open>Both ways of returning\<close>

text \<open>
  \<open>yields m P Q\<close>: if the computation returns \<open>Ok x\<close> then \<open>P x\<close>, and if it returns \<open>Err e\<close> then
  \<open>Q e\<close>. It is used where the error carries the state reached, so that what holds after a failure
  matters as much as what holds after a success.
\<close>

definition yields :: "('e, 'a) outcome \<Rightarrow> ('a \<Rightarrow> bool) \<Rightarrow> ('e \<Rightarrow> bool) \<Rightarrow> bool" where
  "yields m P Q = (case m of Ok x \<Rightarrow> P x | Err e \<Rightarrow> Q e | Panic \<Rightarrow> True)"

named_theorems yields_intros

lemma yields_Ok [yields_intros]: "P x \<Longrightarrow> yields (Ok x) P Q"
  by (simp add: yields_def)

lemma yields_Err [yields_intros]: "Q e \<Longrightarrow> yields (Err e) P Q"
  by (simp add: yields_def)

lemma yields_Panic [yields_intros]: "yields Panic P Q"
  by (simp add: yields_def)

lemma yields_and_then [yields_intros]:
  "yields m (\<lambda>x. yields (f x) P Q) Q \<Longrightarrow> yields (and_then m f) P Q"
  by (cases m) (auto simp: yields_def)

lemma yields_mono:
  "yields m P Q \<Longrightarrow> (\<And>x. m = Ok x \<Longrightarrow> P x \<Longrightarrow> P' x) \<Longrightarrow> (\<And>e. m = Err e \<Longrightarrow> Q e \<Longrightarrow> Q' e) \<Longrightarrow> yields m P' Q'"
  by (cases m) (auto simp: yields_def)

lemma yields_conj: "yields m P Q \<Longrightarrow> yields m P' Q' \<Longrightarrow> yields m (\<lambda>x. P x \<and> P' x) (\<lambda>e. Q e \<and> Q' e)"
  by (cases m) (auto simp: yields_def)

lemma yields_map_err [yields_intros]: "yields m P (\<lambda>e. Q (f e)) \<Longrightarrow> yields (map_err f m) P Q"
  by (cases m) (auto simp: yields_def)

lemma yields_guard [yields_intros]:
  "(\<not> b \<Longrightarrow> P ()) \<Longrightarrow> (b \<Longrightarrow> Q e) \<Longrightarrow> yields (guard b e) P Q"
  by (simp add: yields_def guard_def)

lemma yields_if [yields_intros]:
  "(b \<Longrightarrow> yields m P Q) \<Longrightarrow> (\<not> b \<Longrightarrow> yields n P Q) \<Longrightarrow> yields (if b then m else n) P Q"
  by simp

lemma yields_OkD: "yields m P Q \<Longrightarrow> m = Ok x \<Longrightarrow> P x"
  by (simp add: yields_def)

lemma yields_ErrD: "yields m P Q \<Longrightarrow> m = Err e \<Longrightarrow> Q e"
  by (simp add: yields_def)

lemma yields_try_fold_prefix:
  assumes "I [] s"
    and "\<And>pre x rest a. xs = pre @ x # rest \<Longrightarrow> I pre a \<Longrightarrow> yields (f a x) (I (pre @ [x])) Q"
  shows "yields (try_fold f s xs) (I xs) Q"
proof -
  have "yields (try_fold f a rest) (I xs) Q" if "xs = pre @ rest" and "I pre a" for a pre rest
    using that
  proof (induction rest arbitrary: pre a)
    case Nil
    then show ?case by (simp add: yields_def)
  next
    case (Cons x rest)
    then have "yields (f a x) (I (pre @ [x])) Q"
      by (intro assms(2))
    moreover have "yields (try_fold f b rest) (I xs) Q" if "I (pre @ [x]) b" for b
      using Cons.IH [of "pre @ [x]" b] Cons.prems(1) that by simp
    ultimately show ?case
      by (auto intro!: yields_and_then elim: yields_mono)
  qed
  from this [of "[]" xs s] assms(1) show ?thesis by simp
qed

section \<open>Success and simulation\<close>

text \<open>\<open>succeeds m P\<close>: the computation returns \<open>Ok x\<close> with \<open>P x\<close>; neither an error nor a panic.\<close>

definition succeeds :: "('e, 'a) outcome \<Rightarrow> ('a \<Rightarrow> bool) \<Rightarrow> bool" where
  "succeeds m P = (case m of Ok x \<Rightarrow> P x | _ \<Rightarrow> False)"

lemma succeeds_iff: "succeeds m P \<longleftrightarrow> (\<exists>x. m = Ok x \<and> P x)"
  by (cases m) (auto simp: succeeds_def)

lemma succeeds_Ok [simp]: "succeeds (Ok x) P = P x"
  by (simp add: succeeds_def)

lemma succeeds_and_then: "succeeds m (\<lambda>x. succeeds (f x) P) \<Longrightarrow> succeeds (and_then m f) P"
  by (cases m) (auto simp: succeeds_def)

lemma succeeds_mono: "succeeds m P \<Longrightarrow> (\<And>x. m = Ok x \<Longrightarrow> P x \<Longrightarrow> Q x) \<Longrightarrow> succeeds m Q"
  by (cases m) (auto simp: succeeds_def)

lemma succeeds_try_fold_prefix:
  assumes "I [] s"
    and "\<And>pre x rest a. xs = pre @ x # rest \<Longrightarrow> I pre a \<Longrightarrow> succeeds (f a x) (I (pre @ [x]))"
  shows "succeeds (try_fold f s xs) (I xs)"
proof -
  have "succeeds (try_fold f a rest) (I xs)" if "xs = pre @ rest" and "I pre a" for a pre rest
    using that
  proof (induction rest arbitrary: pre a)
    case Nil
    then show ?case by simp
  next
    case (Cons x rest)
    then have "succeeds (f a x) (I (pre @ [x]))"
      by (intro assms(2))
    moreover have "succeeds (try_fold f b rest) (I xs)" if "I (pre @ [x]) b" for b
      using Cons.IH [of "pre @ [x]" b] Cons.prems(1) that by simp
    ultimately show ?case
      by (auto intro!: succeeds_and_then elim: succeeds_mono)
  qed
  from this [of "[]" xs s] assms(1) show ?thesis by simp
qed

lemma succeeds_try_map: "(\<And>x. x \<in> set xs \<Longrightarrow> succeeds (f x) (\<lambda>_. True)) \<Longrightarrow> succeeds (try_map f xs) (\<lambda>_. True)"
proof (induction xs)
  case (Cons x xs)
  then have "succeeds (f x) (\<lambda>_. True)" and "succeeds (try_map f xs) (\<lambda>_. True)" by auto
  then show ?case by (auto simp: succeeds_iff)
qed simp

lemma rel_outcome_and_then:
  "rel_outcome E R m m' \<Longrightarrow> (\<And>x y. R x y \<Longrightarrow> rel_outcome E Q (f x) (g y)) \<Longrightarrow>
     rel_outcome E Q (and_then m f) (and_then m' g)"
  by (cases m; cases m') auto

lemma rel_outcome_map_err:
  "rel_outcome (\<lambda>e e'. E (f e) (g e')) R m m' \<Longrightarrow> rel_outcome E R (map_err f m) (map_err g m')"
  by (cases m; cases m') auto

lemma rel_outcome_eq_refl: "rel_outcome (=) (=) m m"
  by (simp add: outcome.rel_eq)

lemma rel_outcome_try_fold_prefix:
  assumes "R [] s s'"
    and "\<And>pre x rest a a'. xs = pre @ x # rest \<Longrightarrow> R pre a a' \<Longrightarrow> rel_outcome E (R (pre @ [x])) (f a x) (g a' x)"
  shows "rel_outcome E (R xs) (try_fold f s xs) (try_fold g s' xs)"
proof -
  have "rel_outcome E (R xs) (try_fold f a rest) (try_fold g a' rest)" if "xs = pre @ rest" and "R pre a a'"
    for a a' pre rest
    using that
  proof (induction rest arbitrary: pre a a')
    case Nil
    then show ?case by simp
  next
    case (Cons x rest)
    then have "rel_outcome E (R (pre @ [x])) (f a x) (g a' x)"
      by (intro assms(2))
    moreover have "rel_outcome E (R xs) (try_fold f b rest) (try_fold g b' rest)" if "R (pre @ [x]) b b'" for b b'
      using Cons.IH [of "pre @ [x]" b b'] Cons.prems(1) that by simp
    ultimately show ?case
      by (auto intro: rel_outcome_and_then)
  qed
  from this [of "[]" xs s s'] assms(1) show ?thesis by simp
qed

section \<open>Short-circuit conditions\<close>

text \<open>
  \<open>a || b || ...\<close> and \<open>iter.any(...)\<close> where a disjunct may panic (an index out of range): the
  disjuncts are evaluated from the left and evaluation stops at the first that is true.
\<close>

fun any_of :: "('e, bool) outcome list \<Rightarrow> ('e, bool) outcome" where
  "any_of [] = Ok False"
| "any_of (m # ms) = and_then m (\<lambda>b. if b then Ok True else any_of ms)"

definition any_in :: "('a \<Rightarrow> ('e, bool) outcome) \<Rightarrow> 'a list \<Rightarrow> ('e, bool) outcome" where
  "any_in f xs = any_of (map f xs)"

lemma any_of_False_iff [outcome_simps]: "any_of ms = Ok False \<longleftrightarrow> (\<forall>m \<in> set ms. m = Ok False)"
proof (induction ms)
  case (Cons m ms)
  then show ?case by (cases m) auto
qed simp

lemma any_in_False_iff [outcome_simps]: "any_in f xs = Ok False \<longleftrightarrow> (\<forall>x \<in> set xs. f x = Ok False)"
  by (auto simp: any_in_def any_of_False_iff)

lemma safely_any_of_Nil [safely_intros]: "P False \<Longrightarrow> safely (any_of []) P"
  by (simp add: safely_def)

lemma safely_any_of_Cons [safely_intros]:
  "safely m (\<lambda>b. if b then P True else safely (any_of ms) P) \<Longrightarrow> safely (any_of (m # ms)) P"
  by (cases m) (auto simp: safely_def split: if_splits)

lemma safely_any_in [safely_intros]:
  assumes "\<And>x. x \<in> set xs \<Longrightarrow> safely (f x) (\<lambda>_. True)" and "\<And>b. P b"
  shows "safely (any_in f xs) P"
  using assms(1)
proof (induction xs)
  case Nil
  then show ?case using assms(2) by (simp add: any_in_def safely_def)
next
  case (Cons x xs)
  then have "safely (f x) (\<lambda>_. True)" and rest: "safely (any_of (map f xs)) P" by (auto simp: any_in_def)
  then have "safely (f x) (\<lambda>b. if b then P True else safely (any_of (map f xs)) P)"
    using assms(2) by (auto elim: safely_mono)
  then show ?case unfolding any_in_def list.map by (rule safely_any_of_Cons)
qed

declare any_of.simps [simp del]

text \<open>A loop that collects the elements that pass a fallible test.\<close>

lemma try_fold_filter:
  assumes "try_fold (\<lambda>found x. and_then (test x) (\<lambda>b. Ok (if b then found @ [x] else found))) found xs = Ok found'"
  shows "found' = found @ filter (\<lambda>x. test x = Ok True) xs"
  using assms
proof (induction xs arbitrary: found)
  case (Cons x xs)
  then obtain b where "test x = Ok b" by (auto simp: outcome_simps)
  with Cons.prems Cons.IH [of found] Cons.IH [of "found @ [x]"] show ?case by (cases b) auto
qed simp

section \<open>Code that cannot panic\<close>

abbreviation safe :: "('e, 'a) outcome \<Rightarrow> bool" where
  "safe m \<equiv> safely m (\<lambda>_. True)"

lemma safe_any_of_Ok: "(\<not> c \<Longrightarrow> safe (any_of ms)) \<Longrightarrow> safe (any_of (Ok c # ms))"
  by (simp add: any_of.simps safely_def)

lemma safe_any_of_Cons: "safe m \<Longrightarrow> (m = Ok False \<Longrightarrow> safe (any_of ms)) \<Longrightarrow> safe (any_of (m # ms))"
  by (cases m) (auto simp: any_of.simps safely_def)

lemma safe_any_of_Nil: "safe (any_of [])"
  by (simp add: any_of.simps safely_def)

lemma safe_any_in: "(\<And>x. x \<in> set xs \<Longrightarrow> safe (f x)) \<Longrightarrow> safe (any_in f xs)"
  by (rule safely_any_in) auto

lemma safe_index_then: "i < length xs \<Longrightarrow> safe (f (xs ! i)) \<Longrightarrow> safe (and_then (index xs i) f)"
  by (simp add: index_def)

lemma safe_index: "i < length xs \<Longrightarrow> safe (index xs i)"
  by (simp add: index_def safely_def)

lemma safe_and_then: "safe m \<Longrightarrow> (\<And>x. m = Ok x \<Longrightarrow> safe (f x)) \<Longrightarrow> safe (and_then m f)"
  by (cases m) (auto simp: safely_def)

lemma safe_Ok [simp]: "safe (Ok x)"
  by (simp add: safely_def)

lemma safe_Err [simp]: "safe (Err e)"
  by (simp add: safely_def)

lemma safe_ok_or [simp]: "safe (ok_or v e)"
  by (cases v) (auto simp: safely_def)

lemma safe_guard [simp]: "safe (guard b e)"
  by (simp add: guard_def safely_def)

lemma safe_try_fold: "(\<And>a x. x \<in> set xs \<Longrightarrow> safe (f a x)) \<Longrightarrow> safe (try_fold f s xs)"
  by (rule safely_try_fold [where I = "\<lambda>_. True"]) auto

lemmas safe_any_of = safe_any_of_Ok safe_any_of_Cons safe_any_of_Nil

end
