(* ===== verification/Std_Collections.thy ===== *)
theory Std_Collections
  imports Prelude
begin

text \<open>
  The parts of Rust's standard collections the sources use: slice operations (\<open>sort\<close> and \<open>dedup\<close>,
  \<open>windows(2)\<close>, \<open>position\<close>, \<open>min_by_key\<close>) and \<open>BTreeMap\<close>, modelled by the list of its entries in
  key order. The interface the compiler relies on, an ordered finite map whose iteration order is
  determined by its content, is the locale \<open>ordered_map\<close>; the model of \<open>BTreeMap\<close> interprets it.
\<close>

section \<open>Slices\<close>

text \<open>\<open>v.sort_unstable(); v.dedup()\<close> on a totally ordered element type.\<close>

definition sort_dedup :: "'a::linorder list \<Rightarrow> 'a list" where
  "sort_dedup xs = remdups_adj (sort xs)"

fun windows2 :: "'a list \<Rightarrow> ('a \<times> 'a) list" where
  "windows2 (x # y # zs) = (x, y) # windows2 (y # zs)"
| "windows2 _ = []"

fun position :: "('a \<Rightarrow> bool) \<Rightarrow> 'a list \<Rightarrow> nat option" where
  "position P [] = None"
| "position P (x # xs) = (if P x then Some 0 else map_option Suc (position P xs))"

text \<open>\<open>Iterator::min_by_key\<close>: the first of the elements with the least key.\<close>

fun min_by_key :: "('a \<Rightarrow> 'k::linorder) \<Rightarrow> 'a list \<Rightarrow> 'a option" where
  "min_by_key f [] = None"
| "min_by_key f (x # xs) =
     (case min_by_key f xs of None \<Rightarrow> Some x | Some y \<Rightarrow> if f y < f x then Some y else Some x)"

definition last_opt :: "'a list \<Rightarrow> 'a option" where
  "last_opt xs = (if xs = [] then None else Some (last xs))"

definition first_opt :: "'a list \<Rightarrow> 'a option" where
  "first_opt xs = (case xs of [] \<Rightarrow> None | x # _ \<Rightarrow> Some x)"

lemma set_sort_dedup [simp]: "set (sort_dedup xs) = set xs"
  by (simp add: sort_dedup_def)

lemma sorted_sort_dedup [simp]: "sorted (sort_dedup xs)"
  by (simp add: sort_dedup_def)

lemma distinct_remdups_adj_sorted: "sorted xs \<Longrightarrow> distinct (remdups_adj xs)"
  by (induction xs rule: remdups_adj.induct) auto

lemma distinct_sort_dedup [simp]: "distinct (sort_dedup xs)"
  by (simp add: sort_dedup_def distinct_remdups_adj_sorted)

lemma sort_dedup_eq: "sort_dedup xs = sorted_list_of_set (set xs)"
  by (intro sorted_distinct_set_unique) auto

text \<open>Two lists with the same elements normalise to the same list: order and duplicates are forgotten.\<close>

lemma sort_dedup_cong: "set xs = set ys \<Longrightarrow> sort_dedup xs = sort_dedup ys"
  by (simp add: sort_dedup_eq)

lemma sort_dedup_idem [simp]: "sort_dedup (sort_dedup xs) = sort_dedup xs"
  by (rule sort_dedup_cong) simp

lemma sort_dedup_Nil_iff [simp]: "sort_dedup xs = [] \<longleftrightarrow> xs = []"
  by (metis set_empty set_sort_dedup)

lemma strict_sorted_sort_dedup [simp]: "sorted_wrt (<) (sort_dedup xs)"
  by (simp add: strict_sorted_iff)

lemma sort_dedup_fixpoint: "sorted_wrt (<) xs \<Longrightarrow> sort_dedup xs = xs"
  by (simp add: sort_dedup_eq strict_sorted_iff sorted_list_of_set.idem_if_sorted_distinct)

lemma set_windows2_subset: "(x, y) \<in> set (windows2 zs) \<Longrightarrow> x \<in> set zs \<and> y \<in> set zs"
  by (induction zs rule: windows2.induct) auto

lemma windows2_strict: "(\<forall>(x, y) \<in> set (windows2 zs). x < y) \<longleftrightarrow> sorted_wrt (<) (zs :: 'a::linorder list)"
proof (induction zs rule: windows2.induct)
  case (1 x y zs)
  then show ?case by (auto intro: less_trans)
qed auto

lemma windows2_adjacent_key:
  fixes f :: "'a \<Rightarrow> 'k::linorder"
  assumes "sorted (map f xs)"
  shows "(\<exists>(x, y) \<in> set (windows2 xs). f x = f y) \<longleftrightarrow> \<not> distinct (map f xs)"
  using assms
proof (induction xs rule: windows2.induct)
  case (1 x y zs)
  then have "f x \<le> f y" and "\<forall>z \<in> set zs. f y \<le> f z" by auto
  then have "f x = f y \<longleftrightarrow> f x \<in> f ` set (y # zs)"
    by (auto simp: order.antisym)
  with 1 show ?case by auto
qed auto

lemma position_Some_iff:
  "position P xs = Some i \<longleftrightarrow> i < length xs \<and> P (xs ! i) \<and> (\<forall>j < i. \<not> P (xs ! j))"
proof (induction xs arbitrary: i)
  case Nil
  then show ?case by simp
next
  case (Cons x xs)
  then show ?case
    by (cases i) (auto simp: less_Suc_eq_0_disj)
qed

lemma position_None_iff: "position P xs = None \<longleftrightarrow> (\<forall>x \<in> set xs. \<not> P x)"
  by (induction xs) auto

lemma position_SomeD: "position P xs = Some i \<Longrightarrow> i < length xs \<and> P (xs ! i)"
  by (simp add: position_Some_iff)

lemma min_by_key_None_iff [simp]: "min_by_key f xs = None \<longleftrightarrow> xs = []"
  by (cases xs) (auto split: option.splits)

lemma min_by_key_SomeD:
  "min_by_key f xs = Some y \<Longrightarrow> y \<in> set xs \<and> (\<forall>x \<in> set xs. f y \<le> f x)"
proof (induction xs arbitrary: y)
  case Nil
  then show ?case by simp
next
  case (Cons x xs)
  then show ?case
    by (cases "min_by_key f xs") (fastforce split: if_splits)+
qed

lemma find_SomeD: "List.find P xs = Some x \<Longrightarrow> x \<in> set xs \<and> P x"
  by (auto simp: find_Some_iff)

lemma get_Some_iff: "get xs i = Some x \<longleftrightarrow> i < length xs \<and> xs ! i = x"
  by (auto simp: get_def)

lemma first_opt_Some_iff: "first_opt xs = Some x \<longleftrightarrow> xs \<noteq> [] \<and> hd xs = x"
  by (auto simp: first_opt_def split: list.splits)

lemma last_opt_Some_iff: "last_opt xs = Some x \<longleftrightarrow> xs \<noteq> [] \<and> last xs = x"
  by (auto simp: last_opt_def)

section \<open>Ordered maps\<close>

type_synonym ('k, 'v) btree_map = "('k \<times> 'v) list"

definition bt_empty :: "('k, 'v) btree_map" where
  "bt_empty = []"

definition bt_get :: "('k, 'v) btree_map \<Rightarrow> 'k \<Rightarrow> 'v option" where
  "bt_get m k = map_of m k"

definition bt_keys :: "('k, 'v) btree_map \<Rightarrow> 'k list" where
  "bt_keys m = map fst m"

definition bt_values :: "('k, 'v) btree_map \<Rightarrow> 'v list" where
  "bt_values m = map snd m"

definition bt_contains :: "('k, 'v) btree_map \<Rightarrow> 'k \<Rightarrow> bool" where
  "bt_contains m k = (bt_get m k \<noteq> None)"

fun bt_insert :: "'k::linorder \<Rightarrow> 'v \<Rightarrow> ('k, 'v) btree_map \<Rightarrow> ('k, 'v) btree_map" where
  "bt_insert k v [] = [(k, v)]"
| "bt_insert k v (e # m) =
     (if fst e < k then e # bt_insert k v m
      else if fst e = k then (k, v) # m
      else (k, v) # e # m)"

definition bt_remove :: "'k \<Rightarrow> ('k, 'v) btree_map \<Rightarrow> ('k, 'v) btree_map" where
  "bt_remove k m = filter (\<lambda>e. fst e \<noteq> k) m"

text \<open>\<open>iter.collect::<BTreeMap<_, _>>()\<close>: later entries replace earlier ones with the same key.\<close>

definition bt_collect :: "('k::linorder \<times> 'v) list \<Rightarrow> ('k, 'v) btree_map" where
  "bt_collect xs = fold (\<lambda>(k, v). bt_insert k v) xs bt_empty"

text \<open>\<open>map.entry(k).or_default().push(v)\<close> for a map into vectors.\<close>

definition bt_push :: "'k::linorder \<Rightarrow> 'v \<Rightarrow> ('k, 'v list) btree_map \<Rightarrow> ('k, 'v list) btree_map" where
  "bt_push k v m = bt_insert k ((case bt_get m k of None \<Rightarrow> [] | Some vs \<Rightarrow> vs) @ [v]) m"

text \<open>\<open>*map.get_mut(k) = f(*map.get_mut(k))\<close>.\<close>

definition bt_adjust :: "'k \<Rightarrow> ('v \<Rightarrow> 'v) \<Rightarrow> ('k, 'v) btree_map \<Rightarrow> ('k, 'v) btree_map" where
  "bt_adjust k f m = map (\<lambda>e. if fst e = k then (fst e, f (snd e)) else e) m"

definition bt_wf :: "('k::linorder, 'v) btree_map \<Rightarrow> bool" where
  "bt_wf m = sorted_wrt (<) (map fst m)"

locale ordered_map =
  fixes empty :: "'m"
    and lookup :: "'m \<Rightarrow> 'k::linorder \<Rightarrow> 'v option"
    and insert :: "'k \<Rightarrow> 'v \<Rightarrow> 'm \<Rightarrow> 'm"
    and entries :: "'m \<Rightarrow> ('k \<times> 'v) list"
    and wf :: "'m \<Rightarrow> bool"
  assumes wf_empty: "wf empty"
    and wf_insert: "wf m \<Longrightarrow> wf (insert k v m)"
    and lookup_empty: "lookup empty k = None"
    and lookup_insert: "wf m \<Longrightarrow> lookup (insert k v m) = (lookup m)(k \<mapsto> v)"
    and lookup_iff_entry: "wf m \<Longrightarrow> lookup m k = Some v \<longleftrightarrow> (k, v) \<in> set (entries m)"
    and entries_in_key_order: "wf m \<Longrightarrow> sorted_wrt (<) (map fst (entries m))"
begin

lemma entries_distinct_keys: "wf m \<Longrightarrow> distinct (map fst (entries m))"
  using entries_in_key_order strict_sorted_iff by blast

lemma dom_lookup: "wf m \<Longrightarrow> dom (lookup m) = fst ` set (entries m)"
  by (force simp: lookup_iff_entry)

text \<open>Iteration order is a function of the content: two maps that agree on every key iterate alike.\<close>

lemma entries_determined:
  assumes "wf m" and "wf n" and "lookup m = lookup n"
  shows "entries m = entries n"
proof -
  have "set (entries m) = set (entries n)"
    using assms by (simp add: set_eq_iff flip: lookup_iff_entry)
  moreover have "inj_on fst (set (entries m) \<union> set (entries n))"
    using entries_distinct_keys [OF assms(1)] calculation by (simp add: distinct_map)
  ultimately show ?thesis
    using entries_in_key_order [OF assms(1)] entries_in_key_order [OF assms(2)]
    by (intro map_sorted_distinct_set_unique [of fst]) (auto simp: strict_sorted_iff)
qed

lemma wf_collect: "wf m \<Longrightarrow> wf (fold (\<lambda>(k, v). insert k v) xs m)"
  by (induction xs arbitrary: m) (auto simp: wf_insert)

lemma lookup_collect:
  "wf m \<Longrightarrow> lookup (fold (\<lambda>(k, v). insert k v) xs m) = lookup m ++ map_of (rev xs)"
proof (induction xs arbitrary: m)
  case Nil
  then show ?case by simp
next
  case (Cons x xs)
  obtain k v where "x = (k, v)" by fastforce
  with Cons show ?case
    by (auto simp: wf_insert lookup_insert map_add_def fun_eq_iff split: option.splits)
qed

text \<open>Insertion order is irrelevant as long as no key occurs twice.\<close>

lemma collect_permute:
  assumes "mset xs = mset ys" and "distinct (map fst xs)"
  shows "entries (fold (\<lambda>(k, v). insert k v) xs empty) = entries (fold (\<lambda>(k, v). insert k v) ys empty)"
proof (rule entries_determined)
  have "distinct (map fst ys)"
    using assms by (metis mset_eq_imp_distinct_iff mset_map)
  then have "map_of (rev xs) = map_of (rev ys)"
    using assms by (subst map_of_inject_set) (auto simp flip: rev_map dest: mset_eq_setD)
  then show "lookup (fold (\<lambda>(k, v). insert k v) xs empty) = lookup (fold (\<lambda>(k, v). insert k v) ys empty)"
    by (simp add: lookup_collect wf_empty)
qed (simp_all add: wf_collect wf_empty)

end

lemma fst_set_bt_insert: "fst ` set (bt_insert k v m) = insert k (fst ` set m)"
  by (induction m) auto

lemma bt_wf_insert: "bt_wf m \<Longrightarrow> bt_wf (bt_insert k v m)"
proof (induction m)
  case Nil
  then show ?case by (simp add: bt_wf_def)
next
  case (Cons e m)
  then show ?case
    using fst_set_bt_insert [of k v m] by (auto simp: bt_wf_def)
qed

lemma bt_get_insert: "bt_wf m \<Longrightarrow> bt_get (bt_insert k v m) = (bt_get m)(k \<mapsto> v)"
proof (induction m)
  case Nil
  then show ?case by (auto simp: bt_get_def fun_eq_iff)
next
  case (Cons e m)
  then show ?case
    by (cases e) (auto simp: bt_get_def bt_wf_def fun_eq_iff)
qed

interpretation bt: ordered_map bt_empty bt_get bt_insert "\<lambda>m. m" bt_wf
proof
  fix m :: "('a, 'b) btree_map" and k v
  assume "bt_wf m"
  then have "distinct (map fst m)" by (simp add: bt_wf_def strict_sorted_iff)
  then show "bt_get m k = Some v \<longleftrightarrow> (k, v) \<in> set m"
    by (simp add: bt_get_def)
qed (auto simp: bt_wf_insert bt_get_insert bt_empty_def, auto simp: bt_wf_def bt_get_def)

lemma bt_wf_Nil [simp]: "bt_wf []"
  by (simp add: bt_wf_def)

lemma bt_get_empty [simp]: "bt_get bt_empty k = None"
  by (simp add: bt_get_def bt_empty_def)

lemma bt_wf_collect [simp]: "bt_wf (bt_collect xs)"
  unfolding bt_collect_def by (rule bt.wf_collect) (simp add: bt_empty_def)

lemma bt_get_collect: "bt_get (bt_collect xs) = map_of (rev xs)"
  unfolding bt_collect_def
  by (subst bt.lookup_collect)
    (auto simp: bt.wf_empty bt.lookup_empty map_add_def fun_eq_iff split: option.splits)

lemma bt_get_collect_distinct: "distinct (map fst xs) \<Longrightarrow> bt_get (bt_collect xs) = map_of xs"
  unfolding bt_get_collect by (subst map_of_inject_set) (simp_all flip: rev_map)

lemma bt_ext: "bt_wf m \<Longrightarrow> bt_wf n \<Longrightarrow> (\<And>k. bt_get m k = bt_get n k) \<Longrightarrow> m = n"
  using bt.entries_determined [of m n] by (simp add: fun_eq_iff)

lemma bt_contains_iff: "bt_wf m \<Longrightarrow> bt_contains m k \<longleftrightarrow> k \<in> set (bt_keys m)"
  by (force simp: bt_contains_def bt_keys_def bt.lookup_iff_entry)

lemma bt_wf_push [simp]: "bt_wf m \<Longrightarrow> bt_wf (bt_push k v m)"
  by (simp add: bt_push_def bt.wf_insert)

lemma bt_get_adjust:
  "bt_get (bt_adjust k f m) j = (if j = k then map_option f (bt_get m k) else bt_get m j)"
  by (induction m) (auto simp: bt_adjust_def bt_get_def)

lemma bt_keys_adjust [simp]: "bt_keys (bt_adjust k f m) = bt_keys m"
  by (simp add: bt_adjust_def bt_keys_def)

lemma bt_wf_adjust [simp]: "bt_wf (bt_adjust k f m) = bt_wf m"
  using bt_keys_adjust [of k f m] by (simp add: bt_wf_def bt_keys_def)

lemma bt_get_in_values: "bt_get m k = Some v \<Longrightarrow> v \<in> set (bt_values m)"
  by (force simp: bt_get_def bt_values_def dest: map_of_SomeD)

lemma bt_keys_in_order: "bt_wf m \<Longrightarrow> sorted_wrt (<) (bt_keys m)"
  by (simp add: bt_wf_def bt_keys_def)

section \<open>Removal and binary search\<close>

lemma bt_get_remove: "bt_get (bt_remove k m) j = (if j = k then None else bt_get m j)"
  by (induction m) (auto simp: bt_remove_def bt_get_def)

lemma bt_wf_remove [simp]: "bt_wf m \<Longrightarrow> bt_wf (bt_remove k m)"
  by (induction m) (auto simp: bt_remove_def bt_wf_def)

text \<open>\<open>slice::binary_search(x).is_ok()\<close> on the half-open range \<open>[lo, hi)\<close>.\<close>

function bisect :: "'a::linorder list \<Rightarrow> 'a \<Rightarrow> nat \<Rightarrow> nat \<Rightarrow> bool" where
  "bisect xs x lo hi =
     (if hi \<le> lo then False
      else let mid = lo + (hi - lo) div 2
           in if xs ! mid = x then True
              else if xs ! mid < x then bisect xs x (mid + 1) hi
              else bisect xs x lo mid)"
  by pat_completeness auto
termination
  by (relation "measure (\<lambda>(xs, x, lo, hi). hi - lo)") auto

declare bisect.simps [simp del]

definition binary_search_ok :: "'a::linorder list \<Rightarrow> 'a \<Rightarrow> bool" where
  "binary_search_ok xs x = bisect xs x 0 (length xs)"

lemma bisect_iff:
  assumes "sorted xs" and "hi \<le> length xs"
  shows "bisect xs x lo hi \<longleftrightarrow> (\<exists>i. lo \<le> i \<and> i < hi \<and> xs ! i = x)"
  using assms
proof (induction xs x lo hi rule: bisect.induct)
  case (1 xs x lo hi)
  show ?case
  proof (cases "hi \<le> lo")
    case True
    then show ?thesis by (subst bisect.simps) auto
  next
    case False
    define mid where "mid = lo + (hi - lo) div 2"
    from False have mid: "lo \<le> mid" "mid < hi" by (auto simp: mid_def)
    have unfold: "bisect xs x lo hi =
        (if xs ! mid = x then True else if xs ! mid < x then bisect xs x (mid + 1) hi
         else bisect xs x lo mid)"
      using False by (subst bisect.simps) (simp add: mid_def Let_def)
    have mono: "xs ! i \<le> xs ! j" if "i \<le> j" "j < hi" for i j
      using "1.prems" that by (intro sorted_nth_mono) auto
    consider "xs ! mid = x" | "xs ! mid < x" | "x < xs ! mid" by fastforce
    then show ?thesis
    proof cases
      case 1
      with unfold mid show ?thesis by auto
    next
      case 2
      then have "mid < i" if "i < hi" "xs ! i = x" for i
        using mono [of i mid] mid that by (metis leD not_less)
      moreover have "bisect xs x lo hi = (\<exists>i. mid + 1 \<le> i \<and> i < hi \<and> xs ! i = x)"
        using 2 unfold "1.IH"(1) [OF False mid_def] "1.prems" by auto
      ultimately show ?thesis
        using mid by (metis Suc_eq_plus1 Suc_leI add_leD1 le_trans)
    next
      case 3
      then have "i < mid" if "i < hi" "xs ! i = x" for i
        using mono [of mid i] mid that by (metis leD not_less)
      moreover have "bisect xs x lo hi = (\<exists>i. lo \<le> i \<and> i < mid \<and> xs ! i = x)"
        using 3 unfold "1.IH"(2) [OF False mid_def] "1.prems" mid by auto
      ultimately show ?thesis
        using mid less_trans by blast
    qed
  qed
qed

lemma binary_search_ok_iff: "sorted xs \<Longrightarrow> binary_search_ok xs x \<longleftrightarrow> x \<in> set xs"
  by (simp add: binary_search_ok_def bisect_iff in_set_conv_nth)

end
