(* ===== verification/Graph_Model.thy ===== *)
theory Graph_Model
  imports Std_Collections
begin

text \<open>
  The data model of \<open>crates/blut-graph-core/src/model.rs\<close> and the value types of \<open>config.rs\<close>: one
  datatype per Rust enum, one record per struct (fields prefixed by the struct's initials, since
  Isabelle's selectors are global), type synonyms for the integer identities, and for the types
  Rust orders by a derived \<open>Ord\<close> an instance of \<open>linorder\<close> with the same lexicographic order.
\<close>

section \<open>Identities and opaque tokens\<close>

type_synonym node_id = u32
type_synonym kernel_id = u32
type_synonym buffer_id = u32
type_synonym step_id = u32
type_synonym feedback_id = u32

text \<open>\<open>[u8; 32]\<close>: the length is a fact about values, stated where it is needed.\<close>

type_synonym hash32 = bytes
type_synonym graph_id = hash32
type_synonym plan_id = hash32
type_synonym subgraph_id = hash32
type_synonym implementation_id = hash32

type_synonym capability = string

record node_type_ref =
  ntr_type_name :: string
  ntr_version :: u32

text \<open>Execution targets, realms and buffer layouts are opaque \<open>u32\<close> tokens with assigned ordinals.\<close>

type_synonym target = u32
type_synonym realm = u32
type_synonym layout = u32

definition Target_McuAot :: target where "Target_McuAot = 0"
definition Target_Host :: target where "Target_Host = 1"
definition Target_BlutDurable :: target where "Target_BlutDurable = 2"

definition target_is_known :: "target \<Rightarrow> bool" where
  "target_is_known t = (t \<le> 2)"

definition Realm_McuAot :: realm where "Realm_McuAot = 0"
definition Realm_HostStream :: realm where "Realm_HostStream = 1"
definition Realm_BlutDurable :: realm where "Realm_BlutDurable = 2"

definition realm_is_known :: "realm \<Rightarrow> bool" where
  "realm_is_known r = (r \<le> 2)"

definition realm_target :: "realm \<Rightarrow> target" where
  "realm_target r =
     (if r = 0 then Target_McuAot
      else if r = 1 then Target_Host
      else if r = 2 then Target_BlutDurable
      else r)"

definition Layout_Canonical :: layout where "Layout_Canonical = 0"
definition Layout_ChannelMajor :: layout where "Layout_ChannelMajor = 1"
definition Layout_TimeMajor :: layout where "Layout_TimeMajor = 2"
definition Layout_Packed :: layout where "Layout_Packed = 3"
definition Layout_Opaque :: layout where "Layout_Opaque = 4"

definition layout_is_known :: "layout \<Rightarrow> bool" where
  "layout_is_known l = (l \<le> 4)"

section \<open>Semantic lattices\<close>

datatype determinism = BitExact | NumericallyEquivalent | Seeded | Nondeterministic

datatype effect = Pure | Idempotent | Transactional | AtMostOnce | AtLeastOnce

datatype partiality = Atomic | ExplicitGaps

text \<open>The discriminants \<open>x as u32\<close>; the derived \<open>Ord\<close> compares them.\<close>

fun determinism_ordinal :: "determinism \<Rightarrow> u32" where
  "determinism_ordinal BitExact = 0"
| "determinism_ordinal NumericallyEquivalent = 1"
| "determinism_ordinal Seeded = 2"
| "determinism_ordinal Nondeterministic = 3"

fun effect_ordinal :: "effect \<Rightarrow> u32" where
  "effect_ordinal Pure = 0"
| "effect_ordinal Idempotent = 1"
| "effect_ordinal Transactional = 2"
| "effect_ordinal AtMostOnce = 3"
| "effect_ordinal AtLeastOnce = 4"

fun partiality_ordinal :: "partiality \<Rightarrow> u32" where
  "partiality_ordinal Atomic = 0"
| "partiality_ordinal ExplicitGaps = 1"

lemma determinism_ordinal_inject [simp]:
  "determinism_ordinal a = determinism_ordinal b \<longleftrightarrow> a = b"
  by (cases a; cases b) auto

lemma effect_ordinal_inject [simp]: "effect_ordinal a = effect_ordinal b \<longleftrightarrow> a = b"
  by (cases a; cases b) auto

lemma partiality_ordinal_inject [simp]: "partiality_ordinal a = partiality_ordinal b \<longleftrightarrow> a = b"
  by (cases a; cases b) auto

instantiation determinism :: linorder
begin

definition less_eq_determinism :: "determinism \<Rightarrow> determinism \<Rightarrow> bool" where
  "less_eq_determinism a b = (determinism_ordinal a \<le> determinism_ordinal b)"

definition less_determinism :: "determinism \<Rightarrow> determinism \<Rightarrow> bool" where
  "less_determinism a b = (determinism_ordinal a < determinism_ordinal b)"

instance
  by standard (auto simp: less_eq_determinism_def less_determinism_def order.strict_iff_order)

end

section \<open>Contracts of ports, state and resources\<close>

record failure_contract =
  fc_domains :: "string list"

text \<open>\<open>DomainToken\<close> wraps a string the compiler never interprets; only emptiness matters.\<close>

type_synonym domain_token = string

record domain_type =
  dt_root :: domain_token
  dt_view :: domain_token

record extent_contract =
  ec_rank :: u8
  ec_maximum_shape :: "u64 list"
  ec_max_elements :: u64
  ec_ragged :: bool
  ec_sparse :: bool

datatype lease_access = ReadOnly | ExclusiveWrite

datatype lease_lifetime = LifetimeStep | LifetimeInvocation | LifetimeSession

fun lease_access_ordinal :: "lease_access \<Rightarrow> u32" where
  "lease_access_ordinal ReadOnly = 0"
| "lease_access_ordinal ExclusiveWrite = 1"

fun lease_lifetime_ordinal :: "lease_lifetime \<Rightarrow> u32" where
  "lease_lifetime_ordinal LifetimeStep = 0"
| "lease_lifetime_ordinal LifetimeInvocation = 1"
| "lease_lifetime_ordinal LifetimeSession = 2"

record lease_contract =
  lc_access :: lease_access
  lc_lifetime :: lease_lifetime
  lc_zero_copy_permitted :: bool
  lc_contiguous_required :: bool

record resource_envelope =
  re_peak_bytes :: u64
  re_scratch_bytes :: u64
  re_threads :: u16
  re_device :: "string option"

definition resource_bounded :: "u64 \<Rightarrow> u64 \<Rightarrow> u16 \<Rightarrow> resource_envelope" where
  "resource_bounded peak scratch threads =
     \<lparr>re_peak_bytes = peak, re_scratch_bytes = scratch, re_threads = threads, re_device = None\<rparr>"

record proof_contract =
  prf_requires :: "string list"
  prf_provides :: "string list"
  prf_invalidates :: "string list"

record policy_contract =
  pol_requires :: "string list"
  pol_adds :: "string list"

record fidelity_contract =
  fid_minimum_input :: u16
  fid_maximum_loss :: u16

record port_descriptor =
  pd_name :: string
  pd_semantic_type :: string
  pd_optional :: bool
  pd_layouts :: "layout list"
  pd_max_bytes :: u64
  pd_domain :: domain_type
  pd_proof :: proof_contract
  pd_policy :: policy_contract
  pd_fidelity :: fidelity_contract
  pd_extent :: extent_contract
  pd_lease :: lease_contract

definition port_opaque :: "string \<Rightarrow> string \<Rightarrow> u64 \<Rightarrow> port_descriptor" where
  "port_opaque name semantic_type max_bytes =
     \<lparr>pd_name = name, pd_semantic_type = semantic_type, pd_optional = False,
      pd_layouts = [Layout_Canonical], pd_max_bytes = max_bytes,
      pd_domain = \<lparr>dt_root = ''blob-ref'', dt_view = ''atom''\<rparr>,
      pd_proof = \<lparr>prf_requires = [], prf_provides = [], prf_invalidates = []\<rparr>,
      pd_policy = \<lparr>pol_requires = [], pol_adds = []\<rparr>,
      pd_fidelity = \<lparr>fid_minimum_input = 0, fid_maximum_loss = 0\<rparr>,
      pd_extent = \<lparr>ec_rank = 0, ec_maximum_shape = [], ec_max_elements = 1,
                   ec_ragged = False, ec_sparse = False\<rparr>,
      pd_lease = \<lparr>lc_access = ReadOnly, lc_lifetime = LifetimeInvocation,
                  lc_zero_copy_permitted = False, lc_contiguous_required = False\<rparr>\<rparr>"

datatype state_scope = Stateless | ScopeInvocation | ScopeSession | Durable

datatype checkpoint_mode = Disabled | Optional | Required

fun state_scope_ordinal :: "state_scope \<Rightarrow> u32" where
  "state_scope_ordinal Stateless = 0"
| "state_scope_ordinal ScopeInvocation = 1"
| "state_scope_ordinal ScopeSession = 2"
| "state_scope_ordinal Durable = 3"

fun checkpoint_mode_ordinal :: "checkpoint_mode \<Rightarrow> u32" where
  "checkpoint_mode_ordinal Disabled = 0"
| "checkpoint_mode_ordinal Optional = 1"
| "checkpoint_mode_ordinal Required = 2"

record checkpoint_contract =
  cc_mode :: checkpoint_mode
  cc_max_snapshot_bytes :: u64
  cc_max_interval_invocations :: u32

record state_contract =
  sc_scope :: state_scope
  sc_max_bytes :: u64
  sc_checkpoint :: checkpoint_contract

definition stateless :: state_contract where
  "stateless =
     \<lparr>sc_scope = Stateless, sc_max_bytes = 0,
      sc_checkpoint = \<lparr>cc_mode = Disabled, cc_max_snapshot_bytes = 0, cc_max_interval_invocations = 0\<rparr>\<rparr>"

definition checkpointable :: "state_contract \<Rightarrow> bool" where
  "checkpointable s = (cc_mode (sc_checkpoint s) \<noteq> Disabled)"

record session_contract =
  ses_namespace :: string
  ses_max_concurrent_sessions :: u32
  ses_max_idle_millis :: u64
  ses_reset_on_plan_change :: bool

section \<open>Configuration values and schemas (\<open>config.rs\<close>)\<close>

text \<open>
  An \<open>i64\<close> is a 64-bit word read in two's complement; its order is the signed comparison.
\<close>

datatype config_value =
    VBool bool
  | VI64 i64
  | VU64 u64
  | VText string
  | VBytes bytes

datatype config_type =
    TBool
  | TI64 i64 i64
  | TU64 u64 u64
  | TText u32
  | TChoice "string list"
  | TBytes u32

record config_field =
  cf_name :: string
  cf_value_type :: config_type
  cf_required :: bool
  cf_default :: "config_value option"

type_synonym config_schema = "config_field list"

type_synonym config = "(string, config_value) btree_map"

section \<open>Graphs, nodes and kernels\<close>

datatype port_ref = PortRef (pr_node: node_id) (pr_port: string)

datatype edge = Edge (edge_from: port_ref) (edge_to: port_ref)

datatype port_map = PortMap (pm_outer: string) (pm_inner: string)

datatype subgraph_config_map =
  SubgraphConfigMap (scm_outer: string) (scm_node: node_id) (scm_inner: string)

datatype subgraph_interface_port = SubgraphInterfacePort (sip_name: string) (sip_inner: port_ref)

instantiation port_ref :: linorder
begin

definition less_eq_port_ref :: "port_ref \<Rightarrow> port_ref \<Rightarrow> bool" where
  "less_eq_port_ref a b = ((pr_node a, pr_port a) \<le> (pr_node b, pr_port b))"

definition less_port_ref :: "port_ref \<Rightarrow> port_ref \<Rightarrow> bool" where
  "less_port_ref a b = ((pr_node a, pr_port a) < (pr_node b, pr_port b))"

instance
  by standard
    (auto simp: less_eq_port_ref_def less_port_ref_def intro: port_ref.expand)

end

instantiation port_map :: linorder
begin

definition less_eq_port_map :: "port_map \<Rightarrow> port_map \<Rightarrow> bool" where
  "less_eq_port_map a b = ((pm_outer a, pm_inner a) \<le> (pm_outer b, pm_inner b))"

definition less_port_map :: "port_map \<Rightarrow> port_map \<Rightarrow> bool" where
  "less_port_map a b = ((pm_outer a, pm_inner a) < (pm_outer b, pm_inner b))"

instance
  by standard
    (auto simp: less_eq_port_map_def less_port_map_def intro: port_map.expand)

end

instantiation subgraph_config_map :: linorder
begin

definition less_eq_subgraph_config_map :: "subgraph_config_map \<Rightarrow> subgraph_config_map \<Rightarrow> bool" where
  "less_eq_subgraph_config_map a b =
     ((scm_outer a, scm_node a, scm_inner a) \<le> (scm_outer b, scm_node b, scm_inner b))"

definition less_subgraph_config_map :: "subgraph_config_map \<Rightarrow> subgraph_config_map \<Rightarrow> bool" where
  "less_subgraph_config_map a b =
     ((scm_outer a, scm_node a, scm_inner a) < (scm_outer b, scm_node b, scm_inner b))"

instance
  by standard
    (auto simp: less_eq_subgraph_config_map_def less_subgraph_config_map_def
      intro: subgraph_config_map.expand)

end

instantiation subgraph_interface_port :: linorder
begin

definition less_eq_subgraph_interface_port ::
    "subgraph_interface_port \<Rightarrow> subgraph_interface_port \<Rightarrow> bool" where
  "less_eq_subgraph_interface_port a b = ((sip_name a, sip_inner a) \<le> (sip_name b, sip_inner b))"

definition less_subgraph_interface_port ::
    "subgraph_interface_port \<Rightarrow> subgraph_interface_port \<Rightarrow> bool" where
  "less_subgraph_interface_port a b = ((sip_name a, sip_inner a) < (sip_name b, sip_inner b))"

instance
  by standard
    (auto simp: less_eq_subgraph_interface_port_def less_subgraph_interface_port_def
      intro: subgraph_interface_port.expand)

end

datatype delay_initial = DelayAbsent | DelayZeroed | DelayContentId hash32

record delay_contract =
  dc_invocations :: u32
  dc_initial :: delay_initial

record feedback_edge =
  fe_from :: port_ref
  fe_to :: port_ref
  fe_delay :: delay_contract

record subgraph_lowering =
  sl_subgraph :: subgraph_id
  sl_input_map :: "port_map list"
  sl_output_map :: "port_map list"
  sl_config_map :: "subgraph_config_map list"

record subgraph_node =
  sn_id :: node_id
  sn_node_type :: node_type_ref
  sn_config :: config
  sn_child :: "subgraph_id option"

record subgraph_schema =
  ss_id :: subgraph_id
  ss_version :: u32
  ss_nodes :: "subgraph_node list"
  ss_edges :: "edge list"
  ss_inputs :: "subgraph_interface_port list"
  ss_outputs :: "subgraph_interface_port list"

record node_descriptor =
  nd_type_name :: string
  nd_version :: u32
  nd_inputs :: "port_descriptor list"
  nd_outputs :: "port_descriptor list"
  nd_capabilities :: "capability list"
  nd_targets :: "target list"
  nd_resources :: resource_envelope
  nd_determinism :: determinism
  nd_config :: config_schema
  nd_state :: state_contract
  nd_subgraph :: "subgraph_lowering option"
  nd_proof :: proof_contract
  nd_policy :: policy_contract
  nd_fidelity :: fidelity_contract
  nd_partiality :: partiality
  nd_failure :: failure_contract
  nd_effect :: effect
  nd_retry_limit :: u16

record node_instance =
  ni_id :: node_id
  ni_descriptor :: string
  ni_descriptor_version :: u32
  ni_config :: config

record graph =
  g_version :: u32
  g_nodes :: "node_instance list"
  g_edges :: "edge list"
  g_feedback :: "feedback_edge list"
  g_invocation_inputs :: "port_ref list"
  g_required_capabilities :: "capability list"
  g_required_proofs :: "string list"
  g_policy :: "string list"
  g_minimum_fidelity :: u16
  g_session :: "session_contract option"

record materialized_subgraph =
  ms_graph :: graph
  ms_inputs :: "subgraph_interface_port list"
  ms_outputs :: "subgraph_interface_port list"

record layout_conversion =
  cv_semantic_type :: string
  cv_from :: layout
  cv_to :: layout
  cv_max_input_bytes :: u64
  cv_max_output_bytes :: u64

record kernel_descriptor =
  kd_id :: kernel_id
  kd_implements :: "node_type_ref list"
  kd_implementation_id :: implementation_id
  kd_conversion :: "layout_conversion option"
  kd_target :: target
  kd_input_layouts :: "layout list"
  kd_output_layouts :: "layout list"
  kd_resources :: resource_envelope
  kd_determinism :: determinism
  kd_lowering :: string

text \<open>\<open>KernelRegistry\<close>: what the compiler trusts, keyed by node type, kernel id and subgraph id.\<close>

record kernel_registry =
  reg_descriptors :: "(string \<times> u32, node_descriptor) btree_map"
  reg_kernels :: "(kernel_id, kernel_descriptor) btree_map"
  reg_subgraphs :: "(subgraph_id, subgraph_schema) btree_map"

section \<open>Compiled plans\<close>

datatype output_binding = OutBuffer buffer_id | Terminal

datatype input_binding = InBuffer buffer_id | InInvocation u32 | InFeedback feedback_id | Absent

record compiled_port_contract =
  cp_name :: string
  cp_semantic_type :: string
  cp_optional :: bool
  cp_layout :: layout
  cp_max_bytes :: u64
  cp_domain :: domain_type
  cp_proof :: proof_contract
  cp_policy :: policy_contract
  cp_fidelity :: fidelity_contract
  cp_extent :: extent_contract
  cp_lease :: lease_contract

record compiled_node =
  cn_id :: step_id
  cn_semantic_nodes :: "node_id list"
  cn_semantic_types :: "node_type_ref list"
  cn_semantic_configs :: "config list"
  cn_kernel :: kernel_id
  cn_implementation_id :: implementation_id
  cn_resources :: resource_envelope
  cn_determinism :: determinism
  cn_lowering :: string
  cn_conversion :: "layout_conversion option"
  cn_input_ports :: "string list"
  cn_output_ports :: "string list"
  cn_input_contracts :: "compiled_port_contract list"
  cn_output_contracts :: "compiled_port_contract list"
  cn_input_bindings :: "input_binding list"
  cn_output_bindings :: "output_binding list"
  cn_partiality :: partiality
  cn_failure :: failure_contract
  cn_effect :: effect
  cn_retry_limit :: u16
  cn_state :: state_contract
  cn_subgraph_path :: "subgraph_id list"

record feedback_plan =
  fp_id :: feedback_id
  fp_from_step :: step_id
  fp_from_port :: u32
  fp_to_step :: step_id
  fp_to_port :: u32
  fp_delay :: delay_contract
  fp_state_bytes :: u64

record buffer_plan =
  bp_id :: buffer_id
  bp_layout :: layout
  bp_capacity_bytes :: u64
  bp_producer :: step_id
  bp_consumers :: "step_id list"
  bp_last_consumer :: step_id
  bp_aliases :: "buffer_id option"

record compiled_plan =
  p_schema_version :: u32
  p_graph_id :: graph_id
  p_plan_id :: plan_id
  p_realm :: realm
  p_order :: "node_id list"
  p_nodes :: "compiled_node list"
  p_buffers :: "buffer_plan list"
  p_feedback :: "feedback_plan list"
  p_invocation_ports :: "port_ref list"
  p_propagated_proofs :: "string list"
  p_propagated_policy :: "string list"
  p_resulting_fidelity :: u16
  p_peak_bytes :: u64
  p_persistent_state_bytes :: u64
  p_session :: "session_contract option"

text \<open>
  \<open>AuthorizedPlan\<close> is a wrapper that only compilation and registry-bound decoding construct.
\<close>

datatype authorized_plan = AuthorizedPlan (as_plan: compiled_plan)

section \<open>Facts about the tokens\<close>

text \<open>
  A realm and the target it lowers to are known together, and distinct realms never share a target:
  decoding and compilation cannot disagree about the target of a realm.
\<close>

lemma realm_target_id: "realm_target r = r"
  by (simp add: realm_target_def Target_McuAot_def Target_Host_def Target_BlutDurable_def)

lemma realm_target_known: "target_is_known (realm_target r) = realm_is_known r"
  by (simp add: realm_target_id target_is_known_def realm_is_known_def)

lemma realm_target_inject: "realm_target a = realm_target b \<Longrightarrow> a = b"
  by (simp add: realm_target_id)

end
