(* ===== verification/Config.thy ===== *)
theory Config
  imports Graph_Model
begin

text \<open>
  \<open>crates/blut-graph-core/src/config.rs\<close>: validation and normalisation of a node's configuration
  schema, and canonicalisation of the configuration of one instance against it (defaults are
  materialised, unknown and ill-typed values are refused). The lemmas characterise both operations
  completely and show that a canonical configuration is a fixpoint of canonicalisation, which is
  what the registry-bound decoder tests.
\<close>

section \<open>Operations\<close>

datatype config_error =
    DuplicateField string
  | InvalidField string
  | UnknownField string
  | MissingField string
  | InvalidValue string

fun valid_type :: "config_type \<Rightarrow> bool" where
  "valid_type (TI64 minimum maximum) = (minimum \<le>s maximum)"
| "valid_type (TU64 minimum maximum) = (minimum \<le> maximum)"
| "valid_type (TText max_bytes) = (max_bytes > 0)"
| "valid_type (TBytes max_bytes) = (max_bytes > 0)"
| "valid_type (TChoice values) =
     (values \<noteq> [] \<and> (\<forall>value \<in> set values. value \<noteq> []) \<and>
      length (sort_dedup values) = length values)"
| "valid_type TBool = True"

fun valid_value :: "config_type \<Rightarrow> config_value \<Rightarrow> bool" where
  "valid_value TBool (VBool _) = True"
| "valid_value (TI64 minimum maximum) (VI64 value) = (minimum \<le>s value \<and> value \<le>s maximum)"
| "valid_value (TU64 minimum maximum) (VU64 value) = (minimum \<le> value \<and> value \<le> maximum)"
| "valid_value (TText max_bytes) (VText value) = (length value \<le> unat max_bytes)"
| "valid_value (TChoice values) (VText value) = (value \<in> set values)"
| "valid_value (TBytes max_bytes) (VBytes value) = (length value \<le> unat max_bytes)"
| "valid_value _ _ = False"

definition normalize_field :: "config_field \<Rightarrow> (config_error, config_field) outcome" where
  "normalize_field field =
     and_then
       (guard (cf_name field = [] \<or> (cf_required field \<and> cf_default field \<noteq> None))
         (InvalidField (cf_name field)))
       (\<lambda>_. and_then
         (case cf_value_type field of
            TChoice values \<Rightarrow>
              let values = sort_dedup values
              in if values = [] \<or> (\<exists>value \<in> set values. value = [])
                 then Err (InvalidField (cf_name field))
                 else Ok (field\<lparr>cf_value_type := TChoice values\<rparr>)
          | _ \<Rightarrow> Ok field)
         (\<lambda>field.
            if \<not> valid_type (cf_value_type field) \<or>
               (case cf_default field of
                  Some value \<Rightarrow> \<not> valid_value (cf_value_type field) value
                | None \<Rightarrow> False)
            then Err (InvalidField (cf_name field))
            else Ok field))"

definition config_normalize :: "config_schema \<Rightarrow> (config_error, config_schema) outcome" where
  "config_normalize schema =
     (let fields = sort_key cf_name schema
      in case List.find (\<lambda>(a, b). cf_name a = cf_name b) (windows2 fields) of
           Some (a, _) \<Rightarrow> Err (DuplicateField (cf_name a))
         | None \<Rightarrow> try_map normalize_field fields)"

definition field_value :: "config \<Rightarrow> config_field \<Rightarrow> config_value option" where
  "field_value supplied field =
     option_or (bt_get supplied (cf_name field)) (cf_default field)"

definition canonicalize_field ::
    "config \<Rightarrow> config \<Rightarrow> config_field \<Rightarrow> (config_error, config) outcome" where
  "canonicalize_field supplied normalized field =
     (case field_value supplied field of
        Some value \<Rightarrow>
          if valid_value (cf_value_type field) value
          then Ok (bt_insert (cf_name field) value normalized)
          else Err (InvalidValue (cf_name field))
      | None \<Rightarrow> if cf_required field then Err (MissingField (cf_name field)) else Ok normalized)"

definition canonicalize :: "config_schema \<Rightarrow> config \<Rightarrow> (config_error, config) outcome" where
  "canonicalize schema supplied =
     (let fields = bt_collect (map (\<lambda>field. (cf_name field, field)) schema)
      in case List.find (\<lambda>name. \<not> bt_contains fields name) (bt_keys supplied) of
           Some unknown \<Rightarrow> Err (UnknownField unknown)
         | None \<Rightarrow> try_fold (canonicalize_field supplied) bt_empty schema)"

section \<open>Well-formed schemas\<close>

text \<open>What \<open>normalize\<close> guarantees of a schema it accepts.\<close>

definition field_wf :: "config_field \<Rightarrow> bool" where
  "field_wf f \<longleftrightarrow>
     cf_name f \<noteq> [] \<and>
     (cf_required f \<longrightarrow> cf_default f = None) \<and>
     valid_type (cf_value_type f) \<and>
     (\<forall>v. cf_default f = Some v \<longrightarrow> valid_value (cf_value_type f) v) \<and>
     (\<forall>vs. cf_value_type f = TChoice vs \<longrightarrow> sorted_wrt (<) vs)"

definition schema_wf :: "config_schema \<Rightarrow> bool" where
  "schema_wf s \<longleftrightarrow> sorted_wrt (<) (map cf_name s) \<and> (\<forall>f \<in> set s. field_wf f)"

lemma schema_wf_distinct: "schema_wf s \<Longrightarrow> distinct (map cf_name s)"
  by (simp add: schema_wf_def strict_sorted_iff)

lemma choice_valid_sort_dedup: "length (sort_dedup (sort_dedup vs)) = length (sort_dedup vs)"
  by simp

lemma normalize_field_Ok:
  assumes "normalize_field f = Ok g"
  shows "field_wf g \<and> cf_name g = cf_name f"
proof -
  from assms have name: "cf_name f \<noteq> []" and req: "cf_required f \<longrightarrow> cf_default f = None"
    by (auto simp: normalize_field_def outcome_simps)
  have shape: "g = (case cf_value_type f of
      TChoice vs \<Rightarrow> f\<lparr>cf_value_type := TChoice (sort_dedup vs)\<rparr> | _ \<Rightarrow> f)"
    using assms
    by (cases "cf_value_type f") (simp_all add: normalize_field_def outcome_simps Let_def split: if_splits)
  have "valid_type (cf_value_type g)" and "\<forall>v. cf_default g = Some v \<longrightarrow> valid_value (cf_value_type g) v"
    using assms by (auto simp: normalize_field_def outcome_simps split: if_splits option.splits)
  with name req shape show ?thesis
    by (cases "cf_value_type f") (simp_all add: field_wf_def)
qed

lemma normalize_field_fixpoint: "field_wf f \<Longrightarrow> normalize_field f = Ok f"
  by (cases "cf_value_type f")
    (auto simp: normalize_field_def field_wf_def guard_def Let_def sort_dedup_fixpoint
      split: option.splits)

lemma find_duplicate_None:
  assumes "sorted (map cf_name fs)"
  shows "List.find (\<lambda>(a, b). cf_name a = cf_name b) (windows2 fs) = None \<longleftrightarrow>
    distinct (map cf_name fs)"
  using windows2_adjacent_key [OF assms] by (auto simp: find_None_iff)

lemma try_map_Ok_map: "try_map f xs = Ok ys \<Longrightarrow> (\<And>x y. f x = Ok y \<Longrightarrow> k y = h x) \<Longrightarrow> map k ys = map h xs"
  by (induction xs arbitrary: ys) (auto simp: outcome_simps)

lemma try_map_id: "(\<And>x. x \<in> set xs \<Longrightarrow> f x = Ok x) \<Longrightarrow> try_map f xs = Ok xs"
  by (induction xs) auto

lemma config_normalize_Ok_iff:
  "config_normalize s = Ok t \<longleftrightarrow>
     distinct (map cf_name s) \<and> try_map normalize_field (sort_key cf_name s) = Ok t"
proof -
  have "distinct (map cf_name (sort_key cf_name s)) \<longleftrightarrow> distinct (map cf_name s)"
    by (metis mset_eq_imp_distinct_iff mset_map mset_sort)
  then show ?thesis
    using find_duplicate_None [of "sort_key cf_name s"]
    by (auto simp: config_normalize_def Let_def split: option.splits)
qed

lemma config_normalize_wf:
  assumes "config_normalize s = Ok t"
  shows "schema_wf t"
proof -
  from assms have d: "distinct (map cf_name s)"
    and m: "try_map normalize_field (sort_key cf_name s) = Ok t"
    by (simp_all add: config_normalize_Ok_iff)
  from m have names: "map cf_name t = map cf_name (sort_key cf_name s)"
    by (rule try_map_Ok_map) (simp add: normalize_field_Ok)
  have "distinct (map cf_name (sort_key cf_name s))"
    using d by (metis mset_eq_imp_distinct_iff mset_map mset_sort)
  then have "sorted_wrt (<) (map cf_name t)"
    by (simp add: names strict_sorted_iff)
  moreover have "field_wf f" if "f \<in> set t" for f
    using m that normalize_field_Ok by (auto simp: try_map_Ok_iff list_all2_conv_all_nth in_set_conv_nth)
  ultimately show ?thesis by (simp add: schema_wf_def)
qed

lemma config_normalize_fixpoint:
  assumes "schema_wf s"
  shows "config_normalize s = Ok s"
proof -
  have "sorted (map cf_name s)"
    using assms by (simp add: schema_wf_def strict_sorted_iff)
  then have "sort_key cf_name s = s" by (rule sort_key_id_if_sorted)
  then show ?thesis
    using assms schema_wf_distinct [OF assms]
    by (simp add: config_normalize_Ok_iff try_map_id normalize_field_fixpoint schema_wf_def)
qed

section \<open>Canonical configurations\<close>

text \<open>The value a successful canonicalisation gives to each declared name.\<close>

definition canonical_lookup :: "config_schema \<Rightarrow> config \<Rightarrow> string \<Rightarrow> config_value option" where
  "canonical_lookup schema supplied name =
     Option.bind (map_of (map (\<lambda>f. (cf_name f, f)) schema) name) (field_value supplied)"

text \<open>The conditions under which it succeeds, for one field and for the whole schema.\<close>

definition field_acceptable :: "config \<Rightarrow> config_field \<Rightarrow> bool" where
  "field_acceptable supplied f \<longleftrightarrow> (case field_value supplied f of
     Some v \<Rightarrow> valid_value (cf_value_type f) v
   | None \<Rightarrow> \<not> cf_required f)"

definition acceptable :: "config_schema \<Rightarrow> config \<Rightarrow> bool" where
  "acceptable schema supplied \<longleftrightarrow>
     set (bt_keys supplied) \<subseteq> cf_name ` set schema \<and>
     (\<forall>f \<in> set schema. field_acceptable supplied f)"

lemma canonical_lookup_Cons:
  "canonical_lookup (f # fs) supplied k =
     (if k = cf_name f then field_value supplied f else canonical_lookup fs supplied k)"
  by (simp add: canonical_lookup_def)

lemma canonical_lookup_fresh:
  "k \<notin> cf_name ` set fs \<Longrightarrow> canonical_lookup fs supplied k = None"
  by (induction fs) (auto simp: canonical_lookup_Cons, simp add: canonical_lookup_def)

lemma canonicalize_field_Ok_iff:
  "canonicalize_field supplied acc f = Ok m \<longleftrightarrow>
     field_acceptable supplied f \<and>
     m = (case field_value supplied f of Some v \<Rightarrow> bt_insert (cf_name f) v acc | None \<Rightarrow> acc)"
  by (auto simp: canonicalize_field_def field_acceptable_def split: option.splits)

lemma canonicalize_fold_Ok_iff:
  assumes "bt_wf acc" and "distinct (map cf_name fs)"
  shows "try_fold (canonicalize_field supplied) acc fs = Ok m \<longleftrightarrow>
    (\<forall>f \<in> set fs. field_acceptable supplied f) \<and> bt_wf m \<and>
    (\<forall>k. bt_get m k = option_or (canonical_lookup fs supplied k) (bt_get acc k))"
  using assms
proof (induction fs arbitrary: acc)
  case Nil
  then show ?case
    by (auto simp: canonical_lookup_def intro: bt_ext)
next
  case (Cons f fs)
  define acc' where
    "acc' = (case field_value supplied f of Some v \<Rightarrow> bt_insert (cf_name f) v acc | None \<Rightarrow> acc)"
  have wf: "bt_wf acc'"
    using Cons.prems(1) by (simp add: acc'_def bt_wf_insert split: option.splits)
  have "canonical_lookup fs supplied (cf_name f) = None"
    using Cons.prems(2) by (intro canonical_lookup_fresh) auto
  moreover have "bt_get acc' k = (if k = cf_name f then option_or (field_value supplied f) (bt_get acc k)
      else bt_get acc k)" for k
    using Cons.prems(1) by (auto simp: acc'_def bt_get_insert split: option.splits)
  ultimately have "option_or (canonical_lookup (f # fs) supplied k) (bt_get acc k) =
      option_or (canonical_lookup fs supplied k) (bt_get acc' k)" for k
    by (simp add: canonical_lookup_Cons)
  then show ?case
    using Cons.IH [OF wf] Cons.prems(2)
    by (auto simp: outcome_simps canonicalize_field_Ok_iff simp flip: acc'_def)
qed

lemma bt_contains_fields:
  "bt_contains (bt_collect (map (\<lambda>f. (cf_name f, f)) schema)) name \<longleftrightarrow> name \<in> cf_name ` set schema"
  by (auto simp: bt_contains_def bt_get_collect map_of_eq_None_iff image_image simp flip: rev_map
      dest: sym)

lemma canonicalize_Ok_iff:
  assumes "distinct (map cf_name schema)"
  shows "canonicalize schema supplied = Ok m \<longleftrightarrow>
    acceptable schema supplied \<and> bt_wf m \<and> bt_get m = canonical_lookup schema supplied"
proof -
  have "List.find (\<lambda>name. \<not> bt_contains (bt_collect (map (\<lambda>f. (cf_name f, f)) schema)) name)
      (bt_keys supplied) = None \<longleftrightarrow> set (bt_keys supplied) \<subseteq> cf_name ` set schema"
    by (auto simp: find_None_iff bt_contains_fields)
  then show ?thesis
    using canonicalize_fold_Ok_iff [OF bt.wf_empty assms, of supplied m]
    by (cases "List.find (\<lambda>name. \<not> bt_contains (bt_collect (map (\<lambda>f. (cf_name f, f)) schema)) name)
        (bt_keys supplied)")
      (auto simp: canonicalize_def acceptable_def Let_def fun_eq_iff)
qed

text \<open>Canonical values are the declared ones, so re-reading them changes nothing.\<close>

lemma field_value_canonical:
  assumes "distinct (map cf_name schema)" and "f \<in> set schema"
    and "bt_get m = canonical_lookup schema supplied"
  shows "field_value m f = field_value supplied f"
proof -
  have "map_of (map (\<lambda>f. (cf_name f, f)) schema) (cf_name f) = Some f"
    using assms(1,2) by (auto simp: comp_def intro!: map_of_is_SomeI)
  then have "bt_get m (cf_name f) = field_value supplied f"
    using assms(3) by (simp add: canonical_lookup_def)
  then show ?thesis
    by (cases "bt_get supplied (cf_name f)") (auto simp: field_value_def)
qed

lemma canonical_is_acceptable:
  assumes "distinct (map cf_name schema)" and "canonicalize schema supplied = Ok m"
  shows "acceptable schema m"
proof -
  from assms have acc: "acceptable schema supplied" and wf: "bt_wf m"
    and get: "bt_get m = canonical_lookup schema supplied"
    by (simp_all add: canonicalize_Ok_iff)
  have "name \<in> cf_name ` set schema" if "name \<in> set (bt_keys m)" for name
    using that bt_contains_iff [OF wf, of name] get
    by (auto simp: bt_contains_def canonical_lookup_def Option.bind_eq_Some_conv dest!: map_of_SomeD)
  then show ?thesis
    using acc field_value_canonical [OF assms(1) _ get] by (auto simp: acceptable_def field_acceptable_def)
qed

lemma canonicalize_fixpoint:
  assumes "distinct (map cf_name schema)" and "canonicalize schema supplied = Ok m"
  shows "canonicalize schema m = Ok m"
proof -
  from assms have wf: "bt_wf m" and get: "bt_get m = canonical_lookup schema supplied"
    by (simp_all add: canonicalize_Ok_iff)
  have "canonical_lookup schema m name = canonical_lookup schema supplied name" for name
    using field_value_canonical [OF assms(1) _ get]
    by (cases "map_of (map (\<lambda>f. (cf_name f, f)) schema) name")
      (auto simp: canonical_lookup_def dest!: map_of_SomeD)
  then show ?thesis
    using canonical_is_acceptable [OF assms] wf get assms(1)
    by (simp add: canonicalize_Ok_iff fun_eq_iff)
qed

lemma canonicalize_acceptable:
  assumes "acceptable schema supplied"
  shows "\<exists>m. canonicalize schema supplied = Ok m"
proof -
  have "\<exists>m. try_fold (canonicalize_field supplied) acc fs = Ok m"
    if "\<forall>f \<in> set fs. field_acceptable supplied f" for acc fs
    using that
  proof (induction fs arbitrary: acc)
    case (Cons f fs)
    then obtain acc' where "canonicalize_field supplied acc f = Ok acc'"
      by (auto simp: canonicalize_field_Ok_iff)
    with Cons show ?case by simp
  qed simp
  moreover have "List.find (\<lambda>name. \<not> bt_contains (bt_collect (map (\<lambda>f. (cf_name f, f)) schema)) name)
      (bt_keys supplied) = None"
    using assms by (auto simp: find_None_iff bt_contains_fields acceptable_def)
  ultimately show ?thesis
    using assms by (simp add: canonicalize_def acceptable_def Let_def)
qed

lemma acceptable_insert:
  assumes "acceptable schema c" and "bt_wf c" and "distinct (map cf_name schema)"
    and "f \<in> set schema" and "valid_value (cf_value_type f) v"
  shows "acceptable schema (bt_insert (cf_name f) v c)"
proof -
  have keys: "set (bt_keys (bt_insert (cf_name f) v c)) \<subseteq> insert (cf_name f) (set (bt_keys c))"
  proof
    fix k
    assume "k \<in> set (bt_keys (bt_insert (cf_name f) v c))"
    then have "bt_contains (bt_insert (cf_name f) v c) k"
      using bt_contains_iff [OF bt_wf_insert [OF assms(2)]] by blast
    then show "k \<in> insert (cf_name f) (set (bt_keys c))"
      using bt_contains_iff [OF assms(2)] by (auto simp: bt_contains_def bt_get_insert [OF assms(2)] split: if_splits)
  qed
  have "field_acceptable (bt_insert (cf_name f) v c) h" if "h \<in> set schema" for h
  proof (cases "cf_name h = cf_name f")
    case True
    then have "h = f" using assms(3,4) that by (metis inj_on_eq_iff distinct_map)
    then show ?thesis using assms(2,5) by (simp add: field_acceptable_def field_value_def bt_get_insert)
  next
    case False
    then have "field_value (bt_insert (cf_name f) v c) h = field_value c h"
      using assms(2) by (simp add: field_value_def bt_get_insert)
    then show ?thesis using assms(1) that by (simp add: field_acceptable_def acceptable_def)
  qed
  with keys assms(1,4) show ?thesis by (auto simp: acceptable_def)
qed

lemma canonicalize_not_Panic: "canonicalize schema supplied \<noteq> Panic"
proof -
  have "try_fold (canonicalize_field supplied) acc fs \<noteq> Panic" for acc fs
    by (induction fs arbitrary: acc)
      (auto simp: outcome_simps canonicalize_field_def split: option.splits if_splits)
  then show ?thesis
    by (auto simp: canonicalize_def Let_def split: option.splits)
qed


section \<open>Properties\<close>

text \<open>
  C31. A schema accepted by \<open>normalize\<close> becomes well-formed: names strictly ascending and non-empty,
  bounds and choices valid, defaults inside their type, none on a required field. Normalising the
  result again returns it unchanged, and the declaration order of the fields does not matter.
\<close>

theorem config_normalize_canonical:
  assumes "config_normalize s = Ok t"
  shows "schema_wf t \<and> config_normalize t = Ok t \<and> (\<forall>s'. mset s' = mset s \<longrightarrow> config_normalize s' = Ok t)"
proof (intro conjI allI impI)
  show wf: "schema_wf t" using assms by (rule config_normalize_wf)
  then show "config_normalize t = Ok t" by (rule config_normalize_fixpoint)
  fix s' :: config_schema
  assume perm: "mset s' = mset s"
  from assms have d: "distinct (map cf_name s)" by (simp add: config_normalize_Ok_iff)
  then have "sort_key cf_name s' = sort_key cf_name s"
    using perm by (intro sort_key_inj_key_eq)
      (auto simp: distinct_map mset_eq_setD [OF perm])
  moreover have "distinct (map cf_name s')"
    using d perm by (metis mset_eq_imp_distinct_iff mset_map)
  ultimately show "config_normalize s' = Ok t"
    using assms by (simp add: config_normalize_Ok_iff)
qed

definition sample_schema :: config_schema where
  "sample_schema =
     [\<lparr>cf_name = ''rate'', cf_value_type = TU64 1 9, cf_required = True, cf_default = None\<rparr>,
      \<lparr>cf_name = ''mode'', cf_value_type = TChoice [''b'', ''a''], cf_required = False,
       cf_default = Some (VText ''a'')\<rparr>]"

theorem config_normalize_canonical_witness:
  "\<exists>t. config_normalize sample_schema = Ok t \<and> schema_wf t"
proof -
  have "config_normalize sample_schema =
      Ok [\<lparr>cf_name = ''mode'', cf_value_type = TChoice [''a'', ''b''], cf_required = False,
           cf_default = Some (VText ''a'')\<rparr>,
          \<lparr>cf_name = ''rate'', cf_value_type = TU64 1 9, cf_required = True, cf_default = None\<rparr>]"
    by code_simp
  with config_normalize_canonical [OF this] show ?thesis by blast
qed

text \<open>
  C32. Canonicalisation against a well-formed schema is exact. It succeeds precisely when every
  supplied name is declared, every required field is present and every effective value lies in its
  type; the result holds, for each declared field, the supplied value or else the default, and
  nothing more. A canonical configuration is its own canonical form, and no input panics.
\<close>

theorem canonicalize_exact:
  assumes "schema_wf schema"
  shows "(canonicalize schema supplied = Ok m \<longleftrightarrow>
            acceptable schema supplied \<and> bt_wf m \<and> bt_get m = canonical_lookup schema supplied) \<and>
         (canonicalize schema supplied = Ok m \<longrightarrow> canonicalize schema m = Ok m) \<and>
         canonicalize schema supplied \<noteq> Panic"
  using canonicalize_Ok_iff canonicalize_fixpoint canonicalize_not_Panic schema_wf_distinct [OF assms]
  by blast

definition sample_default_schema :: config_schema where
  "sample_default_schema =
     [\<lparr>cf_name = ''rate'', cf_value_type = TU64 1 9, cf_required = False, cf_default = Some (VU64 3)\<rparr>]"

theorem canonicalize_exact_witness:
  "canonicalize sample_default_schema [] = Ok [(''rate'', VU64 3)] \<and>
   canonicalize sample_default_schema [(''rate'', VU64 3)] = Ok [(''rate'', VU64 3)]"
proof -
  have wf: "schema_wf sample_default_schema"
    by (simp add: sample_default_schema_def schema_wf_def field_wf_def)
  have "canonicalize sample_default_schema [] = Ok [(''rate'', VU64 3)]" by code_simp
  with canonicalize_exact [OF wf] show ?thesis by blast
qed

end
