(* ===== verification/Contracts.thy ===== *)
theory Contracts
  imports Config
begin

text \<open>
  The contract predicates of \<open>crates/blut-graph-core/src/compile.rs\<close>: normalisation and validity of
  port, state and proof/policy contracts, when an output port satisfies an input port before and
  after lowering, layout selection, and the compatibility of configuration types across a subgraph
  boundary. The lemmas give each predicate its meaning: a valid extent has no overflowing shape, a
  satisfied contract bounds every value that can cross the edge, a narrower configuration type only
  admits values of the wider one, and lowering two compatible ports to one layout keeps them so.
\<close>

section \<open>Errors of compilation\<close>

datatype compile_error =
    UnsupportedGraphVersion u32
  | DuplicateNode node_id
  | UnknownNode node_id
  | UnknownDescriptor string u32
  | DuplicateDescriptor string u32
  | InvalidDescriptor string u32
  | InvalidConfig node_id config_error
  | DuplicateKernel kernel_id
  | InvalidKernelContract kernel_id
  | UnknownPort node_id string
  | InvalidPortSize node_id string
  | TypeMismatch string string
  | PortCapacityMismatch node_id string node_id string
  | LayoutUnavailable node_id string
  | MissingInput node_id string
  | DuplicateInput node_id string
  | DuplicateInvocation node_id string
  | Cycle
  | CapabilityMissing string
  | CapabilityUnsupported string
  | TargetUnsupported node_id target
  | KernelUnavailable node_id target
  | ProofMissing node_id string
  | PolicyMissing node_id string
  | FidelityInsufficient node_id
  | UnsafeRetry node_id
  | SearchLimitExceeded
  | CompileLimitExceeded
  | ResourceOverflow
  | EmptyGraph
  | InvalidGraphContract
  | InvalidState node_id
  | InvalidSession
  | InvalidFeedback node_id string
  | PortContractMismatch node_id string node_id string
  | UnknownSubgraph subgraph_id
  | InvalidSubgraph subgraph_id
  | SubgraphDepthExceeded
  | SubgraphEntryLimitExceeded

section \<open>Proof, policy and port contracts\<close>

definition normalize_proof :: "proof_contract \<Rightarrow> proof_contract" where
  "normalize_proof p =
     \<lparr>prf_requires = sort_dedup (prf_requires p),
      prf_provides = sort_dedup (prf_provides p),
      prf_invalidates = sort_dedup (prf_invalidates p)\<rparr>"

definition normalize_policy :: "policy_contract \<Rightarrow> policy_contract" where
  "normalize_policy p =
     \<lparr>pol_requires = sort_dedup (pol_requires p), pol_adds = sort_dedup (pol_adds p)\<rparr>"

definition normalize_contract ::
    "proof_contract \<Rightarrow> policy_contract \<Rightarrow> proof_contract \<times> policy_contract" where
  "normalize_contract proofs policy = (normalize_proof proofs, normalize_policy policy)"

definition valid_contract_names :: "proof_contract \<Rightarrow> policy_contract \<Rightarrow> bool" where
  "valid_contract_names proofs policy =
     (\<forall>name \<in> set (prf_requires proofs @ prf_provides proofs @ prf_invalidates proofs @
                     pol_requires policy @ pol_adds policy). name \<noteq> [])"

definition shape_product :: "u64 list \<Rightarrow> u64 option" where
  "shape_product shape =
     foldl (\<lambda>acc size. Option.bind acc (\<lambda>p. u64_checked_mul p size)) (Some 1) shape"

definition valid_port_contract :: "port_descriptor \<Rightarrow> bool" where
  "valid_port_contract port =
     (let extent = pd_extent port
      in if length (ec_maximum_shape extent) \<noteq> unat (ec_rank extent) \<or>
            ec_max_elements extent = 0 \<or> 0 \<in> set (ec_maximum_shape extent)
         then False
         else if (case shape_product (ec_maximum_shape extent) of
                    None \<Rightarrow> True | Some p \<Rightarrow> p > ec_max_elements extent)
         then False
         else if lc_access (pd_lease port) = ExclusiveWrite \<and>
                 lc_lifetime (pd_lease port) = LifetimeSession
         then False
         else valid_contract_names (pd_proof port) (pd_policy port) \<and>
              dt_root (pd_domain port) \<noteq> [] \<and> dt_view (pd_domain port) \<noteq> [])"

definition valid_state_contract :: "state_contract \<Rightarrow> bool" where
  "valid_state_contract state =
     (let cp = sc_checkpoint state
      in case sc_scope state of
           Stateless \<Rightarrow>
             sc_max_bytes state = 0 \<and> cc_mode cp = Disabled \<and>
             cc_max_snapshot_bytes cp = 0 \<and> cc_max_interval_invocations cp = 0
         | ScopeInvocation \<Rightarrow>
             sc_max_bytes state > 0 \<and> cc_mode cp = Disabled \<and>
             cc_max_snapshot_bytes cp = 0 \<and> cc_max_interval_invocations cp = 0
         | ScopeSession \<Rightarrow>
             sc_max_bytes state > 0 \<and>
             (case cc_mode cp of
                Disabled \<Rightarrow> cc_max_snapshot_bytes cp = 0 \<and> cc_max_interval_invocations cp = 0
              | _ \<Rightarrow> cc_max_snapshot_bytes cp > 0 \<and>
                     cc_max_snapshot_bytes cp \<le> sc_max_bytes state \<and>
                     cc_max_interval_invocations cp > 0)
         | Durable \<Rightarrow>
             sc_max_bytes state > 0 \<and> cc_mode cp = Required \<and>
             cc_max_snapshot_bytes cp > 0 \<and>
             cc_max_snapshot_bytes cp \<le> sc_max_bytes state \<and>
             cc_max_interval_invocations cp > 0)"

definition extent_satisfies :: "extent_contract \<Rightarrow> extent_contract \<Rightarrow> bool" where
  "extent_satisfies out inp =
     (ec_rank out = ec_rank inp \<and>
      ec_max_elements out \<le> ec_max_elements inp \<and>
      (\<forall>(actual, maximum) \<in> set (zip (ec_maximum_shape out) (ec_maximum_shape inp)).
         actual \<le> maximum) \<and>
      (\<not> ec_ragged out \<or> ec_ragged inp) \<and>
      (\<not> ec_sparse out \<or> ec_sparse inp))"

definition port_contract_satisfies :: "port_descriptor \<Rightarrow> port_descriptor \<Rightarrow> bool" where
  "port_contract_satisfies out inp =
     (pd_semantic_type out = pd_semantic_type inp \<and>
      pd_domain out = pd_domain inp \<and>
      (\<not> pd_optional out \<or> pd_optional inp) \<and>
      pd_max_bytes out \<le> pd_max_bytes inp \<and>
      extent_satisfies (pd_extent out) (pd_extent inp) \<and>
      (\<forall>required \<in> set (prf_requires (pd_proof inp)). required \<in> set (prf_provides (pd_proof out))) \<and>
      (\<forall>required \<in> set (pol_requires (pd_policy inp)). required \<in> set (pol_adds (pd_policy out))) \<and>
      fid_maximum_loss (pd_fidelity out) \<le> fid_maximum_loss (pd_fidelity inp) \<and>
      fid_minimum_input (pd_fidelity out) \<ge> fid_minimum_input (pd_fidelity inp) \<and>
      pd_lease out = pd_lease inp)"

definition compiled_port_contract_satisfies ::
    "compiled_port_contract \<Rightarrow> compiled_port_contract \<Rightarrow> bool" where
  "compiled_port_contract_satisfies out inp =
     (cp_layout out = cp_layout inp \<and>
      cp_semantic_type out = cp_semantic_type inp \<and>
      cp_domain out = cp_domain inp \<and>
      (\<not> cp_optional out \<or> cp_optional inp) \<and>
      cp_max_bytes out \<le> cp_max_bytes inp \<and>
      extent_satisfies (cp_extent out) (cp_extent inp) \<and>
      (\<forall>required \<in> set (prf_requires (cp_proof inp)). required \<in> set (prf_provides (cp_proof out))) \<and>
      (\<forall>required \<in> set (pol_requires (cp_policy inp)). required \<in> set (pol_adds (cp_policy out))) \<and>
      fid_maximum_loss (cp_fidelity out) \<le> fid_maximum_loss (cp_fidelity inp) \<and>
      fid_minimum_input (cp_fidelity out) \<ge> fid_minimum_input (cp_fidelity inp) \<and>
      cp_lease out = cp_lease inp)"

section \<open>Layouts and compiled ports\<close>

definition layouts_compatible :: "port_descriptor list \<Rightarrow> layout list \<Rightarrow> bool" where
  "layouts_compatible ports kernel_layouts =
     (\<forall>port \<in> set ports. \<exists>l \<in> set (pd_layouts port). l \<in> set kernel_layouts)"

definition descriptor_layouts_compatible :: "node_descriptor \<Rightarrow> kernel_descriptor \<Rightarrow> bool" where
  "descriptor_layouts_compatible descriptor kern =
     (layouts_compatible (nd_inputs descriptor) (kd_input_layouts kern) \<and>
      layouts_compatible (nd_outputs descriptor) (kd_output_layouts kern))"

definition fused_layouts_compatible ::
    "node_descriptor \<Rightarrow> node_descriptor \<Rightarrow> kernel_descriptor \<Rightarrow> bool" where
  "fused_layouts_compatible fst_desc lst_desc kern =
     (layouts_compatible (nd_inputs fst_desc) (kd_input_layouts kern) \<and>
      layouts_compatible (nd_outputs lst_desc) (kd_output_layouts kern))"

definition select_layout :: "port_descriptor \<Rightarrow> layout list \<Rightarrow> ('e, layout) outcome" where
  "select_layout port kernel_layouts =
     expect (min_by_key id (filter (\<lambda>l. l \<in> set kernel_layouts) (pd_layouts port)))"

definition compiled_port_contract :: "port_descriptor \<Rightarrow> layout \<Rightarrow> compiled_port_contract" where
  "compiled_port_contract port l =
     \<lparr>cp_name = pd_name port, cp_semantic_type = pd_semantic_type port,
      cp_optional = pd_optional port, cp_layout = l, cp_max_bytes = pd_max_bytes port,
      cp_domain = pd_domain port, cp_proof = pd_proof port, cp_policy = pd_policy port,
      cp_fidelity = pd_fidelity port, cp_extent = pd_extent port, cp_lease = pd_lease port\<rparr>"

definition conversion_port_contract ::
    "port_descriptor \<Rightarrow> layout \<Rightarrow> string \<Rightarrow> u64 \<Rightarrow> compiled_port_contract" where
  "conversion_port_contract port l name max_bytes =
     (compiled_port_contract port l)
       \<lparr>cp_name := name, cp_optional := False, cp_max_bytes := max_bytes\<rparr>"

definition compiled_port_matches :: "compiled_port_contract \<Rightarrow> port_descriptor \<Rightarrow> bool" where
  "compiled_port_matches compiled descriptor =
     (cp_name compiled = pd_name descriptor \<and>
      cp_semantic_type compiled = pd_semantic_type descriptor \<and>
      cp_optional compiled = pd_optional descriptor \<and>
      cp_layout compiled \<in> set (pd_layouts descriptor) \<and>
      cp_max_bytes compiled = pd_max_bytes descriptor \<and>
      cp_domain compiled = pd_domain descriptor \<and>
      cp_proof compiled = pd_proof descriptor \<and>
      cp_policy compiled = pd_policy descriptor \<and>
      cp_fidelity compiled = pd_fidelity descriptor \<and>
      cp_extent compiled = pd_extent descriptor \<and>
      cp_lease compiled = pd_lease descriptor)"

definition conversion_contracts_match ::
    "compiled_port_contract \<Rightarrow> compiled_port_contract \<Rightarrow> layout_conversion \<Rightarrow> bool" where
  "conversion_contracts_match inp out conversion =
     (cp_name inp = ''input'' \<and> cp_name out = ''output'' \<and>
      \<not> cp_optional inp \<and> \<not> cp_optional out \<and>
      cp_semantic_type inp = cv_semantic_type conversion \<and>
      cp_semantic_type out = cv_semantic_type conversion \<and>
      cp_layout inp = cv_from conversion \<and>
      cp_layout out = cv_to conversion \<and>
      cp_max_bytes inp \<le> cv_max_input_bytes conversion \<and>
      cp_max_bytes out = cv_max_output_bytes conversion \<and>
      cp_domain inp = cp_domain out \<and> cp_proof inp = cp_proof out \<and>
      cp_policy inp = cp_policy out \<and> cp_fidelity inp = cp_fidelity out \<and>
      cp_extent inp = cp_extent out \<and> cp_lease inp = cp_lease out)"

section \<open>Configuration types across a subgraph boundary\<close>

fun config_type_satisfies :: "config_type \<Rightarrow> config_type \<Rightarrow> bool" where
  "config_type_satisfies TBool TBool = True"
| "config_type_satisfies (TI64 outer_min outer_max) (TI64 inner_min inner_max) =
     (inner_min \<le>s outer_min \<and> outer_max \<le>s inner_max)"
| "config_type_satisfies (TU64 outer_min outer_max) (TU64 inner_min inner_max) =
     (outer_min \<ge> inner_min \<and> outer_max \<le> inner_max)"
| "config_type_satisfies (TText outer_max) (TText inner_max) = (outer_max \<le> inner_max)"
| "config_type_satisfies (TBytes outer_max) (TBytes inner_max) = (outer_max \<le> inner_max)"
| "config_type_satisfies (TChoice outer_values) (TChoice inner_values) =
     (\<forall>value \<in> set outer_values. value \<in> set inner_values)"
| "config_type_satisfies (TChoice outer_values) (TText max_bytes) =
     (\<forall>value \<in> set outer_values. length value \<le> unat max_bytes)"
| "config_type_satisfies _ _ = False"

definition failure_domain_union :: "node_descriptor list \<Rightarrow> string list" where
  "failure_domain_union descriptors =
     sort_dedup (concat (map (\<lambda>d. fc_domains (nd_failure d)) descriptors))"

section \<open>Meaning of the predicates\<close>

lemma shape_product_fold:
  "foldl (\<lambda>acc size. Option.bind acc (\<lambda>p. u64_checked_mul p size)) (Some a) shape = Some p \<Longrightarrow>
     unat p = unat a * prod_list (map unat shape)"
proof (induction shape arbitrary: a)
  case Nil
  then show ?case by simp
next
  case (Cons s shape)
  have none: "foldl (\<lambda>acc size. Option.bind acc (\<lambda>p. u64_checked_mul p size)) None xs = None" for xs
    by (induction xs) auto
  from Cons.prems none obtain b where b: "u64_checked_mul a s = Some b"
    and rest: "foldl (\<lambda>acc size. Option.bind acc (\<lambda>p. u64_checked_mul p size)) (Some b) shape = Some p"
    by (cases "u64_checked_mul a s") auto
  from Cons.IH [OF rest] u64_checked_mul_SomeD [OF b] show ?case
    by (simp add: mult.assoc)
qed

lemma valid_port_contract_shape:
  assumes "valid_port_contract port"
  shows "prod_list (map unat (ec_maximum_shape (pd_extent port))) \<le> unat (ec_max_elements (pd_extent port))"
proof -
  from assms obtain p where p: "shape_product (ec_maximum_shape (pd_extent port)) = Some p"
    and le: "p \<le> ec_max_elements (pd_extent port)"
    by (auto simp: valid_port_contract_def Let_def not_less split: if_splits option.splits)
  from p have "unat p = prod_list (map unat (ec_maximum_shape (pd_extent port)))"
    unfolding shape_product_def using shape_product_fold by fastforce
  with le show ?thesis by (simp add: word_le_nat_alt)
qed

lemma config_type_satisfies_sound:
  "config_type_satisfies outer inner \<Longrightarrow> valid_value outer v \<Longrightarrow> valid_value inner v"
  by (cases outer; cases inner; cases v)
    (auto simp: word_le_nat_alt word_sle_eq)

lemma port_contract_satisfies_compiled:
  assumes "port_contract_satisfies out inp"
  shows "compiled_port_contract_satisfies (compiled_port_contract out l) (compiled_port_contract inp l)"
  using assms
  by (simp add: port_contract_satisfies_def compiled_port_contract_satisfies_def compiled_port_contract_def)

lemma select_layout_Ok:
  "select_layout port ls = Ok l \<Longrightarrow> l \<in> set (pd_layouts port) \<and> l \<in> set ls"
  by (auto simp: select_layout_def outcome_simps dest!: min_by_key_SomeD)

lemma select_layout_safe [safely_intros]:
  assumes "\<exists>l \<in> set (pd_layouts port). l \<in> set ls"
    and "\<And>l. l \<in> set (pd_layouts port) \<Longrightarrow> l \<in> set ls \<Longrightarrow> P l"
  shows "safely (select_layout port ls) P"
proof -
  from assms(1) have "filter (\<lambda>l. l \<in> set ls) (pd_layouts port) \<noteq> []"
    by (auto simp: filter_empty_conv)
  then obtain l where "min_by_key id (filter (\<lambda>l. l \<in> set ls) (pd_layouts port)) = Some l"
    by fastforce
  with assms(2) show ?thesis
    by (auto simp: select_layout_def safely_def dest!: min_by_key_SomeD)
qed

lemma compiled_port_matches_compiled:
  "l \<in> set (pd_layouts port) \<Longrightarrow> compiled_port_matches (compiled_port_contract port l) port"
  by (simp add: compiled_port_matches_def compiled_port_contract_def)

text \<open>Normalisation only reorders and deduplicates, so it is idempotent and keeps validity.\<close>

lemma normalize_proof_idem [simp]: "normalize_proof (normalize_proof p) = normalize_proof p"
  by (simp add: normalize_proof_def)

lemma normalize_policy_idem [simp]: "normalize_policy (normalize_policy p) = normalize_policy p"
  by (simp add: normalize_policy_def)

lemma valid_contract_names_normalize [simp]:
  "valid_contract_names (normalize_proof p) (normalize_policy q) = valid_contract_names p q"
  by (simp add: valid_contract_names_def normalize_proof_def normalize_policy_def)

end
