(* ===== verification/Samples.thy ===== *)
theory Samples
  imports Graph_Model
begin

text \<open>
  Small concrete graphs, descriptors and kernels. The properties of the components are
  instantiated on them, so that each property is seen to apply to a program the compiler accepts.
\<close>

abbreviation link :: "node_id \<Rightarrow> node_id \<Rightarrow> edge" where
  "link u v \<equiv> Edge (PortRef u ''out'') (PortRef v ''in'')"

definition sample_instance :: "node_id \<Rightarrow> node_instance" where
  "sample_instance i = \<lparr>ni_id = i, ni_descriptor = ''example'', ni_descriptor_version = 1, ni_config = []\<rparr>"

definition sample_graph :: "node_id list \<Rightarrow> edge list \<Rightarrow> graph" where
  "sample_graph ids edges =
     \<lparr>g_version = 3, g_nodes = map sample_instance ids, g_edges = edges, g_feedback = [],
      g_invocation_inputs = [], g_required_capabilities = [], g_required_proofs = [], g_policy = [],
      g_minimum_fidelity = 0, g_session = None\<rparr>"

definition sample_subgraph :: "node_id list \<Rightarrow> edge list \<Rightarrow> subgraph_schema" where
  "sample_subgraph ids edges =
     \<lparr>ss_id = [], ss_version = 1,
      ss_nodes = map (\<lambda>i. \<lparr>sn_id = i, sn_node_type = \<lparr>ntr_type_name = ''example'', ntr_version = 1\<rparr>,
                           sn_config = [], sn_child = None\<rparr>) ids,
      ss_edges = edges, ss_inputs = [], ss_outputs = []\<rparr>"

definition sample_descriptor :: "port_descriptor list \<Rightarrow> port_descriptor list \<Rightarrow> node_descriptor" where
  "sample_descriptor inputs outputs =
     \<lparr>nd_type_name = ''example'', nd_version = 1, nd_inputs = inputs, nd_outputs = outputs,
      nd_capabilities = [], nd_targets = [Target_McuAot, Target_Host],
      nd_resources = resource_bounded 64 16 1, nd_determinism = BitExact, nd_config = [],
      nd_state = stateless, nd_subgraph = None,
      nd_proof = \<lparr>prf_requires = [], prf_provides = [], prf_invalidates = []\<rparr>,
      nd_policy = \<lparr>pol_requires = [], pol_adds = []\<rparr>,
      nd_fidelity = \<lparr>fid_minimum_input = 0, fid_maximum_loss = 0\<rparr>,
      nd_partiality = Atomic, nd_failure = \<lparr>fc_domains = []\<rparr>, nd_effect = Pure, nd_retry_limit = 0\<rparr>"

definition sample_kernel :: "kernel_id \<Rightarrow> kernel_descriptor" where
  "sample_kernel k =
     \<lparr>kd_id = k, kd_implements = [\<lparr>ntr_type_name = ''example'', ntr_version = 1\<rparr>],
      kd_implementation_id = replicate 32 (ucast k), kd_conversion = None, kd_target = Target_Host,
      kd_input_layouts = [Layout_Canonical], kd_output_layouts = [Layout_Canonical],
      kd_resources = resource_bounded 64 16 1, kd_determinism = BitExact, kd_lowering = ''scalar''\<rparr>"

definition sample_step :: "step_id \<Rightarrow> input_binding list \<Rightarrow> output_binding list \<Rightarrow> compiled_node" where
  "sample_step i inputs outputs =
     \<lparr>cn_id = i, cn_semantic_nodes = [i], cn_semantic_types = [\<lparr>ntr_type_name = ''example'', ntr_version = 1\<rparr>],
      cn_semantic_configs = [[]], cn_kernel = 7, cn_implementation_id = replicate 32 7,
      cn_resources = resource_bounded 64 16 1, cn_determinism = BitExact, cn_lowering = ''scalar'',
      cn_conversion = None, cn_input_ports = map (\<lambda>_. ''in'') inputs, cn_output_ports = map (\<lambda>_. ''out'') outputs,
      cn_input_contracts = [], cn_output_contracts = [], cn_input_bindings = inputs,
      cn_output_bindings = outputs, cn_partiality = Atomic, cn_failure = \<lparr>fc_domains = []\<rparr>,
      cn_effect = Pure, cn_retry_limit = 0, cn_state = stateless, cn_subgraph_path = []\<rparr>"

definition sample_plan :: "compiled_node list \<Rightarrow> buffer_plan list \<Rightarrow> compiled_plan" where
  "sample_plan nodes buffers =
     \<lparr>p_schema_version = 3, p_graph_id = replicate 32 1, p_plan_id = replicate 32 0, p_realm = Realm_HostStream,
      p_order = map cn_id nodes, p_nodes = nodes, p_buffers = buffers, p_feedback = [], p_invocation_ports = [],
      p_propagated_proofs = [], p_propagated_policy = [], p_resulting_fidelity = 65535, p_peak_bytes = 80,
      p_persistent_state_bytes = 0, p_session = None\<rparr>"

definition sample_buffer :: "buffer_id \<Rightarrow> step_id \<Rightarrow> step_id list \<Rightarrow> buffer_plan" where
  "sample_buffer b producer consumers =
     \<lparr>bp_id = b, bp_layout = Layout_Canonical, bp_capacity_bytes = 64, bp_producer = producer,
      bp_consumers = consumers, bp_last_consumer = last consumers, bp_aliases = None\<rparr>"

definition sample_chain :: compiled_plan where
  "sample_chain =
     sample_plan [sample_step 0 [] [OutBuffer 0], sample_step 1 [InBuffer 0] [Terminal]] [sample_buffer 0 0 [1]]"

end
