(* ===== verification/Hashing.thy ===== *)
theory Hashing
  imports Contracts Samples
begin

text \<open>
  The content identities of \<open>compile.rs\<close>: every \<open>hash_*\<close> and \<open>put_*\<close> function appends bytes to a
  BLAKE3 hasher in derive-key mode. The hasher is a parameter \<open>H\<close> (context string and message to
  32 bytes); the model computes the message. The locale \<open>prefix_code\<close> is the contract of an
  encoder whose output can be read back unambiguously in front of anything else; the encoders
  interpret it, and with it an identity commits to every field it covers.
\<close>

section \<open>Little-endian bytes\<close>

definition le_bytes :: "nat \<Rightarrow> 'a::len word \<Rightarrow> bytes" where
  "le_bytes n w = map (\<lambda>i. ucast (drop_bit (8 * i) w)) [0..<n]"

lemma length_le_bytes [simp]: "length (le_bytes n w) = n"
  by (simp add: le_bytes_def)

lemma le_bytes_inject:
  fixes v w :: "'a::len word"
  assumes "LENGTH('a) \<le> 8 * n" and "le_bytes n v = le_bytes n w"
  shows "v = w"
proof (rule bit_word_eqI)
  fix k
  assume k: "k < LENGTH('a)"
  have div: "k div 8 < n" using k assms(1) by linarith
  have "(ucast (drop_bit (8 * (k div 8)) v) :: u8) = ucast (drop_bit (8 * (k div 8)) w)"
    using arg_cong [OF assms(2), of "\<lambda>bs. bs ! (k div 8)"] div by (simp add: le_bytes_def)
  then have "bit (ucast (drop_bit (8 * (k div 8)) v) :: u8) (k mod 8) = bit (ucast (drop_bit (8 * (k div 8)) w) :: u8) (k mod 8)"
    by simp
  then show "bit v k \<longleftrightarrow> bit w k"
    by (simp add: bit_ucast_iff bit_drop_bit_eq)
qed

section \<open>Prefix codes\<close>

locale prefix_code =
  fixes enc :: "'a \<Rightarrow> bytes" and ok :: "'a \<Rightarrow> bool"
  assumes unambiguous: "ok x \<Longrightarrow> ok y \<Longrightarrow> enc x @ s = enc y @ t \<Longrightarrow> x = y \<and> s = t"
begin

lemma cancel: "ok x \<Longrightarrow> ok y \<Longrightarrow> enc x @ s = enc y @ t \<longleftrightarrow> x = y \<and> s = t"
  using unambiguous by blast

lemma inject: "ok x \<Longrightarrow> ok y \<Longrightarrow> enc x = enc y \<longleftrightarrow> x = y"
  using unambiguous [of x y "[]" "[]"] by fastforce

lemma concat_unambiguous:
  "\<forall>x\<in>set xs. ok x \<Longrightarrow> \<forall>y\<in>set ys. ok y \<Longrightarrow> length xs = length ys \<Longrightarrow>
     concat (map enc xs) @ s = concat (map enc ys) @ t \<Longrightarrow> xs = ys \<and> s = t"
proof (induction xs arbitrary: ys)
  case (Cons x xs)
  then obtain y zs where ys: "ys = y # zs" by (cases ys) auto
  have "ok x" and "ok y" and "enc x @ (concat (map enc xs) @ s) = enc y @ (concat (map enc zs) @ t)"
    using Cons.prems ys by simp_all
  from unambiguous [OF this] have "x = y" and "concat (map enc xs) @ s = concat (map enc zs) @ t"
    by blast+
  with Cons.IH [of zs] Cons.prems ys show ?case by simp
qed simp

end

lemma fixed_width_code:
  assumes "\<And>x. length (enc x) = n" and "\<And>x y. ok x \<Longrightarrow> ok y \<Longrightarrow> enc x = enc y \<Longrightarrow> x = y"
  shows "prefix_code enc ok"
proof
  fix x y s t
  assume "ok x" and "ok y" and eq: "enc x @ s = enc y @ t"
  moreover have "enc x = enc y \<and> s = t"
    using append_eq_append_conv [of "enc x" "enc y" s t] assms(1) eq by simp
  ultimately show "x = y \<and> s = t" using assms(2) by blast
qed

section \<open>\<open>put_u32\<close>, \<open>put_str\<close> and counted sequences\<close>

definition put_u32 :: "u32 \<Rightarrow> bytes" where
  "put_u32 v = le_bytes 4 v"

definition put_u64 :: "u64 \<Rightarrow> bytes" where
  "put_u64 v = le_bytes 8 v"

definition put_u16 :: "u16 \<Rightarrow> bytes" where
  "put_u16 v = put_u32 (ucast v)"

definition put_bool :: "bool \<Rightarrow> bytes" where
  "put_bool b = [if b then 1 else 0]"

definition str_bytes :: "string \<Rightarrow> bytes" where
  "str_bytes s = map (\<lambda>c. word_of_nat (of_char c)) s"

definition put_counted :: "('a \<Rightarrow> bytes) \<Rightarrow> 'a list \<Rightarrow> bytes" where
  "put_counted enc xs = put_u32 (word_of_nat (length xs)) @ concat (map enc xs)"

definition put_str :: "string \<Rightarrow> bytes" where
  "put_str s = put_u32 (word_of_nat (length (str_bytes s))) @ str_bytes s"

definition put_str_set :: "string list \<Rightarrow> bytes" where
  "put_str_set values = put_counted put_str values"

definition put_tagged :: "('a \<Rightarrow> bytes) \<Rightarrow> 'a option \<Rightarrow> bytes" where
  "put_tagged enc v = (case v of Some x \<Rightarrow> 1 # enc x | None \<Rightarrow> [0])"

definition short :: "'a list \<Rightarrow> bool" where
  "short xs \<longleftrightarrow> length xs < 2 ^ 32"

lemma put_u32_code: "prefix_code put_u32 (\<lambda>_. True)"
  by (rule fixed_width_code [where n = 4]) (simp_all add: put_u32_def le_bytes_inject [where n = 4])

lemma put_u64_code: "prefix_code put_u64 (\<lambda>_. True)"
  by (rule fixed_width_code [where n = 8]) (simp_all add: put_u64_def le_bytes_inject [where n = 8])

interpretation u32: prefix_code put_u32 "\<lambda>_. True" by (rule put_u32_code)

interpretation u64: prefix_code put_u64 "\<lambda>_. True" by (rule put_u64_code)

interpretation u16: prefix_code put_u16 "\<lambda>_. True"
proof unfold_locales
  fix x y :: u16 and s t
  assume "put_u16 x @ s = put_u16 y @ t"
  then have "(ucast x :: u32) = ucast y" and "s = t" by (simp_all add: put_u16_def u32.cancel)
  moreover have "ucast (ucast v :: u32) = v" for v :: u16 by (rule bit_word_eqI) (simp add: bit_ucast_iff)
  ultimately show "x = y \<and> s = t" by metis
qed

interpretation boolean: prefix_code put_bool "\<lambda>_. True"
  by unfold_locales (auto simp: put_bool_def split: if_splits)

lemma word_of_nat_short: "short xs \<Longrightarrow> unat (word_of_nat (length xs) :: u32) = length xs"
  by (simp add: short_def unat_of_nat)

lemma short_length_inject:
  "short xs \<Longrightarrow> short ys \<Longrightarrow> (word_of_nat (length xs) :: u32) = word_of_nat (length ys) \<longleftrightarrow> length xs = length ys"
  using word_of_nat_short by metis

lemma put_counted_code:
  assumes "prefix_code enc ok"
  shows "prefix_code (put_counted enc) (\<lambda>xs. short xs \<and> (\<forall>x\<in>set xs. ok x))"
proof
  fix xs ys s t
  assume xs: "short xs \<and> (\<forall>x\<in>set xs. ok x)" and ys: "short ys \<and> (\<forall>x\<in>set ys. ok x)"
    and "put_counted enc xs @ s = put_counted enc ys @ t"
  then have "length xs = length ys" and "concat (map enc xs) @ s = concat (map enc ys) @ t"
    by (simp_all add: put_counted_def u32.cancel short_length_inject)
  with xs ys show "xs = ys \<and> s = t"
    using prefix_code.concat_unambiguous [OF assms, of xs ys s t] by blast
qed

lemma put_tagged_code:
  assumes "prefix_code enc ok"
  shows "prefix_code (put_tagged enc) (\<lambda>v. \<forall>x. v = Some x \<longrightarrow> ok x)"
proof
  fix x y s t
  assume ok: "\<forall>a. x = Some a \<longrightarrow> ok a" "\<forall>b. y = Some b \<longrightarrow> ok b"
    and eq: "put_tagged enc x @ s = put_tagged enc y @ t"
  show "x = y \<and> s = t"
  proof (cases "x = None \<or> y = None")
    case True
    with eq show ?thesis by (cases x; cases y) (simp_all add: put_tagged_def)
  next
    case False
    then obtain a b where "x = Some a" and "y = Some b" by auto
    with eq ok prefix_code.unambiguous [OF assms, of a b s t] show ?thesis
      by (simp add: put_tagged_def)
  qed
qed

lemma str_bytes_inject [simp]: "str_bytes s = str_bytes t \<longleftrightarrow> s = t"
proof -
  have "inj (\<lambda>c. word_of_nat (of_char c) :: u8)"
  proof (rule injI)
    fix c d :: char
    assume "(word_of_nat (of_char c) :: u8) = word_of_nat (of_char d)"
    then have "unat (word_of_nat (of_char c) :: u8) = unat (word_of_nat (of_char d) :: u8)" by simp
    then have "(of_char c :: nat) = of_char d"
      using nat_of_char_less_256 [of c] nat_of_char_less_256 [of d] by (simp add: unat_of_nat)
    then show "c = d" by simp
  qed
  then show ?thesis by (simp add: str_bytes_def inj_map_eq_map)
qed

interpretation str: prefix_code put_str short
proof
  fix x y :: string and s t
  assume x: "short x" and y: "short y" and eq: "put_str x @ s = put_str y @ t"
  have "length (str_bytes z) = length z" for z by (simp add: str_bytes_def)
  with eq x y have "length (str_bytes x) = length (str_bytes y)" and "str_bytes x @ s = str_bytes y @ t"
    by (simp_all add: put_str_def u32.cancel short_length_inject)
  then show "x = y \<and> s = t" by simp
qed

section \<open>Identities of configurations and contracts\<close>

fun hash_config_value :: "config_value \<Rightarrow> bytes" where
  "hash_config_value (VBool b) = [0, if b then 1 else 0]"
| "hash_config_value (VI64 v) = 1 # put_u64 v"
| "hash_config_value (VU64 v) = 2 # put_u64 v"
| "hash_config_value (VText s) = 3 # put_str s"
| "hash_config_value (VBytes b) = 4 # put_u32 (word_of_nat (length b)) @ b"

fun hash_config_type :: "config_type \<Rightarrow> bytes" where
  "hash_config_type TBool = [0]"
| "hash_config_type (TI64 minimum maximum) = 1 # put_u64 minimum @ put_u64 maximum"
| "hash_config_type (TU64 minimum maximum) = 2 # put_u64 minimum @ put_u64 maximum"
| "hash_config_type (TText max_bytes) = 3 # put_u32 max_bytes"
| "hash_config_type (TChoice vs) = 4 # put_counted put_str vs"
| "hash_config_type (TBytes max_bytes) = 5 # put_u32 max_bytes"

definition hash_config_field :: "config_field \<Rightarrow> bytes" where
  "hash_config_field f =
     put_str (cf_name f) @ hash_config_type (cf_value_type f) @ put_bool (cf_required f) @
     put_tagged hash_config_value (cf_default f)"

definition hash_config_schema :: "config_schema \<Rightarrow> bytes" where
  "hash_config_schema schema = put_counted hash_config_field schema"

definition hash_config_entry :: "string \<times> config_value \<Rightarrow> bytes" where
  "hash_config_entry e = put_str (fst e) @ hash_config_value (snd e)"

definition hash_config :: "config \<Rightarrow> bytes" where
  "hash_config c = put_counted hash_config_entry c"

definition hash_domain_type :: "domain_type \<Rightarrow> bytes" where
  "hash_domain_type d = put_str (dt_root d) @ put_str (dt_view d)"

definition hash_proof :: "proof_contract \<Rightarrow> bytes" where
  "hash_proof p = put_str_set (prf_requires p) @ put_str_set (prf_provides p) @ put_str_set (prf_invalidates p)"

definition hash_policy :: "policy_contract \<Rightarrow> bytes" where
  "hash_policy p = put_str_set (pol_requires p) @ put_str_set (pol_adds p)"

definition hash_fidelity :: "fidelity_contract \<Rightarrow> bytes" where
  "hash_fidelity f = put_u16 (fid_minimum_input f) @ put_u16 (fid_maximum_loss f)"

definition hash_extent :: "extent_contract \<Rightarrow> bytes" where
  "hash_extent e =
     [ec_rank e] @ put_counted put_u64 (ec_maximum_shape e) @ put_u64 (ec_max_elements e) @
     put_bool (ec_ragged e) @ put_bool (ec_sparse e)"

definition hash_lease :: "lease_contract \<Rightarrow> bytes" where
  "hash_lease l =
     put_u32 (lease_access_ordinal (lc_access l)) @ put_u32 (lease_lifetime_ordinal (lc_lifetime l)) @
     put_bool (lc_zero_copy_permitted l) @ put_bool (lc_contiguous_required l)"

definition hash_state :: "state_contract \<Rightarrow> bytes" where
  "hash_state s =
     put_u32 (state_scope_ordinal (sc_scope s)) @ put_u64 (sc_max_bytes s) @
     put_u32 (checkpoint_mode_ordinal (cc_mode (sc_checkpoint s))) @
     put_u64 (cc_max_snapshot_bytes (sc_checkpoint s)) @
     put_u32 (cc_max_interval_invocations (sc_checkpoint s))"

definition hash_resources :: "resource_envelope \<Rightarrow> bytes" where
  "hash_resources r =
     put_u64 (re_peak_bytes r) @ put_u64 (re_scratch_bytes r) @ put_u16 (re_threads r) @
     put_tagged put_str (re_device r)"

definition hash_port_map :: "port_map \<Rightarrow> bytes" where
  "hash_port_map m = put_str (pm_outer m) @ put_str (pm_inner m)"

definition hash_port_maps :: "port_map list \<Rightarrow> bytes" where
  "hash_port_maps maps = put_counted hash_port_map maps"

definition hash_config_binding :: "subgraph_config_map \<Rightarrow> bytes" where
  "hash_config_binding m = put_str (scm_outer m) @ put_u32 (scm_node m) @ put_str (scm_inner m)"

fun hash_delay_initial :: "delay_initial \<Rightarrow> bytes" where
  "hash_delay_initial DelayAbsent = [0]"
| "hash_delay_initial DelayZeroed = [1]"
| "hash_delay_initial (DelayContentId i) = 2 # i"

definition hash_session_fields :: "session_contract \<Rightarrow> bytes" where
  "hash_session_fields s =
     put_str (ses_namespace s) @ put_u32 (ses_max_concurrent_sessions s) @
     put_u64 (ses_max_idle_millis s) @ put_bool (ses_reset_on_plan_change s)"

definition hash_session :: "session_contract option \<Rightarrow> bytes" where
  "hash_session s = put_tagged hash_session_fields s"

definition put_port_ref :: "port_ref \<Rightarrow> bytes" where
  "put_port_ref p = put_u32 (pr_node p) @ put_str (pr_port p)"

definition hash_compiled_port :: "compiled_port_contract \<Rightarrow> bytes" where
  "hash_compiled_port p =
     put_str (cp_name p) @ put_str (cp_semantic_type p) @ put_bool (cp_optional p) @ put_u32 (cp_layout p) @
     put_u64 (cp_max_bytes p) @ hash_domain_type (cp_domain p) @ hash_proof (cp_proof p) @
     hash_policy (cp_policy p) @ hash_fidelity (cp_fidelity p) @ hash_extent (cp_extent p) @
     hash_lease (cp_lease p)"

definition hash_compiled_ports :: "compiled_port_contract list \<Rightarrow> bytes" where
  "hash_compiled_ports ports = put_counted hash_compiled_port ports"

section \<open>Identities of graphs, schemas and plans\<close>

type_synonym hasher = "string \<Rightarrow> bytes \<Rightarrow> hash32"

definition hash_port :: "port_descriptor \<Rightarrow> bytes" where
  "hash_port p =
     put_str (pd_name p) @ put_str (pd_semantic_type p) @ put_u32 (if pd_optional p then 1 else 0) @
     put_counted put_u32 (sort_dedup (pd_layouts p)) @ put_u64 (pd_max_bytes p) @
     hash_domain_type (pd_domain p) @ hash_proof (pd_proof p) @ hash_policy (pd_policy p) @
     hash_fidelity (pd_fidelity p) @ hash_extent (pd_extent p) @ hash_lease (pd_lease p)"

definition hash_ports :: "port_descriptor list \<Rightarrow> bytes" where
  "hash_ports ports = put_counted hash_port (sort_key pd_name ports)"

definition hash_subgraph_lowering :: "subgraph_lowering \<Rightarrow> bytes" where
  "hash_subgraph_lowering l =
     sl_subgraph l @ hash_port_maps (sl_input_map l) @ hash_port_maps (sl_output_map l) @
     put_counted hash_config_binding (sl_config_map l)"

definition hash_descriptor :: "node_descriptor \<Rightarrow> bytes" where
  "hash_descriptor d =
     hash_ports (nd_inputs d) @ hash_ports (nd_outputs d) @
     put_str_set (sort_dedup (nd_capabilities d)) @ put_counted put_u32 (sort_dedup (nd_targets d)) @
     hash_resources (nd_resources d) @ put_u32 (determinism_ordinal (nd_determinism d)) @
     hash_config_schema (nd_config d) @ hash_state (nd_state d) @
     put_tagged hash_subgraph_lowering (nd_subgraph d) @
     put_str_set (sort_dedup (prf_requires (nd_proof d))) @
     put_str_set (sort_dedup (prf_provides (nd_proof d))) @
     put_str_set (sort_dedup (prf_invalidates (nd_proof d))) @
     put_str_set (sort_dedup (pol_requires (nd_policy d))) @
     put_str_set (sort_dedup (pol_adds (nd_policy d))) @
     put_u16 (fid_minimum_input (nd_fidelity d)) @ put_u16 (fid_maximum_loss (nd_fidelity d)) @
     put_u32 (partiality_ordinal (nd_partiality d)) @
     put_str_set (sort_dedup (fc_domains (nd_failure d))) @
     put_u32 (effect_ordinal (nd_effect d)) @ put_u16 (nd_retry_limit d)"

definition edge_key :: "edge \<Rightarrow> port_ref \<times> port_ref" where
  "edge_key e = (edge_from e, edge_to e)"

definition feedback_key :: "feedback_edge \<Rightarrow> port_ref \<times> port_ref" where
  "feedback_key e = (fe_from e, fe_to e)"

definition hash_edge :: "edge \<Rightarrow> bytes" where
  "hash_edge e = put_port_ref (edge_from e) @ put_port_ref (edge_to e)"

definition hash_feedback_edge :: "feedback_edge \<Rightarrow> bytes" where
  "hash_feedback_edge e =
     put_port_ref (fe_from e) @ put_port_ref (fe_to e) @ put_u32 (dc_invocations (fe_delay e)) @
     hash_delay_initial (dc_initial (fe_delay e))"

text \<open>\<open>descriptors[&node.id]\<close> panics when the id has no descriptor.\<close>

definition hash_graph_node ::
    "(node_id, node_descriptor) btree_map \<Rightarrow> node_instance \<Rightarrow> ('e, bytes) outcome" where
  "hash_graph_node descriptors n =
     and_then (expect (bt_get descriptors (ni_id n))) (\<lambda>d.
     Ok (put_u32 (ni_id n) @ put_str (ni_descriptor n) @ put_u32 (ni_descriptor_version n) @
         hash_descriptor d @ hash_config (ni_config n)))"

definition graph_preimage :: "graph \<Rightarrow> (node_id, node_descriptor) btree_map \<Rightarrow> ('e, bytes) outcome" where
  "graph_preimage g descriptors =
     and_then (try_map (hash_graph_node descriptors) (sort_key ni_id (g_nodes g))) (\<lambda>nodes.
     Ok (put_u32 (g_version g) @ put_u32 (word_of_nat (length nodes)) @ concat nodes @
         put_counted hash_edge (sort_key edge_key (g_edges g)) @
         put_counted hash_feedback_edge (sort_key feedback_key (g_feedback g)) @
         put_counted put_port_ref (sort_dedup (g_invocation_inputs g)) @
         put_str_set (sort_dedup (g_required_capabilities g)) @
         put_str_set (sort_dedup (g_required_proofs g)) @
         put_str_set (sort_dedup (g_policy g)) @
         put_u16 (g_minimum_fidelity g) @ hash_session (g_session g)))"

definition hash_graph ::
    "hasher \<Rightarrow> graph \<Rightarrow> (node_id, node_descriptor) btree_map \<Rightarrow> ('e, hash32) outcome" where
  "hash_graph H g descriptors =
     and_then (graph_preimage g descriptors) (\<lambda>bytes. Ok (H ''blut.graph.v3'' bytes))"

definition hash_subgraph_node :: "subgraph_node \<Rightarrow> bytes" where
  "hash_subgraph_node n =
     put_u32 (sn_id n) @ put_str (ntr_type_name (sn_node_type n)) @ put_u32 (ntr_version (sn_node_type n)) @
     hash_config (sn_config n) @ put_tagged id (sn_child n)"

definition hash_interface_port :: "subgraph_interface_port \<Rightarrow> bytes" where
  "hash_interface_port p = put_str (sip_name p) @ put_port_ref (sip_inner p)"

definition subgraph_preimage :: "subgraph_schema \<Rightarrow> bytes" where
  "subgraph_preimage s =
     put_u32 (ss_version s) @ put_counted hash_subgraph_node (sort_key sn_id (ss_nodes s)) @
     put_counted hash_edge (sort_key edge_key (ss_edges s)) @
     put_counted hash_interface_port (sort (ss_inputs s)) @
     put_counted hash_interface_port (sort (ss_outputs s))"

definition subgraph_identity :: "hasher \<Rightarrow> subgraph_schema \<Rightarrow> subgraph_id" where
  "subgraph_identity H s = H ''blut.subgraph.v1'' (subgraph_preimage s)"

definition hash_node_type :: "node_type_ref \<Rightarrow> bytes" where
  "hash_node_type t = put_str (ntr_type_name t) @ put_u32 (ntr_version t)"

definition hash_conversion :: "layout_conversion \<Rightarrow> bytes" where
  "hash_conversion c =
     put_str (cv_semantic_type c) @ put_u32 (cv_from c) @ put_u32 (cv_to c) @
     put_u64 (cv_max_input_bytes c) @ put_u64 (cv_max_output_bytes c)"

fun hash_input_binding :: "input_binding \<Rightarrow> bytes" where
  "hash_input_binding (InBuffer b) = 1 # put_u32 b"
| "hash_input_binding (InInvocation i) = 2 # put_u32 i"
| "hash_input_binding (InFeedback f) = 3 # put_u32 f"
| "hash_input_binding Absent = [0]"

fun hash_output_binding :: "output_binding \<Rightarrow> bytes" where
  "hash_output_binding (OutBuffer b) = 1 # put_u32 b"
| "hash_output_binding Terminal = [0]"

definition hash_compiled_node :: "compiled_node \<Rightarrow> bytes" where
  "hash_compiled_node n =
     put_u32 (cn_id n) @ put_counted put_u32 (cn_semantic_nodes n) @
     put_counted hash_node_type (cn_semantic_types n) @ put_counted hash_config (cn_semantic_configs n) @
     put_u32 (cn_kernel n) @ cn_implementation_id n @ hash_resources (cn_resources n) @
     put_u32 (determinism_ordinal (cn_determinism n)) @ put_str (cn_lowering n) @
     put_tagged hash_conversion (cn_conversion n) @ put_counted put_str (cn_input_ports n) @
     put_counted put_str (cn_output_ports n) @ hash_compiled_ports (cn_input_contracts n) @
     hash_compiled_ports (cn_output_contracts n) @ put_counted hash_input_binding (cn_input_bindings n) @
     put_counted hash_output_binding (cn_output_bindings n) @
     put_u32 (partiality_ordinal (cn_partiality n)) @
     put_counted put_str (sort_dedup (fc_domains (cn_failure n))) @
     put_u32 (effect_ordinal (cn_effect n)) @ put_u16 (cn_retry_limit n) @ hash_state (cn_state n) @
     put_counted id (cn_subgraph_path n)"

definition hash_buffer :: "buffer_plan \<Rightarrow> bytes" where
  "hash_buffer b =
     put_u32 (bp_id b) @ put_u32 (bp_layout b) @ put_u64 (bp_capacity_bytes b) @ put_u32 (bp_producer b) @
     put_counted put_u32 (bp_consumers b) @ put_u32 (bp_last_consumer b) @ put_tagged put_u32 (bp_aliases b)"

definition hash_feedback_plan :: "feedback_plan \<Rightarrow> bytes" where
  "hash_feedback_plan f =
     put_u32 (fp_id f) @ put_u32 (fp_from_step f) @ put_u32 (fp_from_port f) @ put_u32 (fp_to_step f) @
     put_u32 (fp_to_port f) @ put_u32 (dc_invocations (fp_delay f)) @
     hash_delay_initial (dc_initial (fp_delay f)) @ put_u64 (fp_state_bytes f)"

definition plan_preimage :: "compiled_plan \<Rightarrow> bytes" where
  "plan_preimage p =
     put_u32 (p_schema_version p) @ p_graph_id p @ put_u32 (p_realm p) @ put_counted put_u32 (p_order p) @
     put_counted hash_compiled_node (p_nodes p) @ put_counted put_port_ref (p_invocation_ports p) @
     put_counted hash_buffer (p_buffers p) @ put_counted hash_feedback_plan (p_feedback p) @
     put_counted put_str (p_propagated_proofs p) @ put_counted put_str (p_propagated_policy p) @
     put_u16 (p_resulting_fidelity p) @ put_u64 (p_peak_bytes p) @ put_u64 (p_persistent_state_bytes p) @
     hash_session (p_session p)"

definition hash_plan :: "hasher \<Rightarrow> compiled_plan \<Rightarrow> hash32" where
  "hash_plan H p = H ''blut.compiled-plan.v3'' (plan_preimage p)"

section \<open>The encoders are prefix codes\<close>

text \<open>
  Each encoder is unambiguous on values whose sequences are shorter than \<open>2^32\<close> (the width of the
  count) and whose content ids have 32 bytes.
\<close>

named_theorems code_cancel

lemmas [code_cancel] = u32.cancel u64.cancel u16.cancel boolean.cancel str.cancel

definition shorts :: "string list \<Rightarrow> bool" where
  "shorts xs \<longleftrightarrow> short xs \<and> (\<forall>x\<in>set xs. short x)"

lemma strs_code: "prefix_code (put_counted put_str) shorts"
  using put_counted_code [OF str.prefix_code_axioms] by (simp add: shorts_def [abs_def])

interpretation str_set: prefix_code put_str_set shorts
  using strs_code by (simp add: put_str_set_def [abs_def])

interpretation strs: prefix_code "put_counted put_str" shorts
  by (rule strs_code)

interpretation u32s: prefix_code "put_counted put_u32" short
  using put_counted_code [OF put_u32_code] by simp

interpretation u64s: prefix_code "put_counted put_u64" short
  using put_counted_code [OF put_u64_code] by simp

lemmas [code_cancel] = str_set.cancel strs.cancel u32s.cancel u64s.cancel

lemma hash32_cancel [code_cancel]:
  "length x = 32 \<Longrightarrow> length y = 32 \<Longrightarrow> x @ s = y @ t \<longleftrightarrow> x = y \<and> s = t"
  by simp

lemma counted_bytes_cancel:
  assumes "short a" and "short b"
  shows "put_u32 (word_of_nat (length a)) @ a @ s = put_u32 (word_of_nat (length b)) @ b @ t \<longleftrightarrow> a = b \<and> s = t"
  using append_eq_append_conv [of a b s t] by (auto simp: u32.cancel short_length_inject [OF assms])

fun config_value_ok :: "config_value \<Rightarrow> bool" where
  "config_value_ok (VText s) = short s"
| "config_value_ok (VBytes b) = short b"
| "config_value_ok _ = True"

interpretation config_value: prefix_code hash_config_value config_value_ok
proof
  fix v w s t
  assume ok: "config_value_ok v" "config_value_ok w" and eq: "hash_config_value v @ s = hash_config_value w @ t"
  from ok eq show "v = w \<and> s = t"
    by (cases v; cases w) (simp_all add: u64.cancel str.cancel counted_bytes_cancel split: if_splits)
qed

definition config_ok :: "config \<Rightarrow> bool" where
  "config_ok c \<longleftrightarrow> short c \<and> (\<forall>e\<in>set c. short (fst e) \<and> config_value_ok (snd e))"

interpretation config: prefix_code hash_config config_ok
proof -
  have "prefix_code hash_config_entry (\<lambda>e. short (fst e) \<and> config_value_ok (snd e))"
    by unfold_locales (simp add: hash_config_entry_def code_cancel config_value.cancel prod_eq_iff)
  from put_counted_code [OF this] show "prefix_code hash_config config_ok"
    by (simp add: hash_config_def [abs_def] config_ok_def [abs_def])
qed

lemmas [code_cancel] = config_value.cancel config.cancel

subsection \<open>Enumerations\<close>

lemma ordinals_inject [simp]:
  "lease_access_ordinal a = lease_access_ordinal b \<longleftrightarrow> a = b"
  "lease_lifetime_ordinal c = lease_lifetime_ordinal d \<longleftrightarrow> c = d"
  "state_scope_ordinal e = state_scope_ordinal f \<longleftrightarrow> e = f"
  "checkpoint_mode_ordinal g = checkpoint_mode_ordinal h \<longleftrightarrow> g = h"
  "partiality_ordinal i = partiality_ordinal j \<longleftrightarrow> i = j"
  "effect_ordinal k = effect_ordinal l \<longleftrightarrow> k = l"
  "determinism_ordinal m = determinism_ordinal n \<longleftrightarrow> m = n"
proof -
  show "lease_access_ordinal a = lease_access_ordinal b \<longleftrightarrow> a = b" by (cases a; cases b) simp_all
  show "lease_lifetime_ordinal c = lease_lifetime_ordinal d \<longleftrightarrow> c = d" by (cases c; cases d) simp_all
  show "state_scope_ordinal e = state_scope_ordinal f \<longleftrightarrow> e = f" by (cases e; cases f) simp_all
  show "checkpoint_mode_ordinal g = checkpoint_mode_ordinal h \<longleftrightarrow> g = h" by (cases g; cases h) simp_all
  show "partiality_ordinal i = partiality_ordinal j \<longleftrightarrow> i = j" by (cases i; cases j) simp_all
  show "effect_ordinal k = effect_ordinal l \<longleftrightarrow> k = l" by (cases k; cases l) simp_all
  show "determinism_ordinal m = determinism_ordinal n \<longleftrightarrow> m = n" by (cases m; cases n) simp_all
qed

subsection \<open>Records\<close>

text \<open>Record by record: cancel the fields one after the other, then compare them.\<close>

definition domain_ok :: "domain_type \<Rightarrow> bool" where
  "domain_ok d \<longleftrightarrow> short (dt_root d) \<and> short (dt_view d)"

definition proof_ok :: "proof_contract \<Rightarrow> bool" where
  "proof_ok p \<longleftrightarrow> shorts (prf_requires p) \<and> shorts (prf_provides p) \<and> shorts (prf_invalidates p)"

definition policy_ok :: "policy_contract \<Rightarrow> bool" where
  "policy_ok p \<longleftrightarrow> shorts (pol_requires p) \<and> shorts (pol_adds p)"

definition extent_ok :: "extent_contract \<Rightarrow> bool" where
  "extent_ok e \<longleftrightarrow> short (ec_maximum_shape e)"

definition resources_ok :: "resource_envelope \<Rightarrow> bool" where
  "resources_ok r \<longleftrightarrow> (\<forall>d. re_device r = Some d \<longrightarrow> short d)"

interpretation domain: prefix_code hash_domain_type domain_ok
  by unfold_locales
    (simp add: hash_domain_type_def domain_ok_def code_cancel domain_type.equality)

interpretation proof_code: prefix_code hash_proof proof_ok
  by unfold_locales
    (simp add: hash_proof_def proof_ok_def code_cancel proof_contract.equality)

interpretation policy: prefix_code hash_policy policy_ok
  by unfold_locales
    (simp add: hash_policy_def policy_ok_def code_cancel policy_contract.equality)

interpretation fidelity: prefix_code hash_fidelity "\<lambda>_. True"
  by unfold_locales
    (simp add: hash_fidelity_def code_cancel fidelity_contract.equality)

interpretation extent: prefix_code hash_extent extent_ok
  by unfold_locales
    (simp add: hash_extent_def extent_ok_def code_cancel extent_contract.equality)

interpretation lease: prefix_code hash_lease "\<lambda>_. True"
  by unfold_locales
    (simp add: hash_lease_def code_cancel lease_contract.equality)

interpretation state: prefix_code hash_state "\<lambda>_. True"
  by unfold_locales
    (simp add: hash_state_def code_cancel state_contract.equality checkpoint_contract.equality)

interpretation resources: prefix_code hash_resources resources_ok
  by unfold_locales
    (simp add: hash_resources_def resources_ok_def code_cancel resource_envelope.equality
      prefix_code.cancel [OF put_tagged_code [OF str.prefix_code_axioms]])

lemmas [code_cancel] =
  domain.cancel proof_code.cancel policy.cancel fidelity.cancel extent.cancel lease.cancel state.cancel
  resources.cancel

definition compiled_port_ok :: "compiled_port_contract \<Rightarrow> bool" where
  "compiled_port_ok p \<longleftrightarrow>
     short (cp_name p) \<and> short (cp_semantic_type p) \<and> domain_ok (cp_domain p) \<and> proof_ok (cp_proof p) \<and>
     policy_ok (cp_policy p) \<and> extent_ok (cp_extent p)"

definition compiled_ports_ok :: "compiled_port_contract list \<Rightarrow> bool" where
  "compiled_ports_ok ps \<longleftrightarrow> short ps \<and> (\<forall>p\<in>set ps. compiled_port_ok p)"

interpretation compiled_ports: prefix_code hash_compiled_ports compiled_ports_ok
proof -
  have "prefix_code hash_compiled_port compiled_port_ok"
    by unfold_locales
      (simp add: hash_compiled_port_def compiled_port_ok_def code_cancel compiled_port_contract.equality)
  from put_counted_code [OF this] show "prefix_code hash_compiled_ports compiled_ports_ok"
    by (simp add: hash_compiled_ports_def [abs_def] compiled_ports_ok_def [abs_def])
qed

fun delay_initial_ok :: "delay_initial \<Rightarrow> bool" where
  "delay_initial_ok (DelayContentId i) = (length i = 32)"
| "delay_initial_ok _ = True"

interpretation delay_initial: prefix_code hash_delay_initial delay_initial_ok
proof
  fix x y s t
  assume "delay_initial_ok x" "delay_initial_ok y" "hash_delay_initial x @ s = hash_delay_initial y @ t"
  then show "x = y \<and> s = t" by (cases x; cases y) (simp_all add: hash32_cancel)
qed

definition session_ok :: "session_contract option \<Rightarrow> bool" where
  "session_ok s \<longleftrightarrow> (\<forall>x. s = Some x \<longrightarrow> short (ses_namespace x))"

interpretation session: prefix_code hash_session session_ok
proof -
  have "prefix_code hash_session_fields (\<lambda>x. short (ses_namespace x))"
    by unfold_locales (simp add: hash_session_fields_def code_cancel session_contract.equality)
  from put_tagged_code [OF this] show "prefix_code hash_session session_ok"
    by (simp add: hash_session_def [abs_def] session_ok_def [abs_def])
qed

interpretation port_ref: prefix_code put_port_ref "\<lambda>p. short (pr_port p)"
  by unfold_locales (simp add: put_port_ref_def code_cancel port_ref.expand)

lemmas [code_cancel] =
  compiled_ports.cancel delay_initial.cancel session.cancel port_ref.cancel

subsection \<open>Plans\<close>

lemma counted_cancel:
  assumes "prefix_code enc ok" and "short xs" "\<forall>x\<in>set xs. ok x" and "short ys" "\<forall>x\<in>set ys. ok x"
  shows "put_counted enc xs @ s = put_counted enc ys @ t \<longleftrightarrow> xs = ys \<and> s = t"
  using prefix_code.cancel [OF put_counted_code [OF assms(1)]] assms(2-) by blast

lemma tagged_cancel:
  assumes "prefix_code enc ok" and "\<forall>x. v = Some x \<longrightarrow> ok x" and "\<forall>x. w = Some x \<longrightarrow> ok x"
  shows "put_tagged enc v @ s = put_tagged enc w @ t \<longleftrightarrow> v = w \<and> s = t"
  using prefix_code.cancel [OF put_tagged_code [OF assms(1)]] assms(2-) by blast

lemma node_type_code: "prefix_code hash_node_type (\<lambda>t. short (ntr_type_name t))"
  by unfold_locales (simp add: hash_node_type_def code_cancel node_type_ref.equality)

lemma conversion_code: "prefix_code hash_conversion (\<lambda>c. short (cv_semantic_type c))"
  by unfold_locales (simp add: hash_conversion_def code_cancel layout_conversion.equality)

lemma input_binding_code: "prefix_code hash_input_binding (\<lambda>_. True)"
proof
  fix x y s t
  assume "hash_input_binding x @ s = hash_input_binding y @ t"
  then show "x = y \<and> s = t" by (cases x; cases y) (simp_all add: u32.cancel)
qed

lemma output_binding_code: "prefix_code hash_output_binding (\<lambda>_. True)"
proof
  fix x y s t
  assume "hash_output_binding x @ s = hash_output_binding y @ t"
  then show "x = y \<and> s = t" by (cases x; cases y) (simp_all add: u32.cancel)
qed

lemma hash32_code: "prefix_code id (\<lambda>i. length i = 32)"
  by unfold_locales (simp add: hash32_cancel)

lemmas [code_cancel] =
  counted_cancel [OF node_type_code] counted_cancel [OF config.prefix_code_axioms]
  tagged_cancel [OF conversion_code] counted_cancel [OF input_binding_code]
  counted_cancel [OF output_binding_code] counted_cancel [OF hash32_code]

definition compiled_node_ok :: "compiled_node \<Rightarrow> bool" where
  "compiled_node_ok n \<longleftrightarrow>
     short (cn_semantic_nodes n) \<and>
     (short (cn_semantic_types n) \<and> (\<forall>t\<in>set (cn_semantic_types n). short (ntr_type_name t))) \<and>
     (short (cn_semantic_configs n) \<and> (\<forall>c\<in>set (cn_semantic_configs n). config_ok c)) \<and>
     length (cn_implementation_id n) = 32 \<and> resources_ok (cn_resources n) \<and> short (cn_lowering n) \<and>
     (\<forall>c. cn_conversion n = Some c \<longrightarrow> short (cv_semantic_type c)) \<and>
     shorts (cn_input_ports n) \<and> shorts (cn_output_ports n) \<and>
     compiled_ports_ok (cn_input_contracts n) \<and> compiled_ports_ok (cn_output_contracts n) \<and>
     short (cn_input_bindings n) \<and> short (cn_output_bindings n) \<and>
     (shorts (fc_domains (cn_failure n)) \<and> sort_dedup (fc_domains (cn_failure n)) = fc_domains (cn_failure n)) \<and>
     (short (cn_subgraph_path n) \<and> (\<forall>i\<in>set (cn_subgraph_path n). length i = 32))"

lemma compiled_node_code: "prefix_code hash_compiled_node compiled_node_ok"
proof
  fix x y s t
  assume x: "compiled_node_ok x" and y: "compiled_node_ok y"
    and eq: "hash_compiled_node x @ s = hash_compiled_node y @ t"
  have "fc_domains (cn_failure x) = fc_domains (cn_failure y) \<Longrightarrow> cn_failure x = cn_failure y"
    by simp
  with eq show "x = y \<and> s = t"
    using x [unfolded compiled_node_ok_def] y [unfolded compiled_node_ok_def]
    by (simp add: hash_compiled_node_def code_cancel compiled_node.equality)
qed

definition buffer_ok :: "buffer_plan \<Rightarrow> bool" where
  "buffer_ok b \<longleftrightarrow> short (bp_consumers b)"

lemma buffer_code: "prefix_code hash_buffer buffer_ok"
  by unfold_locales
    (simp add: hash_buffer_def buffer_ok_def code_cancel tagged_cancel [OF put_u32_code] buffer_plan.equality)

definition feedback_ok :: "feedback_plan \<Rightarrow> bool" where
  "feedback_ok f \<longleftrightarrow> delay_initial_ok (dc_initial (fp_delay f))"

lemma feedback_code: "prefix_code hash_feedback_plan feedback_ok"
  by unfold_locales
    (simp add: hash_feedback_plan_def feedback_ok_def code_cancel feedback_plan.equality delay_contract.equality)

definition plan_ok :: "compiled_plan \<Rightarrow> bool" where
  "plan_ok p \<longleftrightarrow>
     length (p_graph_id p) = 32 \<and> short (p_order p) \<and>
     (short (p_nodes p) \<and> (\<forall>n\<in>set (p_nodes p). compiled_node_ok n)) \<and>
     (short (p_invocation_ports p) \<and> (\<forall>q\<in>set (p_invocation_ports p). short (pr_port q))) \<and>
     (short (p_buffers p) \<and> (\<forall>b\<in>set (p_buffers p). buffer_ok b)) \<and>
     (short (p_feedback p) \<and> (\<forall>f\<in>set (p_feedback p). feedback_ok f)) \<and>
     shorts (p_propagated_proofs p) \<and> shorts (p_propagated_policy p) \<and> session_ok (p_session p)"

lemma plan_preimage_inject:
  assumes "plan_ok p" and "plan_ok q" and "plan_preimage p = plan_preimage q"
  shows "p\<lparr>p_plan_id := i\<rparr> = q\<lparr>p_plan_id := i\<rparr>"
proof -
  have "plan_preimage p @ [] = plan_preimage q @ []" using assms(3) by simp
  then show ?thesis
    using assms(1,2) [unfolded plan_ok_def]
    by (simp add: plan_preimage_def code_cancel counted_cancel [OF compiled_node_code]
        counted_cancel [OF buffer_code] counted_cancel [OF feedback_code]
        counted_cancel [OF port_ref.prefix_code_axioms] session.inject compiled_plan.equality)
qed

subsection \<open>Schemas and graphs\<close>

lemma sort_key_perm: "mset xs = mset ys \<Longrightarrow> inj_on f (set xs) \<Longrightarrow> sort_key f xs = sort_key f ys"
  by (intro sort_key_inj_key_eq) simp_all

lemma inj_edge_key: "inj_on edge_key A"
  by (auto simp: inj_on_def edge_key_def edge.expand)

definition subgraph_node_ok :: "subgraph_node \<Rightarrow> bool" where
  "subgraph_node_ok n \<longleftrightarrow>
     short (ntr_type_name (sn_node_type n)) \<and> config_ok (sn_config n) \<and>
     (\<forall>c. sn_child n = Some c \<longrightarrow> length c = 32)"

lemma subgraph_node_code: "prefix_code hash_subgraph_node subgraph_node_ok"
  by unfold_locales
    (simp add: hash_subgraph_node_def subgraph_node_ok_def code_cancel tagged_cancel [OF hash32_code]
      subgraph_node.equality node_type_ref.equality)

definition edge_ok :: "edge \<Rightarrow> bool" where
  "edge_ok e \<longleftrightarrow> short (pr_port (edge_from e)) \<and> short (pr_port (edge_to e))"

lemma edge_code: "prefix_code hash_edge edge_ok"
  by unfold_locales (simp add: hash_edge_def edge_ok_def code_cancel edge.expand)

definition interface_ok :: "subgraph_interface_port \<Rightarrow> bool" where
  "interface_ok p \<longleftrightarrow> short (sip_name p) \<and> short (pr_port (sip_inner p))"

lemma interface_code: "prefix_code hash_interface_port interface_ok"
  by unfold_locales
    (simp add: hash_interface_port_def interface_ok_def code_cancel subgraph_interface_port.expand)

definition subgraph_ok :: "subgraph_schema \<Rightarrow> bool" where
  "subgraph_ok s \<longleftrightarrow>
     (short (ss_nodes s) \<and> (\<forall>n\<in>set (ss_nodes s). subgraph_node_ok n)) \<and>
     (short (ss_edges s) \<and> (\<forall>e\<in>set (ss_edges s). edge_ok e)) \<and>
     (short (ss_inputs s) \<and> (\<forall>p\<in>set (ss_inputs s). interface_ok p)) \<and>
     (short (ss_outputs s) \<and> (\<forall>p\<in>set (ss_outputs s). interface_ok p))"

text \<open>Two schemas describe the same hierarchy when they differ only in the order of their parts.\<close>

definition same_subgraph :: "subgraph_schema \<Rightarrow> subgraph_schema \<Rightarrow> bool" where
  "same_subgraph s t \<longleftrightarrow>
     ss_version s = ss_version t \<and> mset (ss_nodes s) = mset (ss_nodes t) \<and> mset (ss_edges s) = mset (ss_edges t) \<and>
     mset (ss_inputs s) = mset (ss_inputs t) \<and> mset (ss_outputs s) = mset (ss_outputs t)"

lemma short_sort [simp]: "short (sort_key f xs) = short xs"
  by (simp add: short_def)

lemma sort_eq_imp_mset: "sort_key f xs = sort_key f ys \<Longrightarrow> mset xs = mset ys"
  by (metis mset_sort)

lemma subgraph_preimage_inject:
  assumes "subgraph_ok s" and "subgraph_ok t" and "subgraph_preimage s = subgraph_preimage t"
  shows "same_subgraph s t"
proof -
  have "subgraph_preimage s @ [] = subgraph_preimage t @ []" using assms(3) by simp
  then have "ss_version s = ss_version t" and "sort_key sn_id (ss_nodes s) = sort_key sn_id (ss_nodes t)"
    and "sort_key edge_key (ss_edges s) = sort_key edge_key (ss_edges t)"
    and "sort (ss_inputs s) = sort (ss_inputs t)" and "sort (ss_outputs s) = sort (ss_outputs t)"
    using assms(1,2) [unfolded subgraph_ok_def]
    by (simp_all add: subgraph_preimage_def u32.cancel counted_cancel [OF subgraph_node_code]
        counted_cancel [OF edge_code] counted_cancel [OF interface_code]
        prefix_code.inject [OF put_counted_code [OF interface_code]])
  then show ?thesis
    by (auto simp: same_subgraph_def dest: sort_eq_imp_mset)
qed

lemma subgraph_preimage_perm:
  assumes "same_subgraph s t" and "distinct (map sn_id (ss_nodes s))"
  shows "subgraph_preimage s = subgraph_preimage t"
proof -
  have "sort_key sn_id (ss_nodes s) = sort_key sn_id (ss_nodes t)"
    using assms by (intro sort_key_perm) (auto simp: same_subgraph_def distinct_map)
  moreover have "sort_key edge_key (ss_edges s) = sort_key edge_key (ss_edges t)"
    using assms(1) by (intro sort_key_perm inj_edge_key) (simp add: same_subgraph_def)
  moreover have "sort (ss_inputs s) = sort (ss_inputs t)" and "sort (ss_outputs s) = sort (ss_outputs t)"
    using assms(1) by (intro sort_key_perm; simp add: same_subgraph_def)+
  ultimately show ?thesis
    using assms(1) by (simp add: subgraph_preimage_def same_subgraph_def)
qed

section \<open>Properties\<close>

text \<open>
  C19. A plan id commits to the whole plan: if two plans (with sequences shorter than \<open>2^32\<close>,
  32-byte content ids and normalised failure domains) have the same id, then they agree on every
  field except the id itself, or their two distinct encodings are a collision of the hash. No
  assumption is made about the hash function.
\<close>

theorem hash_plan_commits:
  assumes "plan_ok p" and "plan_ok q" and "hash_plan H p = hash_plan H q"
  shows "p\<lparr>p_plan_id := i\<rparr> = q\<lparr>p_plan_id := i\<rparr> \<or>
    plan_preimage p \<noteq> plan_preimage q \<and>
      H ''blut.compiled-plan.v3'' (plan_preimage p) = H ''blut.compiled-plan.v3'' (plan_preimage q)"
  using plan_preimage_inject [OF assms(1,2)] assms(3) by (auto simp: hash_plan_def)

theorem hash_plan_commits_witness:
  "hash_plan (\<lambda>_ message. message) (sample_plan [sample_step 0 [] [Terminal]] []) =
     hash_plan (\<lambda>_ message. message) ((sample_plan [sample_step 0 [] [Terminal]] [])\<lparr>p_plan_id := replicate 32 9\<rparr>)"
proof -
  let ?p = "sample_plan [sample_step 0 [] [Terminal]] []" and ?H = "\<lambda>_ message. message :: bytes"
  let ?q = "?p\<lparr>p_plan_id := replicate 32 9\<rparr>"
  have ok: "plan_ok ?p" "plan_ok ?q"
    by (simp_all add: plan_ok_def sample_plan_def sample_step_def compiled_node_ok_def compiled_ports_ok_def
        config_ok_def resources_ok_def resource_bounded_def session_ok_def short_def shorts_def sort_dedup_def)
  have "hash_plan ?H ?p = hash_plan ?H ?q"
    by (simp add: hash_plan_def plan_preimage_def sample_plan_def)
  with hash_plan_commits [OF ok this] show ?thesis by blast
qed

text \<open>
  C35. A subgraph identity is a function of the schema up to the order of its nodes, edges and
  interface ports, and it determines the schema up to that order unless it exhibits a collision.
\<close>

theorem subgraph_identity_exact:
  assumes "subgraph_ok s" and "subgraph_ok t" and "distinct (map sn_id (ss_nodes s))"
  shows "(same_subgraph s t \<longrightarrow> subgraph_identity H s = subgraph_identity H t) \<and>
    (subgraph_identity H s = subgraph_identity H t \<longrightarrow>
       same_subgraph s t \<or>
       subgraph_preimage s \<noteq> subgraph_preimage t \<and>
         H ''blut.subgraph.v1'' (subgraph_preimage s) = H ''blut.subgraph.v1'' (subgraph_preimage t))"
  using subgraph_preimage_inject [OF assms(1,2)] subgraph_preimage_perm [of s t] assms(3)
  by (auto simp: subgraph_identity_def)

theorem subgraph_identity_exact_witness:
  "subgraph_identity (\<lambda>_ m. m) (sample_subgraph [1, 2] [link 1 2]) =
     subgraph_identity (\<lambda>_ m. m) (sample_subgraph [2, 1] [link 1 2])"
proof -
  have "subgraph_ok (sample_subgraph [1, 2] [link 1 2])" "subgraph_ok (sample_subgraph [2, 1] [link 1 2])"
    by (simp_all add: subgraph_ok_def sample_subgraph_def subgraph_node_ok_def config_ok_def edge_ok_def short_def)
  moreover have "distinct (map sn_id (ss_nodes (sample_subgraph [1, 2] [link 1 2])))"
    by (simp add: sample_subgraph_def)
  moreover have "same_subgraph (sample_subgraph [1, 2] [link 1 2]) (sample_subgraph [2, 1] [link 1 2])"
    by (simp add: same_subgraph_def sample_subgraph_def)
  ultimately show ?thesis using subgraph_identity_exact by blast
qed

end
