(* ===== verification/Wire.thy ===== *)
theory Wire
  imports Contracts Hashing Samples
begin

text \<open>
  Ahead-of-time plans on the wire, \<open>crates/blut-graph-core/src/wire.rs\<close>: the encoding of a compiled
  plan and the decoder, which trusts nothing in its input. The serializer (postcard) is foreign code
  and a parameter: \<open>enc\<close> is \<open>to_allocvec\<close> and \<open>dec\<close> is \<open>take_from_bytes\<close>, which returns the value and
  the remaining bytes.

  A condition of the source that indexes a vector is written with \<open>any_of\<close>, which evaluates the
  disjuncts from the left as \<open>||\<close> does, so that an index out of range would be a panic of the model.
\<close>

section \<open>Limits and errors\<close>

record plan_limits =
  pl_max_bytes :: usize
  pl_max_nodes :: usize
  pl_max_buffers :: usize
  pl_max_contract_entries :: usize
  pl_max_peak_bytes :: u64
  pl_max_persistent_state_bytes :: u64
  pl_max_feedback_edges :: usize
  pl_max_subgraph_depth :: usize

record plan_authorization =
  pa_expected_realm :: realm
  pa_expected_plan_id :: plan_id

definition plan_limits_default :: plan_limits where
  "plan_limits_default =
     \<lparr>pl_max_bytes = 1024 * 1024, pl_max_nodes = 65536, pl_max_buffers = 262144,
      pl_max_contract_entries = 65536, pl_max_peak_bytes = 64 * 1024 * 1024,
      pl_max_persistent_state_bytes = 64 * 1024 * 1024, pl_max_feedback_edges = 65536,
      pl_max_subgraph_depth = 16\<rparr>"

datatype plan_decode_error =
    TooLarge
  | BadMagic
  | Malformed
  | UnsupportedSchema u32
  | LimitExceeded
  | ResourceLimitExceeded
  | IdentityMismatch
  | InvalidBuffer
  | InvalidPlan
  | RealmMismatch
  | UnknownToken
  | UnauthorizedPlan

definition MAGIC :: bytes where
  "MAGIC = [0x42, 0x47, 0x50, 0x33]"

section \<open>Ports\<close>

definition strictly_sorted :: "'a::linorder list \<Rightarrow> bool" where
  "strictly_sorted xs = (\<forall>(a, b) \<in> set (windows2 xs). a < b)"

definition valid_compiled_port :: "compiled_port_contract \<Rightarrow> bool" where
  "valid_compiled_port port =
     (let descriptor =
        \<lparr>pd_name = cp_name port, pd_semantic_type = cp_semantic_type port, pd_optional = cp_optional port,
         pd_layouts = [cp_layout port], pd_max_bytes = cp_max_bytes port, pd_domain = cp_domain port,
         pd_proof = cp_proof port, pd_policy = cp_policy port, pd_fidelity = cp_fidelity port,
         pd_extent = cp_extent port, pd_lease = cp_lease port\<rparr>
      in valid_port_contract descriptor \<and>
         strictly_sorted (prf_requires (cp_proof port)) \<and> strictly_sorted (prf_provides (cp_proof port)) \<and>
         strictly_sorted (prf_invalidates (cp_proof port)) \<and>
         strictly_sorted (pol_requires (cp_policy port)) \<and> strictly_sorted (pol_adds (cp_policy port)))"

definition contract_entry_count :: "compiled_port_contract \<Rightarrow> usize option" where
  "contract_entry_count port =
     Option.bind (usize_checked_add 0 (length (prf_requires (cp_proof port)))) (\<lambda>n.
     Option.bind (usize_checked_add n (length (prf_provides (cp_proof port)))) (\<lambda>n.
     Option.bind (usize_checked_add n (length (prf_invalidates (cp_proof port)))) (\<lambda>n.
     Option.bind (usize_checked_add n (length (pol_requires (cp_policy port)))) (\<lambda>n.
     Option.bind (usize_checked_add n (length (pol_adds (cp_policy port)))) (\<lambda>n.
     usize_checked_add n (length (ec_maximum_shape (cp_extent port))))))))"

section \<open>Header, tokens and limits\<close>

definition check_tokens :: "compiled_plan \<Rightarrow> (plan_decode_error, unit) outcome" where
  "check_tokens plan =
     and_then (guard (p_schema_version plan \<noteq> 3) (UnsupportedSchema (p_schema_version plan))) (\<lambda>_.
     and_then (guard (\<not> realm_is_known (p_realm plan)) UnknownToken) (\<lambda>_.
     and_then (guard (\<exists>buffer \<in> set (p_buffers plan). \<not> layout_is_known (bp_layout buffer)) UnknownToken) (\<lambda>_.
     guard (\<exists>node \<in> set (p_nodes plan).
              (\<exists>c \<in> set (cn_input_contracts node @ cn_output_contracts node). \<not> layout_is_known (cp_layout c)) \<or>
              (case cn_conversion node of
                 Some conversion \<Rightarrow> \<not> layout_is_known (cv_from conversion) \<or> \<not> layout_is_known (cv_to conversion)
               | None \<Rightarrow> False)) UnknownToken)))"

definition check_limits :: "plan_limits \<Rightarrow> compiled_plan \<Rightarrow> (plan_decode_error, unit) outcome" where
  "check_limits limits plan =
     and_then (guard (length (p_nodes plan) > pl_max_nodes limits \<or>
                      length (p_order plan) > pl_max_nodes limits \<or>
                      length (p_buffers plan) > pl_max_buffers limits \<or>
                      length (p_invocation_ports plan) > pl_max_contract_entries limits \<or>
                      length (p_propagated_proofs plan) > pl_max_contract_entries limits \<or>
                      length (p_propagated_policy plan) > pl_max_contract_entries limits \<or>
                      length (p_feedback plan) > pl_max_feedback_edges limits) LimitExceeded) (\<lambda>_.
     and_then (guard (\<not> strictly_sorted (p_invocation_ports plan) \<or>
                      \<not> strictly_sorted (p_propagated_proofs plan) \<or>
                      \<not> strictly_sorted (p_propagated_policy plan) \<or>
                      [] \<in> set (p_propagated_proofs plan) \<or> [] \<in> set (p_propagated_policy plan)) InvalidPlan) (\<lambda>_.
     guard (p_peak_bytes plan > pl_max_peak_bytes limits \<or>
            p_persistent_state_bytes plan > pl_max_persistent_state_bytes limits) ResourceLimitExceeded))"

definition check_order :: "compiled_plan \<Rightarrow> (plan_decode_error, unit) outcome" where
  "check_order plan =
     and_then (guard (p_order plan = [] \<or> p_nodes plan = []) InvalidPlan) (\<lambda>_.
     let semantic_positions = bt_collect (zip (p_order plan) [0..<length (p_order plan)])
     in guard (length semantic_positions \<noteq> length (p_order plan) \<or>
               concat (map cn_semantic_nodes (p_nodes plan)) \<noteq> p_order plan) InvalidPlan)"

section \<open>Buffers\<close>

fun iter_max :: "'a::linorder list \<Rightarrow> 'a option" where
  "iter_max [] = None"
| "iter_max (x # xs) = (case iter_max xs of None \<Rightarrow> Some x | Some y \<Rightarrow> Some (max x y))"

definition buffer_invalid :: "compiled_plan \<Rightarrow> nat \<Rightarrow> buffer_plan \<Rightarrow> (plan_decode_error, bool) outcome" where
  "buffer_invalid plan i buffer = any_of
     [Ok (unat (bp_id buffer) \<noteq> i),
      Ok (bp_capacity_bytes buffer = 0),
      Ok (bp_consumers buffer = []),
      Ok (bp_last_consumer buffer \<notin> set (bp_consumers buffer)),
      Ok (unat (bp_producer buffer) \<ge> length (p_nodes plan)),
      Ok (\<exists>consumer \<in> set (bp_consumers buffer). unat consumer \<ge> length (p_nodes plan)),
      Ok (length (sort_dedup (bp_consumers buffer)) \<noteq> length (bp_consumers buffer)),
      Ok (\<not> strictly_sorted (bp_consumers buffer)),
      Ok (iter_max (bp_consumers buffer) \<noteq> Some (bp_last_consumer buffer)),
      Ok (\<exists>consumer \<in> set (bp_consumers buffer). consumer \<le> bp_producer buffer),
      and_then (index (p_nodes plan) (unat (bp_producer buffer))) (\<lambda>node.
        Ok (OutBuffer (bp_id buffer) \<notin> set (cn_output_bindings node))),
      any_in (\<lambda>consumer. and_then (index (p_nodes plan) (unat consumer)) (\<lambda>node.
        Ok (InBuffer (bp_id buffer) \<notin> set (cn_input_bindings node)))) (bp_consumers buffer),
      (case bp_aliases buffer of
         None \<Rightarrow> Ok False
       | Some alias \<Rightarrow> any_of
           [Ok (alias \<ge> bp_id buffer),
            and_then (index (p_buffers plan) (unat alias)) (\<lambda>root. Ok (bp_aliases root \<noteq> None)),
            and_then (index (p_buffers plan) (unat alias)) (\<lambda>root. Ok (bp_layout root \<noteq> bp_layout buffer)),
            and_then (index (p_buffers plan) (unat alias)) (\<lambda>root.
              Ok (bp_capacity_bytes root < bp_capacity_bytes buffer))])]"

definition check_buffer ::
    "compiled_plan \<Rightarrow> u64 \<Rightarrow> nat \<times> buffer_plan \<Rightarrow> (plan_decode_error, u64) outcome" where
  "check_buffer plan buffer_bytes entry =
     and_then (buffer_invalid plan (fst entry) (snd entry)) (\<lambda>invalid.
     and_then (guard invalid InvalidBuffer) (\<lambda>_.
     if bp_aliases (snd entry) = None
     then ok_or (u64_checked_add buffer_bytes (bp_capacity_bytes (snd entry))) ResourceLimitExceeded
     else Ok buffer_bytes))"

definition storage_root :: "buffer_plan \<Rightarrow> buffer_id" where
  "storage_root buffer = (case bp_aliases buffer of Some alias \<Rightarrow> alias | None \<Rightarrow> bp_id buffer)"

definition alias_intervals :: "compiled_plan \<Rightarrow> (buffer_id, (step_id \<times> step_id) list) btree_map" where
  "alias_intervals plan =
     fold (\<lambda>buffer. bt_push (storage_root buffer) (bp_producer buffer, bp_last_consumer buffer))
       (p_buffers plan) bt_empty"

definition check_aliases :: "compiled_plan \<Rightarrow> (plan_decode_error, unit) outcome" where
  "check_aliases plan =
     guard (\<exists>intervals \<in> set (bt_values (alias_intervals plan)).
              \<exists>(a, b) \<in> set (windows2 (sort intervals)). snd a \<ge> fst b) InvalidBuffer"

section \<open>Steps\<close>

text \<open>The counters of the loop over the steps; a \<open>BTreeSet\<close> is its elements in order.\<close>

record decode_scan =
  ds_workspace_bytes :: u64
  ds_failure_entries :: usize
  ds_used_invocations :: "u32 list"
  ds_used_feedback :: "feedback_id list"
  ds_state_bytes :: u64

definition count_entries :: "usize \<Rightarrow> compiled_node \<Rightarrow> usize option" where
  "count_entries failure_entries node =
     Option.bind (usize_checked_add failure_entries (length (fc_domains (cn_failure node)))) (\<lambda>n.
     Option.bind (foldl (\<lambda>acc config. Option.bind acc (\<lambda>count. usize_checked_add count (length config)))
       (Some n) (cn_semantic_configs node)) (\<lambda>n.
     Option.bind (foldl (\<lambda>acc port. Option.bind acc (\<lambda>count.
         Option.bind (contract_entry_count port) (usize_checked_add count)))
       (Some n) (cn_input_contracts node @ cn_output_contracts node)) (\<lambda>n.
     usize_checked_add n (length (cn_subgraph_path node)))))"

definition insert_new :: "'a::linorder list \<Rightarrow> 'a \<Rightarrow> (plan_decode_error, 'a list) outcome" where
  "insert_new used x = (if x \<in> set used then Err InvalidPlan else Ok (insort x used))"

definition invocations_of :: "compiled_node \<Rightarrow> u32 list" where
  "invocations_of node =
     List.map_filter (\<lambda>binding. case binding of InInvocation i \<Rightarrow> Some i | _ \<Rightarrow> None) (cn_input_bindings node)"

definition feedbacks_of :: "compiled_node \<Rightarrow> feedback_id list" where
  "feedbacks_of node =
     List.map_filter (\<lambda>binding. case binding of InFeedback f \<Rightarrow> Some f | _ \<Rightarrow> None) (cn_input_bindings node)"

definition conversion_step_invalid :: "compiled_node \<Rightarrow> bool" where
  "conversion_step_invalid node =
     (length (cn_input_bindings node) \<noteq> 1 \<or> length (cn_output_bindings node) \<noteq> 1 \<or>
      cn_input_ports node \<noteq> [''input''] \<or> cn_output_ports node \<noteq> [''output''] \<or>
      Absent \<in> set (cn_input_bindings node) \<or> feedbacks_of node \<noteq> [] \<or>
      Terminal \<in> set (cn_output_bindings node) \<or> cn_partiality node \<noteq> Atomic \<or>
      fc_domains (cn_failure node) \<noteq> [] \<or> cn_effect node \<noteq> Pure \<or> cn_retry_limit node \<noteq> 0 \<or>
      cn_state node \<noteq> stateless \<or> cn_subgraph_path node \<noteq> [])"

definition input_mismatch ::
    "compiled_plan \<Rightarrow> input_binding \<times> compiled_port_contract \<Rightarrow> (plan_decode_error, bool) outcome" where
  "input_mismatch plan port =
     (case fst port of
        InBuffer b \<Rightarrow> and_then (index (p_buffers plan) (unat b)) (\<lambda>buffer.
          Ok (cp_layout (snd port) \<noteq> bp_layout buffer \<or> bp_capacity_bytes buffer > cp_max_bytes (snd port)))
      | _ \<Rightarrow> Ok False)"

definition output_mismatch ::
    "compiled_plan \<Rightarrow> output_binding \<times> compiled_port_contract \<Rightarrow> (plan_decode_error, bool) outcome" where
  "output_mismatch plan port =
     (case fst port of
        OutBuffer b \<Rightarrow> and_then (index (p_buffers plan) (unat b)) (\<lambda>buffer.
          Ok (cp_layout (snd port) \<noteq> bp_layout buffer \<or> bp_capacity_bytes buffer \<noteq> cp_max_bytes (snd port)))
      | Terminal \<Rightarrow> Ok False)"

definition input_unlisted :: "compiled_plan \<Rightarrow> compiled_node \<Rightarrow> input_binding \<Rightarrow> (plan_decode_error, bool) outcome" where
  "input_unlisted plan node binding =
     (case binding of
        InBuffer b \<Rightarrow> and_then (index (p_buffers plan) (unat b)) (\<lambda>buffer.
          Ok (cn_id node \<notin> set (bp_consumers buffer)))
      | _ \<Rightarrow> Ok False)"

definition output_unlisted :: "compiled_plan \<Rightarrow> compiled_node \<Rightarrow> output_binding \<Rightarrow> (plan_decode_error, bool) outcome" where
  "output_unlisted plan node binding =
     (case binding of
        OutBuffer b \<Rightarrow> and_then (index (p_buffers plan) (unat b)) (\<lambda>buffer.
          Ok (bp_producer buffer \<noteq> cn_id node))
      | Terminal \<Rightarrow> Ok False)"

definition step_invalid :: "plan_limits \<Rightarrow> compiled_plan \<Rightarrow> nat \<Rightarrow> compiled_node \<Rightarrow> (plan_decode_error, bool) outcome" where
  "step_invalid limits plan i node =
     (let conversion = (cn_conversion node \<noteq> None)
      in any_of
     [Ok (unat (cn_id node) \<noteq> i),
      Ok (conversion \<noteq> (cn_semantic_nodes node = [])),
      Ok (length (cn_semantic_nodes node) \<noteq> length (cn_semantic_types node)),
      Ok (length (cn_semantic_nodes node) \<noteq> length (cn_semantic_configs node)),
      Ok (length (cn_input_ports node) \<noteq> length (cn_input_bindings node)),
      Ok (length (cn_output_ports node) \<noteq> length (cn_output_bindings node)),
      Ok (length (cn_input_contracts node) \<noteq> length (cn_input_bindings node)),
      Ok (length (cn_output_contracts node) \<noteq> length (cn_output_bindings node)),
      Ok (\<exists>(name, c) \<in> set (zip (cn_input_ports node) (cn_input_contracts node)).
            name \<noteq> cp_name c \<or> \<not> valid_compiled_port c),
      Ok (\<exists>(name, c) \<in> set (zip (cn_output_ports node) (cn_output_contracts node)).
            name \<noteq> cp_name c \<or> \<not> valid_compiled_port c),
      Ok ([] \<in> set (cn_input_ports node)),
      Ok ([] \<in> set (cn_output_ports node)),
      Ok (length (sort_dedup (cn_input_ports node)) \<noteq> length (cn_input_ports node)),
      Ok (length (sort_dedup (cn_output_ports node)) \<noteq> length (cn_output_ports node)),
      Ok (\<exists>binding \<in> set (cn_input_bindings node).
            case binding of InBuffer b \<Rightarrow> unat b \<ge> length (p_buffers plan) | _ \<Rightarrow> False),
      Ok (\<exists>j \<in> set (invocations_of node). unat j \<ge> length (p_invocation_ports plan)),
      Ok (\<exists>f \<in> set (feedbacks_of node). unat f \<ge> length (p_feedback plan)),
      any_in (input_mismatch plan) (zip (cn_input_bindings node) (cn_input_contracts node)),
      Ok (\<exists>binding \<in> set (cn_output_bindings node).
            case binding of OutBuffer b \<Rightarrow> unat b \<ge> length (p_buffers plan) | Terminal \<Rightarrow> False),
      any_in (output_mismatch plan) (zip (cn_output_bindings node) (cn_output_contracts node)),
      Ok (re_threads (cn_resources node) = 0),
      Ok ([] \<in> set (fc_domains (cn_failure node))),
      Ok (\<not> strictly_sorted (fc_domains (cn_failure node))),
      Ok (cn_partiality node = ExplicitGaps \<and> fc_domains (cn_failure node) = []),
      Ok (cn_effect node = AtMostOnce \<and> cn_retry_limit node > 0),
      Ok (\<not> valid_state_contract (cn_state node)),
      Ok (length (cn_subgraph_path node) > pl_max_subgraph_depth limits),
      any_in (input_unlisted plan node) (cn_input_bindings node),
      any_in (output_unlisted plan node) (cn_output_bindings node),
      Ok (conversion \<and> conversion_step_invalid node)])"

definition check_conversion ::
    "compiled_plan \<Rightarrow> compiled_node \<Rightarrow> layout_conversion \<Rightarrow> (plan_decode_error, unit) outcome" where
  "check_conversion plan node conversion =
     and_then (index (cn_input_bindings node) 0) (\<lambda>input_binding.
     and_then (index (cn_output_bindings node) 0) (\<lambda>output_binding.
     case (input_binding, output_binding) of
       (InBuffer inp, OutBuffer out) \<Rightarrow>
         and_then (index (p_buffers plan) (unat inp)) (\<lambda>inp.
         and_then (index (p_buffers plan) (unat out)) (\<lambda>out.
         and_then (any_of
           [Ok (bp_layout inp \<noteq> cv_from conversion), Ok (bp_layout out \<noteq> cv_to conversion),
            Ok (bp_capacity_bytes inp > cv_max_input_bytes conversion),
            Ok (bp_capacity_bytes out > cv_max_output_bytes conversion),
            and_then (index (cn_input_contracts node) 0) (\<lambda>c. Ok (cp_semantic_type c \<noteq> cv_semantic_type conversion)),
            and_then (index (cn_output_contracts node) 0) (\<lambda>c. Ok (cp_semantic_type c \<noteq> cv_semantic_type conversion)),
            and_then (index (cn_input_contracts node) 0) (\<lambda>c. Ok (cp_layout c \<noteq> cv_from conversion)),
            and_then (index (cn_output_contracts node) 0) (\<lambda>c. Ok (cp_layout c \<noteq> cv_to conversion)),
            and_then (index (cn_input_contracts node) 0) (\<lambda>c. Ok (cp_max_bytes c \<noteq> bp_capacity_bytes inp)),
            and_then (index (cn_output_contracts node) 0) (\<lambda>c. Ok (cp_max_bytes c \<noteq> bp_capacity_bytes out))])
           (\<lambda>invalid. guard invalid InvalidPlan)))
     | _ \<Rightarrow> Err InvalidPlan))"

definition step_workspace :: "compiled_node \<Rightarrow> (plan_decode_error, u64) outcome" where
  "step_workspace node =
     and_then (ok_or (u64_checked_add (re_peak_bytes (cn_resources node)) (re_scratch_bytes (cn_resources node)))
       ResourceLimitExceeded) (\<lambda>workspace.
     if sc_scope (cn_state node) = ScopeInvocation
     then ok_or (u64_checked_add workspace (sc_max_bytes (cn_state node))) ResourceLimitExceeded
     else Ok workspace)"

definition check_step ::
    "plan_limits \<Rightarrow> compiled_plan \<Rightarrow> decode_scan \<Rightarrow> nat \<times> compiled_node \<Rightarrow> (plan_decode_error, decode_scan) outcome" where
  "check_step limits plan scan entry =
     (let (i, node) = entry in
      and_then (ok_or (count_entries (ds_failure_entries scan) node) LimitExceeded) (\<lambda>failure_entries.
      and_then (try_fold insert_new (ds_used_invocations scan) (invocations_of node)) (\<lambda>used_invocations.
      and_then (try_fold insert_new (ds_used_feedback scan) (feedbacks_of node)) (\<lambda>used_feedback.
      and_then (step_invalid limits plan i node) (\<lambda>invalid.
      and_then (guard invalid InvalidPlan) (\<lambda>_.
      and_then (if sc_scope (cn_state node) \<in> {ScopeSession, Durable}
                then ok_or (u64_checked_add (ds_state_bytes scan) (sc_max_bytes (cn_state node))) ResourceLimitExceeded
                else Ok (ds_state_bytes scan)) (\<lambda>state_bytes.
      and_then (case cn_conversion node of Some conversion \<Rightarrow> check_conversion plan node conversion | None \<Rightarrow> Ok ()) (\<lambda>_.
      and_then (step_workspace node) (\<lambda>workspace.
        Ok \<lparr>ds_workspace_bytes = max (ds_workspace_bytes scan) workspace, ds_failure_entries = failure_entries,
            ds_used_invocations = used_invocations, ds_used_feedback = used_feedback,
            ds_state_bytes = state_bytes\<rparr>)))))))))"

definition dense_ids :: "nat \<Rightarrow> u32 list" where
  "dense_ids n = map word_of_nat [0..<n mod 2 ^ 32]"

definition check_usage :: "plan_limits \<Rightarrow> compiled_plan \<Rightarrow> decode_scan \<Rightarrow> (plan_decode_error, unit) outcome" where
  "check_usage limits plan scan =
     and_then (guard (ds_failure_entries scan > pl_max_contract_entries limits) LimitExceeded) (\<lambda>_.
     and_then (guard (length (ds_used_invocations scan) \<noteq> length (p_invocation_ports plan) \<or>
                      ds_used_invocations scan \<noteq> dense_ids (length (p_invocation_ports plan))) InvalidPlan) (\<lambda>_.
     guard (length (ds_used_feedback scan) \<noteq> length (p_feedback plan) \<or>
            ds_used_feedback scan \<noteq> dense_ids (length (p_feedback plan))) InvalidPlan))"

section \<open>Edges, feedback and totals\<close>

definition check_consumer_port ::
    "buffer_plan \<Rightarrow> compiled_port_contract \<Rightarrow> compiled_node \<Rightarrow> bool \<Rightarrow> nat \<times> input_binding \<Rightarrow>
     (plan_decode_error, bool) outcome" where
  "check_consumer_port buffer producer_contract consumer matched entry =
     (if snd entry = InBuffer (bp_id buffer)
      then and_then (index (cn_input_contracts consumer) (fst entry)) (\<lambda>c.
           and_then (guard (\<not> compiled_port_contract_satisfies producer_contract c) InvalidPlan) (\<lambda>_. Ok True))
      else Ok matched)"

definition check_buffer_contracts :: "compiled_plan \<Rightarrow> buffer_plan \<Rightarrow> (plan_decode_error, unit) outcome" where
  "check_buffer_contracts plan buffer =
     and_then (index (p_nodes plan) (unat (bp_producer buffer))) (\<lambda>producer.
     and_then (ok_or (Option.bind (position (\<lambda>binding. binding = OutBuffer (bp_id buffer)) (cn_output_bindings producer))
         (get (cn_output_contracts producer))) InvalidPlan) (\<lambda>producer_contract.
     try_fold (\<lambda>_ consumer_id.
       and_then (index (p_nodes plan) (unat consumer_id)) (\<lambda>consumer.
       and_then (try_fold (check_consumer_port buffer producer_contract consumer) False
           (zip [0..<length (cn_input_bindings consumer)] (cn_input_bindings consumer))) (\<lambda>matched.
       guard (\<not> matched) InvalidPlan))) () (bp_consumers buffer)))"

definition feedback_invalid :: "compiled_plan \<Rightarrow> nat \<Rightarrow> feedback_plan \<Rightarrow> (plan_decode_error, bool) outcome" where
  "feedback_invalid plan i feedback =
     (let out = Option.bind (get (p_nodes plan) (unat (fp_from_step feedback)))
            (\<lambda>node. get (cn_output_contracts node) (unat (fp_from_port feedback)));
          inp = Option.bind (get (p_nodes plan) (unat (fp_to_step feedback)))
            (\<lambda>node. get (cn_input_contracts node) (unat (fp_to_port feedback)));
          expected_state_bytes = Option.bind out (\<lambda>c.
            u64_checked_mul (cp_max_bytes c) (ucast (dc_invocations (fp_delay feedback))))
      in any_of
       [Ok (unat (fp_id feedback) \<noteq> i),
        Ok (dc_invocations (fp_delay feedback) = 0),
        Ok (fp_state_bytes feedback = 0),
        Ok (unat (fp_from_step feedback) \<ge> length (p_nodes plan)),
        Ok (unat (fp_to_step feedback) \<ge> length (p_nodes plan)),
        Ok (out = None),
        Ok (inp = None),
        Ok (dc_initial (fp_delay feedback) = DelayAbsent \<and> (case inp of Some c \<Rightarrow> \<not> cp_optional c | None \<Rightarrow> False)),
        and_then (index (p_nodes plan) (unat (fp_to_step feedback))) (\<lambda>node.
        and_then (index (cn_input_bindings node) (unat (fp_to_port feedback))) (\<lambda>binding.
          Ok (binding \<noteq> InFeedback (fp_id feedback)))),
        Ok (expected_state_bytes \<noteq> Some (fp_state_bytes feedback)),
        and_then (expect out) (\<lambda>out. and_then (expect inp) (\<lambda>inp.
          Ok (\<not> compiled_port_contract_satisfies out inp)))])"

definition check_feedback ::
    "compiled_plan \<Rightarrow> u64 \<Rightarrow> nat \<times> feedback_plan \<Rightarrow> (plan_decode_error, u64) outcome" where
  "check_feedback plan state_bytes entry =
     and_then (feedback_invalid plan (fst entry) (snd entry)) (\<lambda>invalid.
     and_then (guard invalid InvalidPlan) (\<lambda>_.
     ok_or (u64_checked_add state_bytes (fp_state_bytes (snd entry))) ResourceLimitExceeded))"

definition check_state :: "compiled_plan \<Rightarrow> u64 \<Rightarrow> (plan_decode_error, unit) outcome" where
  "check_state plan state_bytes =
     guard (state_bytes \<noteq> p_persistent_state_bytes plan \<or>
            (p_feedback plan \<noteq> [] \<and> p_session plan = None) \<or>
            (case p_session plan of
               Some session \<Rightarrow> ses_namespace session = [] \<or> ses_max_concurrent_sessions session = 0 \<or>
                               ses_max_idle_millis session = 0
             | None \<Rightarrow> False) \<or>
            (\<exists>node \<in> set (p_nodes plan). sc_scope (cn_state node) \<in> {ScopeSession, Durable} \<and> p_session plan = None))
       InvalidPlan"

definition count_produced :: "u8 list \<Rightarrow> output_binding \<Rightarrow> (plan_decode_error, u8 list) outcome" where
  "count_produced produced binding =
     (case binding of
        OutBuffer b \<Rightarrow>
          and_then (index produced (unat b)) (\<lambda>count.
          if count + 1 = 0 then Err InvalidBuffer else Ok (produced[unat b := count + 1]))
      | Terminal \<Rightarrow> Ok produced)"

definition check_produced :: "compiled_plan \<Rightarrow> (plan_decode_error, unit) outcome" where
  "check_produced plan =
     and_then (try_fold count_produced (replicate (length (p_buffers plan)) 0)
         (concat (map cn_output_bindings (p_nodes plan)))) (\<lambda>produced.
     guard (\<exists>count \<in> set produced. count \<noteq> 1) InvalidBuffer)"

definition check_identity ::
    "hasher \<Rightarrow> compiled_plan \<Rightarrow> u64 \<Rightarrow> u64 \<Rightarrow> (plan_decode_error, compiled_plan) outcome" where
  "check_identity H plan buffer_bytes workspace_bytes =
     and_then (ok_or (u64_checked_add buffer_bytes workspace_bytes) ResourceLimitExceeded) (\<lambda>expected_peak.
     and_then (guard (p_peak_bytes plan \<noteq> expected_peak) ResourceLimitExceeded) (\<lambda>_.
     and_then (guard (p_plan_id plan \<noteq> hash_plan H plan) IdentityMismatch) (\<lambda>_. Ok plan)))"

definition enumerate_list :: "'a list \<Rightarrow> (nat \<times> 'a) list" where
  "enumerate_list xs = zip [0..<length xs] xs"

text \<open>The checks of \<open>from_aot_bytes\<close> on the decoded value, in the order of the source.\<close>

definition validate_plan :: "hasher \<Rightarrow> plan_limits \<Rightarrow> compiled_plan \<Rightarrow> (plan_decode_error, compiled_plan) outcome" where
  "validate_plan H limits plan =
     and_then (check_tokens plan) (\<lambda>_.
     and_then (check_limits limits plan) (\<lambda>_.
     and_then (check_order plan) (\<lambda>_.
     and_then (try_fold (check_buffer plan) 0 (enumerate_list (p_buffers plan))) (\<lambda>buffer_bytes.
     and_then (check_aliases plan) (\<lambda>_.
     and_then (try_fold (check_step limits plan)
         \<lparr>ds_workspace_bytes = 0, ds_failure_entries = 0, ds_used_invocations = [], ds_used_feedback = [],
          ds_state_bytes = 0\<rparr> (enumerate_list (p_nodes plan))) (\<lambda>scan.
     and_then (check_usage limits plan scan) (\<lambda>_.
     and_then (try_fold (\<lambda>_. check_buffer_contracts plan) () (p_buffers plan)) (\<lambda>_.
     and_then (try_fold (check_feedback plan) (ds_state_bytes scan) (enumerate_list (p_feedback plan))) (\<lambda>state_bytes.
     and_then (check_state plan state_bytes) (\<lambda>_.
     and_then (check_produced plan) (\<lambda>_.
     check_identity H plan buffer_bytes (ds_workspace_bytes scan))))))))))))"

section \<open>Encoding and decoding\<close>

type_synonym plan_encoder = "compiled_plan \<Rightarrow> bytes option"
type_synonym plan_decoder = "bytes \<Rightarrow> (compiled_plan \<times> bytes) option"

definition to_aot_bytes :: "plan_encoder \<Rightarrow> compiled_plan \<Rightarrow> (plan_decode_error, bytes) outcome" where
  "to_aot_bytes enc plan = and_then (ok_or (enc plan) Malformed) (\<lambda>body. Ok (MAGIC @ body))"

definition strip_prefix :: "bytes \<Rightarrow> bytes \<Rightarrow> bytes option" where
  "strip_prefix pre bs = (if take (length pre) bs = pre then Some (drop (length pre) bs) else None)"

definition from_aot_bytes ::
    "hasher \<Rightarrow> plan_decoder \<Rightarrow> bytes \<Rightarrow> plan_limits \<Rightarrow> (plan_decode_error, compiled_plan) outcome" where
  "from_aot_bytes H dec bs limits =
     and_then (guard (length bs > pl_max_bytes limits) TooLarge) (\<lambda>_.
     and_then (ok_or (strip_prefix MAGIC bs) BadMagic) (\<lambda>body.
     and_then (ok_or (dec body) Malformed) (\<lambda>(plan, remainder).
     and_then (guard (remainder \<noteq> []) Malformed) (\<lambda>_.
     validate_plan H limits plan))))"

definition from_authorized_aot_bytes ::
    "hasher \<Rightarrow> plan_decoder \<Rightarrow> bytes \<Rightarrow> plan_limits \<Rightarrow> plan_authorization \<Rightarrow> (plan_decode_error, compiled_plan) outcome" where
  "from_authorized_aot_bytes H dec bs limits authorization =
     and_then (from_aot_bytes H dec bs limits) (\<lambda>plan.
     and_then (guard (p_realm plan \<noteq> pa_expected_realm authorization) RealmMismatch) (\<lambda>_.
     and_then (guard (p_plan_id plan \<noteq> pa_expected_plan_id authorization) UnauthorizedPlan) (\<lambda>_.
     Ok plan)))"

section \<open>What a valid plan is\<close>

text \<open>The steps and buffers of a valid plan, as facts about the plan.\<close>

definition buffer_valid :: "compiled_plan \<Rightarrow> nat \<Rightarrow> buffer_plan \<Rightarrow> bool" where
  "buffer_valid plan i buffer =
     (unat (bp_id buffer) = i \<and> bp_capacity_bytes buffer \<noteq> 0 \<and>
      unat (bp_producer buffer) < length (p_nodes plan) \<and>
      (\<forall>c \<in> set (bp_consumers buffer). unat c < length (p_nodes plan) \<and> bp_producer buffer < c \<and> c \<le> bp_last_consumer buffer \<and>
         InBuffer (bp_id buffer) \<in> set (cn_input_bindings (p_nodes plan ! unat c))) \<and>
      bp_last_consumer buffer \<in> set (bp_consumers buffer) \<and> strictly_sorted (bp_consumers buffer) \<and>
      OutBuffer (bp_id buffer) \<in> set (cn_output_bindings (p_nodes plan ! unat (bp_producer buffer))) \<and>
      (\<forall>alias. bp_aliases buffer = Some alias \<longrightarrow> unat alias < i \<and>
         bp_aliases (p_buffers plan ! unat alias) = None \<and>
         bp_layout (p_buffers plan ! unat alias) = bp_layout buffer \<and>
         bp_capacity_bytes buffer \<le> bp_capacity_bytes (p_buffers plan ! unat alias)))"

lemma iter_max_None_iff: "iter_max xs = None \<longleftrightarrow> xs = []"
  by (cases xs) (auto split: option.splits)

lemma iter_max_SomeD: "iter_max xs = Some m \<Longrightarrow> \<forall>x \<in> set xs. x \<le> m"
proof (induction xs arbitrary: m)
  case (Cons x xs)
  then show ?case by (cases "iter_max xs") (auto simp: max_def iter_max_None_iff split: if_splits)
qed simp

lemma iter_max_Some_mem: "iter_max xs = Some m \<Longrightarrow> m \<in> set xs"
proof (induction xs arbitrary: m)
  case (Cons x xs)
  then show ?case by (cases "iter_max xs") (auto simp: max_def split: if_splits)
qed simp

lemma buffer_invalid_False:
  assumes "buffer_invalid plan i buffer = Ok False"
  shows "buffer_valid plan i buffer"
proof -
  from assms have consumers: "iter_max (bp_consumers buffer) = Some (bp_last_consumer buffer)"
    by (simp add: buffer_invalid_def outcome_simps)
  have root: "bp_aliases (p_buffers plan ! unat al) = None \<and>
      bp_layout (p_buffers plan ! unat al) = bp_layout buffer \<and>
      bp_capacity_bytes buffer \<le> bp_capacity_bytes (p_buffers plan ! unat al) \<and> al < bp_id buffer"
    if "bp_aliases buffer = Some al" for al
    using assms that by (auto simp: buffer_invalid_def outcome_simps)
  from assms have id: "unat (bp_id buffer) = i" by (simp add: buffer_invalid_def outcome_simps)
  show ?thesis
    unfolding buffer_valid_def
  proof (intro conjI allI impI)
    show "\<forall>c \<in> set (bp_consumers buffer). unat c < length (p_nodes plan) \<and> bp_producer buffer < c \<and> c \<le> bp_last_consumer buffer \<and>
         InBuffer (bp_id buffer) \<in> set (cn_input_bindings (p_nodes plan ! unat c))"
      using assms iter_max_SomeD [OF consumers] by (auto simp: buffer_invalid_def outcome_simps not_le)
  qed (use assms root id in \<open>auto simp: buffer_invalid_def outcome_simps word_less_nat_alt\<close>)
qed

definition step_valid :: "compiled_plan \<Rightarrow> nat \<Rightarrow> compiled_node \<Rightarrow> bool" where
  "step_valid plan i node =
     (unat (cn_id node) = i \<and> (cn_conversion node \<noteq> None \<longleftrightarrow> cn_semantic_nodes node = []) \<and>
      length (cn_semantic_nodes node) = length (cn_semantic_types node) \<and>
      length (cn_semantic_nodes node) = length (cn_semantic_configs node) \<and>
      length (cn_input_contracts node) = length (cn_input_bindings node) \<and>
      length (cn_output_contracts node) = length (cn_output_bindings node) \<and>
      (\<forall>b. InBuffer b \<in> set (cn_input_bindings node) \<longrightarrow>
         unat b < length (p_buffers plan) \<and> cn_id node \<in> set (bp_consumers (p_buffers plan ! unat b))) \<and>
      (\<forall>j. InInvocation j \<in> set (cn_input_bindings node) \<longrightarrow> unat j < length (p_invocation_ports plan)) \<and>
      (\<forall>f. InFeedback f \<in> set (cn_input_bindings node) \<longrightarrow> unat f < length (p_feedback plan)) \<and>
      (\<forall>b. OutBuffer b \<in> set (cn_output_bindings node) \<longrightarrow>
         unat b < length (p_buffers plan) \<and> bp_producer (p_buffers plan ! unat b) = cn_id node) \<and>
      (cn_effect node = AtMostOnce \<longrightarrow> cn_retry_limit node = 0) \<and>
      (cn_conversion node \<noteq> None \<longrightarrow> \<not> conversion_step_invalid node))"

lemma set_invocations_of: "j \<in> set (invocations_of node) \<longleftrightarrow> InInvocation j \<in> set (cn_input_bindings node)"
  by (force simp: invocations_of_def List.map_filter_def split: input_binding.splits)

lemma set_feedbacks_of: "f \<in> set (feedbacks_of node) \<longleftrightarrow> InFeedback f \<in> set (cn_input_bindings node)"
  by (force simp: feedbacks_of_def List.map_filter_def split: input_binding.splits)

lemma step_invalid_False:
  assumes "step_invalid limits plan i node = Ok False"
  shows "step_valid plan i node"
proof -
  note facts = assms [unfolded step_invalid_def Let_def any_of_False_iff]
  have listed: "any_in (input_unlisted plan node) (cn_input_bindings node) = Ok False"
    "any_in (output_unlisted plan node) (cn_output_bindings node) = Ok False"
    using facts by simp_all
  have inputs: "unat b < length (p_buffers plan) \<and> cn_id node \<in> set (bp_consumers (p_buffers plan ! unat b))"
    if "InBuffer b \<in> set (cn_input_bindings node)" for b
    using bspec [OF listed(1) [unfolded any_in_False_iff] that] by (simp add: input_unlisted_def outcome_simps)
  have outputs: "unat b < length (p_buffers plan) \<and> bp_producer (p_buffers plan ! unat b) = cn_id node"
    if "OutBuffer b \<in> set (cn_output_bindings node)" for b
    using bspec [OF listed(2) [unfolded any_in_False_iff] that] by (simp add: output_unlisted_def outcome_simps)
  have shape: "unat (cn_id node) = i" "cn_conversion node \<noteq> None \<longleftrightarrow> cn_semantic_nodes node = []"
    "length (cn_semantic_nodes node) = length (cn_semantic_types node)"
    "length (cn_semantic_nodes node) = length (cn_semantic_configs node)"
    "length (cn_input_contracts node) = length (cn_input_bindings node)"
    "length (cn_output_contracts node) = length (cn_output_bindings node)"
    using facts by simp_all
  have "\<not> (\<exists>j \<in> set (invocations_of node). unat j \<ge> length (p_invocation_ports plan))"
    "\<not> (\<exists>f \<in> set (feedbacks_of node). unat f \<ge> length (p_feedback plan))"
    "\<not> (cn_effect node = AtMostOnce \<and> cn_retry_limit node > 0)"
    using facts by simp_all
  then have ports: "\<forall>j \<in> set (invocations_of node). unat j < length (p_invocation_ports plan)"
    "\<forall>f \<in> set (feedbacks_of node). unat f < length (p_feedback plan)"
    and retry: "cn_effect node = AtMostOnce \<longrightarrow> cn_retry_limit node = 0"
    by (auto simp: not_le word_gt_0)
  have "\<not> (cn_conversion node \<noteq> None \<and> conversion_step_invalid node)"
    using facts by auto
  with shape ports retry inputs outputs show ?thesis
    by (simp add: step_valid_def set_invocations_of [symmetric] set_feedbacks_of [symmetric])
qed

section \<open>What the decoder establishes\<close>

lemma try_fold_each: "try_fold f s xs = Ok t \<Longrightarrow> x \<in> set xs \<Longrightarrow> \<exists>a b. f a x = Ok b"
  by (induction xs arbitrary: s) (auto simp: outcome_simps)

lemma set_enumerate_list: "(i, x) \<in> set (enumerate_list xs) \<longleftrightarrow> i < length xs \<and> x = xs ! i"
  by (auto simp: enumerate_list_def set_zip intro: exI [of _ i])

lemma strictly_sorted_iff: "strictly_sorted xs \<longleftrightarrow> sorted_wrt (<) xs"
  unfolding strictly_sorted_def by (rule windows2_strict)

lemma strictly_sorted_sorted: "strictly_sorted xs \<Longrightarrow> sorted xs"
  by (simp add: strictly_sorted_iff strict_sorted_iff)

lemma set_bt_keys_collect: "set (bt_keys (bt_collect xs)) = fst ` set xs"
proof -
  have "k \<in> set (bt_keys (bt_collect xs)) \<longleftrightarrow> k \<in> fst ` set xs" for k
  proof -
    have "k \<in> set (bt_keys (bt_collect xs)) \<longleftrightarrow> map_of (rev xs) k \<noteq> None"
      by (simp add: bt_contains_iff [symmetric] bt_contains_def bt_get_collect)
    then show ?thesis by (simp add: map_of_eq_None_iff)
  qed
  then show ?thesis by blast
qed

lemma length_bt_collect: "length (bt_collect xs) = card (fst ` set xs)"
proof -
  have "distinct (bt_keys (bt_collect xs))"
    using bt_keys_in_order [OF bt_wf_collect] strict_sorted_iff by blast
  then have "length (bt_keys (bt_collect xs)) = card (set (bt_keys (bt_collect xs)))"
    by (simp add: distinct_card)
  then show ?thesis unfolding set_bt_keys_collect by (simp add: bt_keys_def)
qed

lemma check_order_Ok:
  assumes "check_order plan = Ok ()"
  shows "distinct (p_order plan)" and "concat (map cn_semantic_nodes (p_nodes plan)) = p_order plan"
proof -
  from assms show "concat (map cn_semantic_nodes (p_nodes plan)) = p_order plan"
    by (auto simp: check_order_def outcome_simps Let_def)
  from assms have "length (bt_collect (zip (p_order plan) [0..<length (p_order plan)])) = length (p_order plan)"
    by (auto simp: check_order_def outcome_simps Let_def)
  moreover have "fst ` set (zip (p_order plan) [0..<length (p_order plan)]) = set (p_order plan)"
    by (metis length_map map_fst_zip map_nth set_map)
  ultimately show "distinct (p_order plan)"
    by (simp add: length_bt_collect card_distinct)
qed

definition decode_start :: decode_scan where
  "decode_start = \<lparr>ds_workspace_bytes = 0, ds_failure_entries = 0, ds_used_invocations = [], ds_used_feedback = [],
     ds_state_bytes = 0\<rparr>"

lemma validate_plan_Ok:
  assumes "validate_plan H limits plan = Ok plan'"
  obtains buffer_bytes scan where
    "plan' = plan" "check_tokens plan = Ok ()" "check_limits limits plan = Ok ()" "check_order plan = Ok ()"
    "try_fold (check_buffer plan) 0 (enumerate_list (p_buffers plan)) = Ok buffer_bytes"
    "check_aliases plan = Ok ()"
    "try_fold (check_step limits plan) decode_start (enumerate_list (p_nodes plan)) = Ok scan"
    "check_usage limits plan scan = Ok ()"
    "u64_checked_add buffer_bytes (ds_workspace_bytes scan) = Some (p_peak_bytes plan)"
    "p_plan_id plan = hash_plan H plan"
  using assms
  by (auto simp: validate_plan_def check_identity_def outcome_simps decode_start_def [symmetric])

lemma check_buffers_ok:
  assumes "try_fold (check_buffer plan) 0 (enumerate_list (p_buffers plan)) = Ok buffer_bytes"
    and "i < length (p_buffers plan)"
  shows "buffer_valid plan i (p_buffers plan ! i)"
proof -
  have "(i, p_buffers plan ! i) \<in> set (enumerate_list (p_buffers plan))"
    using assms(2) by (simp add: set_enumerate_list)
  from try_fold_each [OF assms(1) this] have "buffer_invalid plan i (p_buffers plan ! i) = Ok False"
    by (auto simp: check_buffer_def outcome_simps)
  then show ?thesis by (rule buffer_invalid_False)
qed

lemma check_steps_ok:
  assumes "try_fold (check_step limits plan) scan (enumerate_list (p_nodes plan)) = Ok scan'"
    and "i < length (p_nodes plan)"
  shows "step_valid plan i (p_nodes plan ! i)"
proof -
  have "(i, p_nodes plan ! i) \<in> set (enumerate_list (p_nodes plan))"
    using assms(2) by (simp add: set_enumerate_list)
  from try_fold_each [OF assms(1) this] obtain a b where "check_step limits plan a (i, p_nodes plan ! i) = Ok b"
    by blast
  then have "step_invalid limits plan i (p_nodes plan ! i) = Ok False"
    by (auto simp: check_step_def outcome_simps)
  then show ?thesis by (rule step_invalid_False)
qed

definition well_formed_plan :: "compiled_plan \<Rightarrow> bool" where
  "well_formed_plan plan =
     ((\<forall>i < length (p_buffers plan). buffer_valid plan i (p_buffers plan ! i)) \<and>
      (\<forall>i < length (p_nodes plan). step_valid plan i (p_nodes plan ! i)) \<and>
      sorted (p_invocation_ports plan) \<and> distinct (p_order plan) \<and>
      concat (map cn_semantic_nodes (p_nodes plan)) = p_order plan)"

lemma well_formed_buffer: "well_formed_plan plan \<Longrightarrow> b \<in> set (p_buffers plan) \<Longrightarrow> \<exists>i. buffer_valid plan i b"
  by (auto simp: well_formed_plan_def in_set_conv_nth)

lemma well_formed_step: "well_formed_plan plan \<Longrightarrow> n \<in> set (p_nodes plan) \<Longrightarrow> \<exists>i. step_valid plan i n"
  by (auto simp: well_formed_plan_def in_set_conv_nth)

lemma validate_plan_well_formed:
  assumes "validate_plan H limits plan = Ok plan'"
  shows "well_formed_plan plan"
proof -
  from assms obtain buffer_bytes scan where
    "check_limits limits plan = Ok ()" "check_order plan = Ok ()"
    "try_fold (check_buffer plan) 0 (enumerate_list (p_buffers plan)) = Ok buffer_bytes"
    "try_fold (check_step limits plan) decode_start (enumerate_list (p_nodes plan)) = Ok scan"
    by (rule validate_plan_Ok)
  moreover from this(1) have "sorted (p_invocation_ports plan)"
    by (auto simp: check_limits_def outcome_simps strictly_sorted_sorted)
  ultimately show ?thesis
    by (auto simp: well_formed_plan_def check_buffers_ok check_steps_ok check_order_Ok)
qed

lemma from_aot_bytes_validated:
  assumes "from_aot_bytes H dec bs limits = Ok plan"
  shows "validate_plan H limits plan = Ok plan"
proof -
  from assms obtain plan' rest where "validate_plan H limits plan' = Ok plan"
    by (auto simp: from_aot_bytes_def outcome_simps)
  then show ?thesis by (metis validate_plan_Ok)
qed

section \<open>Storage\<close>

lemma alias_intervals_get:
  "bt_wf m \<Longrightarrow>
     bt_get (fold (\<lambda>buffer. bt_push (storage_root buffer) (bp_producer buffer, bp_last_consumer buffer)) bs m) r =
       (case bt_get m r of
          None \<Rightarrow> if filter (\<lambda>b. storage_root b = r) bs = [] then None
                  else Some (map (\<lambda>b. (bp_producer b, bp_last_consumer b)) (filter (\<lambda>b. storage_root b = r) bs))
        | Some vs \<Rightarrow> Some (vs @ map (\<lambda>b. (bp_producer b, bp_last_consumer b)) (filter (\<lambda>b. storage_root b = r) bs)))"
proof (induction bs arbitrary: m)
  case Nil
  then show ?case by (simp split: option.splits)
next
  case (Cons b bs)
  have "bt_get (bt_push (storage_root b) (bp_producer b, bp_last_consumer b) m) r =
      (if storage_root b = r then Some ((case bt_get m r of None \<Rightarrow> [] | Some vs \<Rightarrow> vs) @ [(bp_producer b, bp_last_consumer b)])
       else bt_get m r)"
    using Cons.prems by (auto simp: bt_push_def bt.lookup_insert)
  with Cons.IH [of "bt_push (storage_root b) (bp_producer b, bp_last_consumer b) m"] Cons.prems show ?case
    by (auto split: option.splits)
qed

text \<open>If consecutive intervals of a sorted list are disjoint, any two of them are.\<close>

lemma windows2_disjoint:
  assumes "\<forall>(a, b) \<in> set (windows2 xs). snd a < fst b" and "\<forall>x \<in> set xs. fst x < snd x"
  shows "sorted_wrt (\<lambda>a b :: 'a::linorder \<times> 'a. snd a < fst b) xs"
  using assms
proof (induction xs rule: windows2.induct)
  case (1 x y zs)
  then have IH: "sorted_wrt (\<lambda>a b. snd a < fst b) (y # zs)" by simp
  have "snd x < fst z" if "z \<in> set zs" for z
  proof -
    have "snd x < fst y" and "fst y < snd y" using "1.prems" by auto
    moreover have "snd y < fst z" using IH that by simp
    ultimately show ?thesis by order
  qed
  with IH "1.prems" show ?case by auto
qed auto

lemma sorted_wrt_pair:
  assumes "sorted_wrt R ys" and "{#a, b#} \<subseteq># mset ys"
  shows "R a b \<or> R b a"
  using assms
proof (induction ys)
  case (Cons y ys)
  consider "a = y" | "b = y" | "a \<noteq> y" "b \<noteq> y" by blast
  then show ?case
  proof cases
    case 1
    with Cons.prems(2) have "b \<in> set ys" by simp
    with 1 Cons.prems(1) show ?thesis by simp
  next
    case 2
    with Cons.prems(2) have "a \<in> set ys" by (simp add: add_mset_commute [of a])
    with 2 Cons.prems(1) show ?thesis by simp
  next
    case 3
    then have "{#a, b#} \<subseteq># mset ys"
      using Cons.prems(2) by (simp add: insert_subset_eq_iff diff_add_mset_swap)
    with Cons show ?thesis by simp
  qed
qed simp

lemma pair_in_filter:
  assumes "i < j" and "j < length xs" and "P (xs ! i)" and "P (xs ! j)"
  shows "{#f (xs ! i), f (xs ! j)#} \<subseteq># mset (map f (filter P xs))"
proof -
  have "xs = take j xs @ xs ! j # drop (Suc j) xs" using assms(2) by (rule id_take_nth_drop)
  then have "filter P xs = filter P (take j xs) @ xs ! j # filter P (drop (Suc j) xs)"
    using assms(4) by (metis filter.simps(2) filter_append)
  moreover have "xs ! i \<in> set (filter P (take j xs))"
    using assms by (auto simp: in_set_conv_nth intro!: exI [of _ i])
  then have "{#f (xs ! i)#} \<subseteq># mset (map f (filter P (take j xs)))"
    by simp
  ultimately show ?thesis
    by (simp add: mset_subset_eq_add_mset_cancel)
qed

lemma storage_root_facts:
  assumes "well_formed_plan plan" and "i < length (p_buffers plan)"
  defines "b \<equiv> p_buffers plan ! i"
  shows "unat (storage_root b) \<le> i" and "bp_layout (p_buffers plan ! unat (storage_root b)) = bp_layout b"
    and "bp_capacity_bytes b \<le> bp_capacity_bytes (p_buffers plan ! unat (storage_root b))"
    and "bp_aliases (p_buffers plan ! unat (storage_root b)) = None" and "bp_producer b < bp_last_consumer b"
proof -
  have ok: "buffer_valid plan i b" using assms by (simp add: well_formed_plan_def)
  show "unat (storage_root b) \<le> i" and "bp_layout (p_buffers plan ! unat (storage_root b)) = bp_layout b"
    and "bp_capacity_bytes b \<le> bp_capacity_bytes (p_buffers plan ! unat (storage_root b))"
    and "bp_aliases (p_buffers plan ! unat (storage_root b)) = None"
    using ok by (cases "bp_aliases b"; simp add: storage_root_def buffer_valid_def b_def)+
  show "bp_producer b < bp_last_consumer b"
    using ok by (simp add: buffer_valid_def)
qed

lemma check_aliases_disjoint:
  assumes "check_aliases plan = Ok ()" and "well_formed_plan plan" and "i < j" and "j < length (p_buffers plan)"
    and root: "storage_root (p_buffers plan ! i) = storage_root (p_buffers plan ! j)"
  shows "bp_last_consumer (p_buffers plan ! i) < bp_producer (p_buffers plan ! j) \<or>
         bp_last_consumer (p_buffers plan ! j) < bp_producer (p_buffers plan ! i)"
proof -
  let ?r = "storage_root (p_buffers plan ! j)"
  let ?iv = "\<lambda>b. (bp_producer b, bp_last_consumer b)"
  define ivs where "ivs = map ?iv (filter (\<lambda>b. storage_root b = ?r) (p_buffers plan))"
  have "filter (\<lambda>b. storage_root b = ?r) (p_buffers plan) \<noteq> []"
    using assms(4) by (auto simp: filter_empty_conv)
  then have "bt_get (alias_intervals plan) ?r = Some ivs"
    by (simp add: alias_intervals_def alias_intervals_get bt_empty_def ivs_def) (simp add: bt_get_def)
  then have "ivs \<in> set (bt_values (alias_intervals plan))"
    by (rule bt_get_in_values)
  then have "\<forall>(a, b) \<in> set (windows2 (sort ivs)). snd a < fst b"
    using assms(1) by (fastforce simp: check_aliases_def outcome_simps)
  moreover have "\<forall>x \<in> set (sort ivs). fst x < snd x"
    using storage_root_facts(5) [OF assms(2)] by (auto simp: ivs_def in_set_conv_nth)
  ultimately have "sorted_wrt (\<lambda>a b. snd a < fst b) (sort ivs)"
    by (rule windows2_disjoint)
  moreover have "{#?iv (p_buffers plan ! i), ?iv (p_buffers plan ! j)#} \<subseteq># mset (sort ivs)"
    unfolding mset_sort ivs_def using assms(3,4) root by (intro pair_in_filter) simp_all
  ultimately show ?thesis
    using sorted_wrt_pair [of _ "sort ivs" "?iv (p_buffers plan ! i)" "?iv (p_buffers plan ! j)"] by fastforce
qed

text \<open>
  C14. Buffers of a decoded plan never overlap in memory. Two buffers placed in the same storage have
  disjoint lifetimes, one being read for the last time strictly before the other is produced, and
  both have the storage's layout and fit its capacity.
\<close>

theorem decoded_storage_is_safe:
  assumes "from_aot_bytes H dec bs limits = Ok plan"
    and "i < j" and "j < length (p_buffers plan)"
    and "storage_root (p_buffers plan ! i) = storage_root (p_buffers plan ! j)"
  shows "(bp_last_consumer (p_buffers plan ! i) < bp_producer (p_buffers plan ! j) \<or>
          bp_last_consumer (p_buffers plan ! j) < bp_producer (p_buffers plan ! i)) \<and>
         bp_layout (p_buffers plan ! i) = bp_layout (p_buffers plan ! j) \<and>
         bp_capacity_bytes (p_buffers plan ! i) \<le> bp_capacity_bytes (p_buffers plan ! unat (storage_root (p_buffers plan ! i))) \<and>
         bp_capacity_bytes (p_buffers plan ! j) \<le> bp_capacity_bytes (p_buffers plan ! unat (storage_root (p_buffers plan ! j)))"
proof -
  note valid = from_aot_bytes_validated [OF assms(1)]
  have wf: "well_formed_plan plan" by (rule validate_plan_well_formed [OF valid])
  have "check_aliases plan = Ok ()" using valid by (rule validate_plan_Ok)
  from check_aliases_disjoint [OF this wf assms(2-4)] assms(2-4)
    storage_root_facts(2,3) [OF wf assms(3)] storage_root_facts(2,3) [OF wf less_trans [OF assms(2,3)]]
  show ?thesis by simp
qed

section \<open>A decoded plan\<close>

definition wire_step :: "step_id \<Rightarrow> input_binding list \<Rightarrow> output_binding list \<Rightarrow> compiled_node" where
  "wire_step i inputs outputs =
     (sample_step i inputs outputs)
       \<lparr>cn_input_contracts := map (\<lambda>_. compiled_port_contract (port_opaque ''in'' ''samples'' 64) Layout_Canonical) inputs,
        cn_output_contracts := map (\<lambda>_. compiled_port_contract (port_opaque ''out'' ''samples'' 64) Layout_Canonical) outputs\<rparr>"

text \<open>Four steps in a row; the third buffer reuses the storage of the first.\<close>

definition wire_chain :: compiled_plan where
  "wire_chain =
     (sample_plan
        [wire_step 0 [] [OutBuffer 0], wire_step 1 [InBuffer 0] [OutBuffer 1],
         wire_step 2 [InBuffer 1] [OutBuffer 2], wire_step 3 [InBuffer 2] [Terminal]]
        [sample_buffer 0 0 [1], sample_buffer 1 1 [2], (sample_buffer 2 2 [3])\<lparr>bp_aliases := Some 0\<rparr>])
     \<lparr>p_peak_bytes := 208\<rparr>"

lemmas wire_chain_simps = wire_chain_def wire_step_def sample_step_def sample_plan_def sample_buffer_def
  compiled_port_contract_def port_opaque_def stateless_def resource_bounded_def Layout_Canonical_def Realm_HostStream_def

lemma wire_chain_tokens: "check_tokens wire_chain = Ok ()"
  by (simp add: check_tokens_def wire_chain_simps guard_def realm_is_known_def layout_is_known_def)

lemma wire_chain_limits: "check_limits plan_limits_default wire_chain = Ok ()"
  by (simp add: check_limits_def wire_chain_simps guard_def plan_limits_default_def strictly_sorted_def)

lemma wire_chain_order: "check_order wire_chain = Ok ()"
  by (simp add: check_order_def wire_chain_simps guard_def bt_collect_def bt_empty_def)

lemma wire_chain_buffers: "try_fold (check_buffer wire_chain) 0 (enumerate_list (p_buffers wire_chain)) = Ok 128"
  by (simp add: check_buffer_def buffer_invalid_def any_of.simps any_in_def wire_chain_simps guard_def enumerate_list_def
      sort_dedup_def strictly_sorted_def index_def u64_checked_add_def word_le_nat_alt word_less_nat_alt)

lemma wire_chain_aliases: "check_aliases wire_chain = Ok ()"
  by (simp add: check_aliases_def alias_intervals_def wire_chain_simps guard_def storage_root_def bt_push_def bt_empty_def
      bt_get_def bt_values_def word_le_nat_alt word_less_nat_alt)

lemma wire_chain_steps: "\<exists>scan. try_fold (check_step plan_limits_default wire_chain) decode_start (enumerate_list (p_nodes wire_chain)) = Ok scan \<and>
   ds_workspace_bytes scan = 80 \<and> ds_state_bytes scan = 0 \<and> check_usage plan_limits_default wire_chain scan = Ok ()"
  by (simp add: check_step_def check_usage_def decode_start_def step_invalid_def any_of.simps any_in_def wire_chain_simps guard_def enumerate_list_def
      count_entries_def contract_entry_count_def invocations_of_def feedbacks_of_def List.map_filter_def usize_checked_add_def
      plan_limits_default_def valid_compiled_port_def valid_port_contract_def valid_contract_names_def shape_product_def dense_ids_def
      input_mismatch_def output_mismatch_def input_unlisted_def output_unlisted_def valid_state_contract_def step_workspace_def
      sort_dedup_def strictly_sorted_def index_def u64_checked_add_def word_le_nat_alt word_less_nat_alt)

lemma wire_chain_contracts: "try_fold (\<lambda>_. check_buffer_contracts wire_chain) () (p_buffers wire_chain) = Ok ()"
  by (simp add: check_buffer_contracts_def check_consumer_port_def wire_chain_simps guard_def index_def get_def
      compiled_port_contract_satisfies_def extent_satisfies_def)

lemma wire_chain_rest: "try_fold (check_feedback wire_chain) 0 (enumerate_list (p_feedback wire_chain)) = Ok 0"
  "check_state wire_chain 0 = Ok ()"
  by (simp_all add: check_state_def wire_chain_simps guard_def enumerate_list_def)

lemma wire_chain_produced: "check_produced wire_chain = Ok ()"
  by (simp add: check_produced_def count_produced_def wire_chain_simps guard_def index_def)

lemma wire_chain_identity: "check_identity (\<lambda>_ _. replicate 32 0) wire_chain 128 80 = Ok wire_chain"
  by (simp add: check_identity_def hash_plan_def wire_chain_def sample_plan_def guard_def u64_checked_add_def)

lemma wire_chain_valid: "validate_plan (\<lambda>_ _. replicate 32 0) plan_limits_default wire_chain = Ok wire_chain"
proof -
  obtain scan where "try_fold (check_step plan_limits_default wire_chain) decode_start (enumerate_list (p_nodes wire_chain)) = Ok scan"
    "ds_workspace_bytes scan = 80" "ds_state_bytes scan = 0" "check_usage plan_limits_default wire_chain scan = Ok ()"
    using wire_chain_steps by blast
  then show ?thesis
    by (simp add: validate_plan_def wire_chain_tokens wire_chain_limits wire_chain_order wire_chain_buffers
        wire_chain_aliases wire_chain_contracts wire_chain_rest wire_chain_produced wire_chain_identity flip: decode_start_def)
qed

lemma wire_chain_decodes:
  "from_aot_bytes (\<lambda>_ _. replicate 32 0) (\<lambda>_. Some (wire_chain, [])) MAGIC plan_limits_default = Ok wire_chain"
  by (simp add: from_aot_bytes_def strip_prefix_def wire_chain_valid guard_def MAGIC_def) (simp add: plan_limits_default_def)

theorem decoded_storage_is_safe_witness:
  "bp_last_consumer (p_buffers wire_chain ! 0) < bp_producer (p_buffers wire_chain ! 2) \<or>
   bp_last_consumer (p_buffers wire_chain ! 2) < bp_producer (p_buffers wire_chain ! 0)"
  using decoded_storage_is_safe [OF wire_chain_decodes, of 0 2]
  by (simp add: wire_chain_simps storage_root_def)

section \<open>Totals\<close>

definition workspace_of :: "compiled_node \<Rightarrow> nat" where
  "workspace_of node =
     unat (re_peak_bytes (cn_resources node)) + unat (re_scratch_bytes (cn_resources node)) +
     (if sc_scope (cn_state node) = ScopeInvocation then unat (sc_max_bytes (cn_state node)) else 0)"

lemma step_workspace_Ok: "step_workspace node = Ok w \<Longrightarrow> unat w = workspace_of node"
  by (auto simp: step_workspace_def workspace_of_def outcome_simps split: if_splits dest!: u64_checked_add_SomeD)

lemma check_buffers_sum:
  "try_fold (check_buffer plan) a entries = Ok bytes_sum \<Longrightarrow>
     unat bytes_sum = unat a + sum_list (map (\<lambda>b. unat (bp_capacity_bytes b)) (filter (\<lambda>b. bp_aliases b = None) (map snd entries)))"
proof (induction entries arbitrary: a)
  case (Cons e entries)
  then obtain a' where step: "check_buffer plan a e = Ok a'" and rest: "try_fold (check_buffer plan) a' entries = Ok bytes_sum"
    by (auto simp: outcome_simps)
  from step have "unat a' = unat a + (if bp_aliases (snd e) = None then unat (bp_capacity_bytes (snd e)) else 0)"
    by (auto simp: check_buffer_def outcome_simps split: if_splits dest: u64_checked_add_SomeD)
  with Cons.IH [OF rest] show ?case by simp
qed simp

lemma check_steps_workspace:
  "try_fold (check_step limits plan) scan entries = Ok scan' \<Longrightarrow>
     unat (ds_workspace_bytes scan') = Max (insert (unat (ds_workspace_bytes scan)) (workspace_of ` snd ` set entries))"
proof (induction entries arbitrary: scan)
  case (Cons e entries)
  then obtain mid where step: "check_step limits plan scan e = Ok mid"
    and rest: "try_fold (check_step limits plan) mid entries = Ok scan'"
    by (auto simp: outcome_simps)
  from step obtain w where w: "step_workspace (snd e) = Ok w" and mid: "ds_workspace_bytes mid = max (ds_workspace_bytes scan) w"
    by (cases e) (auto simp: check_step_def outcome_simps)
  have "unat (ds_workspace_bytes mid) = max (unat (ds_workspace_bytes scan)) (workspace_of (snd e))"
    using step_workspace_Ok [OF w] by (simp add: mid max_def word_le_nat_alt)
  moreover have "Max (insert (max m l) A) = max m (Max (insert l A))" if "finite A" for m l :: nat and A
    using that by (cases "A = {}") (simp_all add: max.assoc)
  ultimately show ?case using Cons.IH [OF rest] by simp
qed simp

lemma map_snd_enumerate_list [simp]: "map snd (enumerate_list xs) = xs"
  by (simp add: enumerate_list_def)

text \<open>
  C20. The peak memory a decoded plan declares is exact, with no wrap-around: it is the sum of the
  capacities of the distinct storages plus the largest workspace (peak, scratch and
  invocation-scoped state) of any one step, computed over the natural numbers, and it is within the
  limit the decoder was given. The plan's identity is the hash of its content.
\<close>

theorem decoded_peak_is_exact:
  assumes "from_aot_bytes H dec bs limits = Ok plan"
  shows "unat (p_peak_bytes plan) =
           sum_list (map (\<lambda>b. unat (bp_capacity_bytes b)) (filter (\<lambda>b. bp_aliases b = None) (p_buffers plan))) +
           Max (insert 0 (workspace_of ` set (p_nodes plan))) \<and>
         p_peak_bytes plan \<le> pl_max_peak_bytes limits \<and> length bs \<le> pl_max_bytes limits \<and>
         p_plan_id plan = hash_plan H plan"
proof -
  from from_aot_bytes_validated [OF assms] obtain buffer_bytes scan where
    limit: "check_limits limits plan = Ok ()" and
    buffers: "try_fold (check_buffer plan) 0 (enumerate_list (p_buffers plan)) = Ok buffer_bytes" and
    steps: "try_fold (check_step limits plan) decode_start (enumerate_list (p_nodes plan)) = Ok scan" and
    peak: "u64_checked_add buffer_bytes (ds_workspace_bytes scan) = Some (p_peak_bytes plan)" and
    id: "p_plan_id plan = hash_plan H plan"
    by (rule validate_plan_Ok)
  have "snd ` set (enumerate_list (p_nodes plan)) = set (p_nodes plan)"
    by (metis map_snd_enumerate_list set_map)
  with check_buffers_sum [OF buffers] check_steps_workspace [OF steps] u64_checked_add_SomeD [OF peak] limit id assms
  show ?thesis
    by (auto simp: decode_start_def check_limits_def from_aot_bytes_def outcome_simps not_less)
qed

theorem decoded_peak_is_exact_witness:
  "unat (p_peak_bytes wire_chain) =
     sum_list (map (\<lambda>b. unat (bp_capacity_bytes b)) (filter (\<lambda>b. bp_aliases b = None) (p_buffers wire_chain))) +
     Max (insert 0 (workspace_of ` set (p_nodes wire_chain)))"
  using decoded_peak_is_exact [OF wire_chain_decodes] by blast

section \<open>Round trip\<close>

text \<open>What the serializer documents: a value is read back from the front of any input it was written to.\<close>

definition faithful_codec :: "plan_encoder \<Rightarrow> plan_decoder \<Rightarrow> bool" where
  "faithful_codec enc dec = (\<forall>plan body rest. enc plan = Some body \<longrightarrow> dec (body @ rest) = Some (plan, rest))"

text \<open>
  C15. Encoding and decoding are inverse on exactly the valid plans that fit: decoding what was encoded
  returns the plan itself if it passes the checks and the bytes are within the limit, and otherwise
  the error of the first check that fails.
\<close>

theorem aot_round_trip:
  assumes "faithful_codec enc dec" and "to_aot_bytes enc plan = Ok bs"
  shows "from_aot_bytes H dec bs limits =
           (if length bs > pl_max_bytes limits then Err TooLarge else validate_plan H limits plan) \<and>
         (from_aot_bytes H dec bs limits = Ok plan' \<longrightarrow> plan' = plan)"
proof -
  from assms(2) obtain body where "enc plan = Some body" and bs: "bs = MAGIC @ body"
    by (auto simp: to_aot_bytes_def outcome_simps)
  with assms(1) have "dec (body @ []) = Some (plan, [])"
    unfolding faithful_codec_def by blast
  then have "from_aot_bytes H dec bs limits =
      (if length bs > pl_max_bytes limits then Err TooLarge else validate_plan H limits plan)"
    by (simp add: from_aot_bytes_def bs strip_prefix_def guard_def)
  then show ?thesis by (auto elim: validate_plan_Ok split: if_splits)
qed

theorem aot_round_trip_witness:
  "from_aot_bytes (\<lambda>_ _. replicate 32 0) (\<lambda>bs. Some (wire_chain, bs)) MAGIC plan_limits_default =
     (if length MAGIC > pl_max_bytes plan_limits_default then Err TooLarge
      else validate_plan (\<lambda>_ _. replicate 32 0) plan_limits_default wire_chain)"
  by (rule aot_round_trip [where enc = "\<lambda>p. if p = wire_chain then Some [] else None", THEN conjunct1])
    (simp_all add: faithful_codec_def to_aot_bytes_def)

section \<open>Decoding never panics\<close>

lemma buffer_invalid_safe:
  assumes "i < length (p_buffers plan)"
  shows "safe (buffer_invalid plan i buffer)"
proof -
  have roots: "safe (case bp_aliases buffer of None \<Rightarrow> Ok False | Some al \<Rightarrow> any_of
       [Ok (al \<ge> bp_id buffer),
        and_then (index (p_buffers plan) (unat al)) (\<lambda>root. Ok (bp_aliases root \<noteq> None)),
        and_then (index (p_buffers plan) (unat al)) (\<lambda>root. Ok (bp_layout root \<noteq> bp_layout buffer)),
        and_then (index (p_buffers plan) (unat al)) (\<lambda>root. Ok (bp_capacity_bytes root < bp_capacity_bytes buffer))])"
    if "unat (bp_id buffer) = i"
  proof (cases "bp_aliases buffer")
    case (Some al)
    have "unat al < length (p_buffers plan)" if "\<not> al \<ge> bp_id buffer"
      using that \<open>unat (bp_id buffer) = i\<close> assms by (simp add: word_le_nat_alt)
    then show ?thesis
      unfolding Some option.case by (intro safe_any_of safe_index_then) simp_all
  qed simp
  show ?thesis
    unfolding buffer_invalid_def
    by (intro safe_any_of safe_index_then safe_any_in) (use roots in auto)
qed

lemma check_buffer_safe: "e \<in> set (enumerate_list (p_buffers plan)) \<Longrightarrow> safe (check_buffer plan a e)"
  unfolding check_buffer_def
  by (cases e) (auto simp: set_enumerate_list intro!: safe_and_then buffer_invalid_safe)

lemma step_invalid_safe: "safe (step_invalid limits plan i node)"
proof -
  have mismatch_in: "safe (any_in (input_mismatch plan) (zip (cn_input_bindings node) (cn_input_contracts node)))"
    and unlisted_in: "safe (any_in (input_unlisted plan node) (cn_input_bindings node))"
    if "\<not> (\<exists>binding \<in> set (cn_input_bindings node). case binding of InBuffer b \<Rightarrow> unat b \<ge> length (p_buffers plan) | _ \<Rightarrow> False)"
    using that
    by (auto intro!: safe_any_in safe_index_then simp: input_mismatch_def input_unlisted_def
        not_le split: input_binding.splits dest!: set_zip_leftD)
  have mismatch_out: "safe (any_in (output_mismatch plan) (zip (cn_output_bindings node) (cn_output_contracts node)))"
    and unlisted_out: "safe (any_in (output_unlisted plan node) (cn_output_bindings node))"
    if "\<not> (\<exists>binding \<in> set (cn_output_bindings node). case binding of OutBuffer b \<Rightarrow> unat b \<ge> length (p_buffers plan) | Terminal \<Rightarrow> False)"
    using that
    by (auto intro!: safe_any_in safe_index_then simp: output_mismatch_def output_unlisted_def
        not_le split: output_binding.splits dest!: set_zip_leftD)
  show ?thesis
    unfolding step_invalid_def Let_def
    by (intro safe_any_of mismatch_in mismatch_out unlisted_in unlisted_out)
qed

lemma check_conversion_safe:
  assumes "step_valid plan i node" and "cn_conversion node = Some conversion"
  shows "safe (check_conversion plan node conversion)"
proof -
  have one: "length (cn_input_bindings node) = 1" "length (cn_output_bindings node) = 1"
    "length (cn_input_contracts node) = 1" "length (cn_output_contracts node) = 1"
    using assms by (auto simp: step_valid_def conversion_step_invalid_def)
  then have mem: "cn_input_bindings node ! 0 \<in> set (cn_input_bindings node)" "cn_output_bindings node ! 0 \<in> set (cn_output_bindings node)"
    by simp_all
  have first: "index (cn_input_bindings node) 0 = Ok (cn_input_bindings node ! 0)"
    "index (cn_output_bindings node) 0 = Ok (cn_output_bindings node ! 0)"
    by (simp_all add: index_def one)
  show ?thesis
  proof (cases "cn_input_bindings node ! 0"; cases "cn_output_bindings node ! 0")
    fix b c
    assume b: "cn_input_bindings node ! 0 = InBuffer b" and c: "cn_output_bindings node ! 0 = OutBuffer c"
    have "unat b < length (p_buffers plan)" "unat c < length (p_buffers plan)"
      using assms(1) mem b c by (auto simp: step_valid_def)
    then show ?thesis
      unfolding check_conversion_def first and_then.simps b c prod.case input_binding.case output_binding.case
      by (intro safe_index_then safe_and_then safe_any_of safe_guard) (simp_all add: one index_def)
  qed (simp_all add: check_conversion_def first)
qed

lemma check_step_safe: "safe (check_step limits plan scan e)"
proof -
  have new: "safe (try_fold insert_new used xs)" for used xs :: "u32 list"
    by (rule safe_try_fold) (simp add: insert_new_def)
  have workspace: "safe (step_workspace node)" for node
    by (auto simp: step_workspace_def intro!: safe_and_then)
  obtain i node where e: "e = (i, node)" by fastforce
  show ?thesis
    unfolding check_step_def e Let_def prod.case
  proof (intro safe_and_then new step_invalid_safe workspace)
    fix invalid u state_bytes
    assume "step_invalid limits plan i node = Ok invalid" and "guard invalid InvalidPlan = Ok u"
    then have "step_valid plan i node" by (auto simp: outcome_simps intro: step_invalid_False)
    then show "safe (case cn_conversion node of Some conversion \<Rightarrow> check_conversion plan node conversion | None \<Rightarrow> Ok ())"
      by (auto split: option.splits intro: check_conversion_safe)
  qed simp_all
qed

lemma check_buffer_contracts_safe:
  assumes "well_formed_plan plan" and "buffer \<in> set (p_buffers plan)"
  shows "safe (check_buffer_contracts plan buffer)"
proof -
  have producer: "unat (bp_producer buffer) < length (p_nodes plan)"
    and consumers: "\<And>c. c \<in> set (bp_consumers buffer) \<Longrightarrow> unat c < length (p_nodes plan)"
    using well_formed_buffer [OF assms] by (auto simp: buffer_valid_def)
  have port: "safe (check_consumer_port buffer contract consumer matched entry)"
    if "consumer \<in> set (p_nodes plan)" "entry \<in> set (zip [0..<length (cn_input_bindings consumer)] (cn_input_bindings consumer))"
    for contract consumer matched entry
  proof -
    have "length (cn_input_contracts consumer) = length (cn_input_bindings consumer)"
      using well_formed_step [OF assms(1) that(1)] by (auto simp: step_valid_def)
    moreover from that(2) have "fst entry < length (cn_input_bindings consumer)"
      by (metis atLeastLessThan_iff set_upt set_zip_leftD prod.collapse)
    ultimately show ?thesis
      by (auto simp: check_consumer_port_def intro!: safe_and_then safe_index)
  qed
  show ?thesis
    unfolding check_buffer_contracts_def
    using producer consumers
    by (intro safe_index_then safe_and_then safe_ok_or safe_try_fold safe_guard port) (auto simp: outcome_simps)
qed

lemma feedback_invalid_safe:
  assumes "well_formed_plan plan"
  shows "safe (feedback_invalid plan i feedback)"
proof -
  define out where "out = Option.bind (get (p_nodes plan) (unat (fp_from_step feedback)))
            (\<lambda>node. get (cn_output_contracts node) (unat (fp_from_port feedback)))"
  define inp where "inp = Option.bind (get (p_nodes plan) (unat (fp_to_step feedback)))
            (\<lambda>node. get (cn_input_contracts node) (unat (fp_to_port feedback)))"
  have port: "unat (fp_to_step feedback) < length (p_nodes plan) \<and>
      unat (fp_to_port feedback) < length (cn_input_bindings (p_nodes plan ! unat (fp_to_step feedback)))"
    if "inp \<noteq> None"
    using that assms by (auto simp: inp_def get_def well_formed_plan_def step_valid_def split: if_splits)
  have both: "safe (and_then (expect out) (\<lambda>out. and_then (expect inp) (\<lambda>inp. Ok (\<not> compiled_port_contract_satisfies out inp))))"
    if "\<not> out = None" "\<not> inp = None"
    using that by auto
  show ?thesis
    unfolding feedback_invalid_def Let_def out_def [symmetric] inp_def [symmetric]
    by (intro safe_any_of safe_index_then both) (use port in auto)
qed

lemma count_produced_safe:
  assumes "\<And>b. OutBuffer b \<in> set bindings \<Longrightarrow> unat b < n"
  shows "safely (try_fold count_produced (replicate n 0) bindings) (\<lambda>produced. length produced = n)"
proof (rule safely_try_fold)
  fix produced :: "u8 list" and binding
  assume "binding \<in> set bindings" and "length produced = n"
  with assms show "safely (count_produced produced binding) (\<lambda>produced. length produced = n)"
    by (cases binding) (auto simp: count_produced_def index_def safely_def)
qed simp

lemma check_produced_safe:
  assumes "well_formed_plan plan"
  shows "safe (check_produced plan)"
proof -
  have "unat b < length (p_buffers plan)" if "OutBuffer b \<in> set (concat (map cn_output_bindings (p_nodes plan)))" for b
    using that by (auto dest!: well_formed_step [OF assms] simp: step_valid_def)
  then have "safe (try_fold count_produced (replicate (length (p_buffers plan)) 0) (concat (map cn_output_bindings (p_nodes plan))))"
    by (rule safely_mono [OF count_produced_safe]) auto
  then show ?thesis
    unfolding check_produced_def by (intro safe_and_then safe_guard)
qed

lemma validate_plan_safe: "safe (validate_plan H limits plan)"
  unfolding validate_plan_def
proof (intro safe_and_then)
  show "safe (try_fold (check_buffer plan) 0 (enumerate_list (p_buffers plan)))"
    by (intro safe_try_fold check_buffer_safe)
  show "safe (try_fold (check_step limits plan) \<lparr>ds_workspace_bytes = 0, ds_failure_entries = 0,
      ds_used_invocations = [], ds_used_feedback = [], ds_state_bytes = 0\<rparr> (enumerate_list (p_nodes plan)))"
    by (intro safe_try_fold check_step_safe)
next
  fix u1 u2 u3 u4 u5 u6 buffer_bytes scan
  assume "check_limits limits plan = Ok u2" "check_order plan = Ok u3"
    and buffers: "try_fold (check_buffer plan) 0 (enumerate_list (p_buffers plan)) = Ok buffer_bytes"
    and steps: "try_fold (check_step limits plan) \<lparr>ds_workspace_bytes = 0, ds_failure_entries = 0,
      ds_used_invocations = [], ds_used_feedback = [], ds_state_bytes = 0\<rparr> (enumerate_list (p_nodes plan)) = Ok scan"
  then have wf: "well_formed_plan plan"
    by (auto simp: well_formed_plan_def check_buffers_ok check_steps_ok check_order_Ok check_limits_def outcome_simps
        strictly_sorted_sorted)
  show "safe (try_fold (\<lambda>_. check_buffer_contracts plan) () (p_buffers plan))"
    by (intro safe_try_fold check_buffer_contracts_safe [OF wf])
  show "safe (try_fold (check_feedback plan) (ds_state_bytes scan) (enumerate_list (p_feedback plan)))"
    by (intro safe_try_fold) (auto simp: check_feedback_def intro!: safe_and_then feedback_invalid_safe [OF wf])
  show "safe (check_produced plan)"
    by (rule check_produced_safe [OF wf])
qed (auto simp: check_tokens_def check_limits_def check_order_def check_aliases_def check_usage_def check_state_def
    check_identity_def Let_def intro!: safe_and_then)
lemma from_aot_bytes_safe: "safe (from_aot_bytes H dec bs limits)"
  unfolding from_aot_bytes_def by (auto intro!: safe_and_then validate_plan_safe)

text \<open>
  C21. Decoding is total on untrusted input: whatever the bytes, the limits and the value the
  serializer reads from them, the decoder returns a plan or an error. No index is out of range, every
  arithmetic overflow is an error, and no lookup that the source expects to succeed can fail.
\<close>

theorem from_aot_bytes_never_panics: "from_aot_bytes H dec bs limits \<noteq> Panic"
  by (rule safely_not_Panic [OF from_aot_bytes_safe])

end
