(* ===== verification/Topology.thy ===== *)
theory Topology
  imports Contracts Samples
begin

text \<open>
  Same-invocation ordering: \<open>topological_order\<close> and \<open>subgraph_is_acyclic\<close> of \<open>compile.rs\<close>. Both are
  Kahn's algorithm, one over a \<open>BTreeSet\<close> of ready nodes (always taking the least), one over a
  \<open>Vec\<close> used as a stack. The correctness of the loop is proved once, in the locale \<open>kahn\<close>, from
  the loop's own equation and the laws of its worklist, and interpreted for both.
\<close>

section \<open>\<open>topological_order\<close>\<close>

type_synonym degrees = "(node_id, usize) btree_map"
type_synonym successors = "(node_id, node_id list) btree_map"

definition zero_degrees :: "node_id list \<Rightarrow> degrees" where
  "zero_degrees ids = bt_collect (map (\<lambda>i. (i, 0)) ids)"

definition topo_edge ::
    "degrees \<times> successors \<Rightarrow> edge \<Rightarrow> (compile_error, degrees \<times> successors) outcome" where
  "topo_edge s e =
     (let (indegree, outgoing) = s; from_node = pr_node (edge_from e); to_node = pr_node (edge_to e)
      in if \<not> bt_contains indegree from_node \<or> \<not> bt_contains indegree to_node
         then Err (UnknownNode (if \<not> bt_contains indegree from_node then from_node else to_node))
         else and_then (expect (bt_get indegree to_node))
           (\<lambda>_. Ok (bt_adjust to_node Suc indegree, bt_push from_node to_node outgoing)))"

definition sort_successors :: "successors \<Rightarrow> successors" where
  "sort_successors outgoing = map (\<lambda>(k, vs). (k, sort vs)) outgoing"

definition zero_nodes :: "degrees \<Rightarrow> node_id list" where
  "zero_nodes indegree = map fst (filter (\<lambda>e. snd e = 0) indegree)"

text \<open>
  One decrement of the inner loop. A missing key panics (\<open>expect\<close>), and so does an underflow of
  the \<open>usize\<close> degree.
\<close>

definition topo_release ::
    "degrees \<times> node_id list \<Rightarrow> node_id \<Rightarrow> (compile_error, degrees \<times> node_id list) outcome" where
  "topo_release s t =
     (let (indegree, ready) = s
      in case bt_get indegree t of
           None \<Rightarrow> Panic
         | Some 0 \<Rightarrow> Panic
         | Some (Suc n) \<Rightarrow>
             Ok (bt_adjust t (\<lambda>d. d - 1) indegree, if n = 0 then insort_insert t ready else ready))"

definition successors_of :: "successors \<Rightarrow> node_id \<Rightarrow> node_id list" where
  "successors_of outgoing i = (case bt_get outgoing i of Some next \<Rightarrow> next | None \<Rightarrow> [])"

lemma sum_adjust_pred_le:
  "sum_list (map snd (bt_adjust t (\<lambda>d. d - (1::nat)) m)) \<le> sum_list (map snd m)"
  by (induction m) (auto simp: bt_adjust_def)

lemma sum_adjust_pred_less:
  "bt_get d t = Some (Suc n) \<Longrightarrow>
     sum_list (map snd (bt_adjust t (\<lambda>d. d - 1) d)) < sum_list (map snd d)"
proof (induction d)
  case Nil
  then show ?case by (simp add: bt_get_def)
next
  case (Cons e d)
  then show ?case
    using sum_adjust_pred_le [of t d]
    by (cases e) (auto simp: bt_get_def bt_adjust_def split: if_splits)
qed

text \<open>
  Every iteration of the outer loop takes a node from \<open>ready\<close>, and every insertion into \<open>ready\<close> is
  paid by a decrement, so the total degree plus the size of \<open>ready\<close> goes down.
\<close>

definition topo_measure :: "degrees \<times> node_id list \<Rightarrow> nat" where
  "topo_measure s = sum_list (map snd (fst s)) + length (snd s)"

lemma topo_release_measure:
  assumes "topo_release s t = Ok s'"
  shows "topo_measure s' \<le> topo_measure s"
proof -
  obtain d r n where s: "s = (d, r)" and n: "bt_get d t = Some (Suc n)"
    and s': "s' = (bt_adjust t (\<lambda>d. d - 1) d, if n = 0 then insort_insert t r else r)"
    using assms by (cases s) (auto simp: topo_release_def split: option.splits nat.splits)
  have "length (insort_insert t r) \<le> Suc (length r)"
    by (simp add: insort_insert_key_def)
  with sum_adjust_pred_less [OF n] show ?thesis
    by (auto simp: s s' topo_measure_def)
qed

lemmas topo_releases_measure =
  try_fold_measure [of topo_release topo_measure, OF topo_release_measure]

function topo_loop ::
    "successors \<Rightarrow> degrees \<Rightarrow> node_id list \<Rightarrow> node_id list \<Rightarrow> (compile_error, node_id list) outcome" where
  "topo_loop outgoing indegree ready result =
     (case ready of
        [] \<Rightarrow> Ok result
      | i # rest \<Rightarrow>
          and_then (try_fold topo_release (indegree, rest) (successors_of outgoing i))
            (\<lambda>s. topo_loop outgoing (fst s) (snd s) (result @ [i])))"
  by pat_completeness auto
termination
proof (relation "measure (\<lambda>(_, d, r, _). topo_measure (d, r))", goal_cases)
  case 1
  show ?case by simp
next
  case (2 outgoing indegree ready result i rest s)
  then have "topo_measure s \<le> topo_measure (indegree, rest)"
    using topo_releases_measure by fastforce
  with 2 show ?case by (simp add: topo_measure_def)
qed

declare topo_loop.simps [simp del]

definition topological_order_of :: "node_id list \<Rightarrow> edge list \<Rightarrow> (compile_error, node_id list) outcome" where
  "topological_order_of ids edges =
     and_then (try_fold topo_edge (zero_degrees ids, bt_empty) edges)
       (\<lambda>(indegree, outgoing).
          and_then (topo_loop (sort_successors outgoing) indegree (zero_nodes indegree) [])
            (\<lambda>result. if length result \<noteq> length indegree then Err Cycle else Ok result))"

definition topological_order :: "graph \<Rightarrow> (compile_error, node_id list) outcome" where
  "topological_order g = topological_order_of (map ni_id (g_nodes g)) (g_edges g)"

section \<open>\<open>subgraph_is_acyclic\<close>\<close>

text \<open>The early \<open>return false\<close> of the source is \<open>Err ()\<close> here; the caller turns it into \<open>False\<close>.\<close>

definition acyclic_edge ::
    "degrees \<times> successors \<Rightarrow> edge \<Rightarrow> (unit, degrees \<times> successors) outcome" where
  "acyclic_edge s e =
     (let (indegree, outgoing) = s
      in case bt_get indegree (pr_node (edge_to e)) of
           None \<Rightarrow> Err ()
         | Some _ \<Rightarrow> Ok (bt_adjust (pr_node (edge_to e)) Suc indegree,
                        bt_push (pr_node (edge_from e)) (pr_node (edge_to e)) outgoing))"

definition acyclic_release ::
    "degrees \<times> node_id list \<Rightarrow> node_id \<Rightarrow> (unit, degrees \<times> node_id list) outcome" where
  "acyclic_release s t =
     (let (indegree, ready) = s
      in case bt_get indegree t of
           None \<Rightarrow> Err ()
         | Some 0 \<Rightarrow> Panic
         | Some (Suc n) \<Rightarrow>
             Ok (bt_adjust t (\<lambda>d. d - 1) indegree, if n = 0 then ready @ [t] else ready))"

lemma acyclic_release_measure:
  assumes "acyclic_release s t = Ok s'"
  shows "topo_measure s' \<le> topo_measure s"
proof -
  obtain d r n where s: "s = (d, r)" and n: "bt_get d t = Some (Suc n)"
    and s': "s' = (bt_adjust t (\<lambda>d. d - 1) d, if n = 0 then r @ [t] else r)"
    using assms by (cases s) (auto simp: acyclic_release_def split: option.splits nat.splits)
  have "length (r @ [t]) \<le> Suc (length r)"
    by (simp)
  with sum_adjust_pred_less [OF n] show ?thesis
    by (auto simp: s s' topo_measure_def)
qed

lemmas acyclic_releases_measure =
  try_fold_measure [of acyclic_release topo_measure, OF acyclic_release_measure]

function acyclic_loop ::
    "successors \<Rightarrow> degrees \<Rightarrow> node_id list \<Rightarrow> usize \<Rightarrow> (unit, usize) outcome" where
  "acyclic_loop outgoing indegree ready visited =
     (if ready = [] then Ok visited
      else and_then (try_fold acyclic_release (indegree, butlast ready) (successors_of outgoing (last ready)))
        (\<lambda>s. acyclic_loop outgoing (fst s) (snd s) (visited + 1)))"
  by pat_completeness auto
termination
proof (relation "measure (\<lambda>(_, d, r, _). topo_measure (d, r))", goal_cases)
  case 1
  show ?case by simp
next
  case (2 outgoing indegree ready visited s)
  then have "topo_measure s \<le> topo_measure (indegree, butlast ready)"
    using acyclic_releases_measure by fastforce
  moreover have "length (butlast ready) < length ready"
    using 2 by simp
  ultimately show ?case by (simp add: topo_measure_def)
qed

declare acyclic_loop.simps [simp del]

definition subgraph_is_acyclic :: "subgraph_schema \<Rightarrow> ('e, bool) outcome" where
  "subgraph_is_acyclic schema =
     (case and_then (try_fold acyclic_edge (zero_degrees (map sn_id (ss_nodes schema)), bt_empty) (ss_edges schema))
             (\<lambda>(indegree, outgoing). acyclic_loop outgoing indegree (zero_nodes indegree) 0) of
        Ok visited \<Rightarrow> Ok (visited = length (ss_nodes schema))
      | Err _ \<Rightarrow> Ok False
      | Panic \<Rightarrow> Panic)"

section \<open>Kahn's algorithm, abstractly\<close>

text \<open>
  The specification: repeatedly take, by the policy \<open>pick\<close>, one of the nodes whose predecessors
  have all been taken, until there is none.
\<close>

definition ready_nodes :: "(node_id \<times> node_id) set \<Rightarrow> node_id set \<Rightarrow> node_id set \<Rightarrow> node_id set" where
  "ready_nodes R V D = {v \<in> V - D. \<forall>u. (u, v) \<in> R \<longrightarrow> u \<in> D}"

fun kahn_order ::
    "(node_id set \<Rightarrow> node_id \<Rightarrow> bool) \<Rightarrow> (node_id \<times> node_id) set \<Rightarrow> node_id set \<Rightarrow> node_id set \<Rightarrow> node_id list \<Rightarrow> bool" where
  "kahn_order pick R V D [] \<longleftrightarrow> ready_nodes R V D = {}"
| "kahn_order pick R V D (x # xs) \<longleftrightarrow>
     x \<in> ready_nodes R V D \<and> pick (ready_nodes R V D) x \<and> kahn_order pick R V (insert x D) xs"

lemma kahn_order_distinct:
  "kahn_order pick R V D order \<Longrightarrow> distinct order \<and> set order \<subseteq> V - D"
  by (induction order arbitrary: D) (auto simp: ready_nodes_def)

lemma kahn_order_exhausts:
  "kahn_order pick R V D order \<Longrightarrow> ready_nodes R V (D \<union> set order) = {}"
proof (induction order arbitrary: D)
  case (Cons x xs)
  then show ?case using Cons.IH [of "insert x D"] by simp
qed simp

lemma kahn_order_nth:
  "kahn_order pick R V D order \<Longrightarrow> i < length order \<Longrightarrow>
     order ! i \<in> ready_nodes R V (D \<union> set (take i order)) \<and>
     pick (ready_nodes R V (D \<union> set (take i order))) (order ! i)"
proof (induction order arbitrary: D i)
  case Nil
  then show ?case by simp
next
  case (Cons x xs)
  then show ?case
    by (cases i) (auto dest: Cons.IH)
qed

lemma kahn_order_forward:
  assumes "kahn_order pick R V {} order" and "(u, v) \<in> R" and "j < length order" and "order ! j = v"
  shows "\<exists>i<j. order ! i = u"
proof -
  have "u \<in> set (take j order)"
    using kahn_order_nth [OF assms(1,3)] assms(2,4) by (auto simp: ready_nodes_def)
  then show ?thesis
    using assms(3) by (auto simp: in_set_conv_nth)
qed

text \<open>When the policy determines its choice, the order is determined.\<close>

lemma kahn_order_unique:
  assumes "\<And>S x y. pick S x \<Longrightarrow> pick S y \<Longrightarrow> x = y"
  shows "kahn_order pick R V D xs \<Longrightarrow> kahn_order pick R V D ys \<Longrightarrow> xs = ys"
proof (induction xs arbitrary: D ys)
  case Nil
  then show ?case by (cases ys) auto
next
  case (Cons x xs)
  then obtain y ys' where "ys = y # ys'" and "pick (ready_nodes R V D) y"
    by (cases ys) auto
  moreover from this Cons.prems assms have "y = x" by auto
  ultimately show ?case using Cons.prems Cons.IH [of "insert x D" ys'] by simp
qed

lemma kahn_order_complete_iff:
  assumes order: "kahn_order pick R V {} order" and "finite R" and targets: "snd ` R \<subseteq> V"
  shows "set order = V \<longleftrightarrow> acyclic R \<and> fst ` R \<subseteq> V"
proof
  assume all: "set order = V"
  define pos where "pos v = (LEAST i. order ! i = v)" for v
  have dist: "distinct order" and sub: "set order \<subseteq> V"
    using kahn_order_distinct [OF order] by auto
  have pos: "pos (order ! i) = i" if "i < length order" for i
    unfolding pos_def using that dist
    by (intro Least_equality) (metis nth_eq_iff_index_eq not_less order_less_trans order_refl)+
  have forward: "pos u < pos v \<and> u \<in> V" if uv: "(u, v) \<in> R" for u v
  proof -
    have "v \<in> set order" using uv targets all by force
    then obtain j where j: "j < length order" "order ! j = v" by (auto simp: in_set_conv_nth)
    then obtain i where "i < j" "order ! i = u" using kahn_order_forward [OF order uv] by blast
    with j pos [of i] pos [of j] all nth_mem [of i order] show ?thesis by auto
  qed
  have "acyclic (R\<inverse>)"
    by (rule acyclicI_order [where f = pos]) (use forward in auto)
  then show "acyclic R \<and> fst ` R \<subseteq> V"
    using forward by auto
next
  assume ac: "acyclic R \<and> fst ` R \<subseteq> V"
  have "V - set order = {}"
  proof (rule ccontr)
    assume ne: "V - set order \<noteq> {}"
    have "wf R" using \<open>finite R\<close> ac by (simp add: finite_acyclic_wf)
    then obtain v where v: "v \<in> V - set order" and least: "\<And>u. (u, v) \<in> R \<Longrightarrow> u \<notin> V - set order"
      using ne by (meson wfE_min')
    have "v \<in> ready_nodes R V (set order)"
      using v least ac by (force simp: ready_nodes_def)
    then show False
      using kahn_order_exhausts [OF order] by simp
  qed
  with kahn_order_distinct [OF order] show "set order = V" by auto
qed

section \<open>The worklist loop\<close>

text \<open>The number of unprocessed edges into \<open>v\<close>, what the degree map holds for \<open>v\<close>.\<close>

definition pending_in :: "(node_id \<times> node_id) list \<Rightarrow> node_id set \<Rightarrow> node_id \<Rightarrow> nat" where
  "pending_in E D v = length (filter (\<lambda>(u, w). w = v \<and> u \<notin> D) E)"

lemma pending_in_eq_0_iff: "pending_in E D v = 0 \<longleftrightarrow> (\<forall>u. (u, v) \<in> set E \<longrightarrow> u \<in> D)"
  by (auto simp: pending_in_def filter_empty_conv)

lemma pending_in_insert:
  "i \<notin> D \<Longrightarrow> pending_in E D v = pending_in E (insert i D) v + count_list E (i, v)"
  by (induction E) (auto simp: pending_in_def)

lemma ready_nodes_pending: "ready_nodes (set E) V D = {v \<in> V - D. pending_in E D v = 0}"
  by (auto simp: ready_nodes_def pending_in_eq_0_iff)

definition successors_ok :: "successors \<Rightarrow> (node_id \<times> node_id) list \<Rightarrow> bool" where
  "successors_ok out E \<longleftrightarrow> (\<forall>u v. count_list (successors_of out u) v = count_list E (u, v))"

locale kahn =
  fixes elems :: "'w \<Rightarrow> node_id set"
    and valid :: "'w \<Rightarrow> bool"
    and pop :: "'w \<Rightarrow> (node_id \<times> 'w) option"
    and push :: "node_id \<Rightarrow> 'w \<Rightarrow> 'w"
    and pick :: "node_id set \<Rightarrow> node_id \<Rightarrow> bool"
    and release :: "degrees \<times> 'w \<Rightarrow> node_id \<Rightarrow> ('e, degrees \<times> 'w) outcome"
    and emit :: "'r \<Rightarrow> node_id \<Rightarrow> 'r"
    and loop :: "successors \<Rightarrow> degrees \<Rightarrow> 'w \<Rightarrow> 'r \<Rightarrow> ('e, 'r) outcome"
  assumes pop_None: "pop w = None \<Longrightarrow> elems w = {}"
    and pop_Some: "valid w \<Longrightarrow> pop w = Some (i, w') \<Longrightarrow>
      i \<in> elems w \<and> elems w' = elems w - {i} \<and> valid w' \<and> pick (elems w) i"
    and push: "valid w \<Longrightarrow> t \<notin> elems w \<Longrightarrow> elems (push t w) = insert t (elems w) \<and> valid (push t w)"
    and release: "bt_get d t = Some (Suc n) \<Longrightarrow>
      release (d, w) t = Ok (bt_adjust t (\<lambda>d. d - 1) d, if n = 0 then push t w else w)"
    and loop: "loop out d w r =
      (case pop w of
         None \<Rightarrow> Ok r
       | Some (i, w') \<Rightarrow>
           and_then (try_fold release (d, w') (successors_of out i))
             (\<lambda>s. loop out (fst s) (snd s) (emit r i)))"
begin

lemma release_all:
  assumes "\<And>v. v \<in> V \<Longrightarrow> bt_get d v = Some (c v + count_list ts v)"
    and "set ts \<subseteq> V - D" and "valid w" and "elems w = {v \<in> V - D. c v + count_list ts v = 0}"
  shows "\<exists>d' w'. try_fold release (d, w) ts = Ok (d', w') \<and> (\<forall>v\<in>V. bt_get d' v = Some (c v)) \<and>
           valid w' \<and> elems w' = {v \<in> V - D. c v = 0}"
  using assms
proof (induction ts arbitrary: d w)
  case Nil
  then show ?case by auto
next
  case (Cons t ts)
  let ?n = "c t + count_list ts t"
  let ?d = "bt_adjust t (\<lambda>d. d - 1) d" and ?w = "if ?n = 0 then push t w else w"
  have t: "t \<in> V - D" and "bt_get d t = Some (Suc ?n)" and "t \<notin> elems w"
    using Cons.prems by auto
  then have step: "release (d, w) t = Ok (?d, ?w)" and new: "elems (push t w) = insert t (elems w)"
    and valid: "valid (push t w)"
    using release push Cons.prems(3) by blast+
  have "bt_get ?d v = Some (c v + count_list ts v)" if "v \<in> V" for v
    using Cons.prems(1) [OF that] by (auto simp: bt_get_adjust)
  moreover have "elems ?w = {v \<in> V - D. c v + count_list ts v = 0}"
    using Cons.prems(4) t new by (auto split: if_splits)
  ultimately show ?case
    using Cons.IH [of ?d ?w] Cons.prems(2,3) step valid by auto
qed

lemma loop_is_kahn_order:
  assumes "finite V" and "snd ` set E \<subseteq> V" and out: "successors_ok out E"
    and "\<And>v. v \<in> V \<Longrightarrow> bt_get d v = Some (pending_in E D v)"
    and "valid w" and "elems w = ready_nodes (set E) V D"
    and "\<And>v. v \<in> D \<Longrightarrow> pending_in E D v = 0"
  shows "\<exists>order. loop out d w r = Ok (foldl emit r order) \<and> kahn_order pick (set E) V D order"
  using assms(4-)
proof (induction "card (V - D)" arbitrary: D d w r rule: less_induct)
  case less
  show ?case
  proof (cases "pop w")
    case None
    then have "loop out d w r = Ok (foldl emit r [])" and "kahn_order pick (set E) V D []"
      using less.prems pop_None by (simp_all add: loop)
    then show ?thesis by blast
  next
    case (Some p)
    then obtain i w' where pop: "pop w = Some (i, w')" by (cases p) auto
    let ?D = "insert i D" and ?ts = "successors_of out i"
    have i: "i \<in> ready_nodes (set E) V D" "pick (ready_nodes (set E) V D) i" "valid w'"
      and rest: "elems w' = ready_nodes (set E) V D - {i}"
      using pop_Some [OF less.prems(2) pop] less.prems(3) by auto
    then have iV: "i \<in> V - D" and i0: "pending_in E D i = 0"
      by (auto simp: ready_nodes_pending)
    have count: "count_list ?ts v = count_list E (i, v)" for v
      using out by (simp add: successors_ok_def)
    have ts: "set ?ts \<subseteq> V - ?D"
    proof
      fix v assume "v \<in> set ?ts"
      then have e: "(i, v) \<in> set E" using count [of v] by (metis count_list_0_iff)
      then have "v \<in> V" using assms(2) by force
      moreover have "pending_in E D v \<noteq> 0" using e iV by (auto simp: pending_in_eq_0_iff)
      ultimately show "v \<in> V - ?D" using i0 less.prems(4) by auto
    qed
    have split: "pending_in E D v = pending_in E ?D v + count_list ?ts v" for v
      using pending_in_insert [of i D E v] iV by (simp add: count)
    have "\<exists>d' w''. try_fold release (d, w') ?ts = Ok (d', w'') \<and>
        (\<forall>v\<in>V. bt_get d' v = Some (pending_in E ?D v)) \<and> valid w'' \<and>
        elems w'' = {v \<in> V - ?D. pending_in E ?D v = 0}"
    proof (rule release_all)
      show "elems w' = {v \<in> V - ?D. pending_in E ?D v + count_list ?ts v = 0}"
        unfolding rest ready_nodes_pending split [symmetric] by auto
    qed (use less.prems(1) split ts i in auto)
    then obtain d' w'' where rel: "try_fold release (d, w') ?ts = Ok (d', w'')"
      and d': "\<And>v. v \<in> V \<Longrightarrow> bt_get d' v = Some (pending_in E ?D v)"
      and w'': "valid w''" "elems w'' = ready_nodes (set E) V ?D"
      by (auto simp: ready_nodes_pending)
    have "card (V - ?D) < card (V - D)"
      using \<open>finite V\<close> iV by (intro psubset_card_mono) auto
    moreover have "pending_in E ?D v = 0" if "v \<in> ?D" for v
      using that i0 less.prems(4) split [of v] by auto
    ultimately obtain order where "loop out d' w'' (emit r i) = Ok (foldl emit (emit r i) order)"
      and "kahn_order pick (set E) V ?D order"
      using less.hyps [of ?D d' w'' "emit r i"] d' w'' by blast
    then have "loop out d w r = Ok (foldl emit r (i # order))" and "kahn_order pick (set E) V D (i # order)"
      using rel i by (simp_all add: loop [of out d w] pop outcome_simps)
    then show ?thesis by blast
  qed
qed

end

interpretation topo: kahn set "\<lambda>w. sorted w \<and> distinct w"
  "\<lambda>w. case w of [] \<Rightarrow> None | i # w' \<Rightarrow> Some (i, w')" insort_insert "\<lambda>S x. x = Min S"
  topo_release "\<lambda>r i. r @ [i]" topo_loop
proof (unfold_locales, goal_cases)
  case (2 w i w')
  then have "i = Min (set w)" by (auto split: list.splits intro!: Min_eqI [symmetric])
  with 2 show ?case by (auto split: list.splits)
next
  case (3 w t)
  then show ?case by (simp add: set_insort_insert sorted_insort_insert distinct_insort_insert)
next
  case (4 d t n w)
  then show ?case by (simp add: topo_release_def)
next
  case (5 out d w r)
  show ?case by (subst topo_loop.simps) (simp split: list.splits)
qed (auto split: list.splits)

interpretation stack: kahn set distinct
  "\<lambda>w. if w = [] then None else Some (last w, butlast w)" "\<lambda>t w. w @ [t]" "\<lambda>_ _. True"
  acyclic_release "\<lambda>n _. n + 1" acyclic_loop
proof (unfold_locales, goal_cases)
  case (2 w i w')
  then have "w = w' @ [i]" by (auto split: if_splits)
  with 2 show ?case by auto
next
  case (4 d t n w)
  then show ?case by (simp add: acyclic_release_def)
next
  case (5 out d w r)
  show ?case by (subst acyclic_loop.simps) simp
qed (auto split: if_splits)

section \<open>The degree and successor maps\<close>

definition edge_pair :: "edge \<Rightarrow> node_id \<times> node_id" where
  "edge_pair e = (pr_node (edge_from e), pr_node (edge_to e))"

definition degree_table :: "node_id set \<Rightarrow> (node_id \<times> node_id) list \<Rightarrow> degrees \<times> successors \<Rightarrow> bool" where
  "degree_table V E s \<longleftrightarrow>
     bt_wf (fst s) \<and> bt_wf (snd s) \<and> successors_ok (snd s) E \<and>
     (\<forall>v. bt_get (fst s) v = (if v \<in> V then Some (pending_in E {} v) else None))"

lemma successors_of_push:
  "bt_wf m \<Longrightarrow> successors_of (bt_push u v m) w = (if w = u then successors_of m u @ [v] else successors_of m w)"
  by (simp add: successors_of_def bt_push_def bt_get_insert)

lemma degree_table_init: "degree_table (set ids) [] (zero_degrees ids, bt_empty)"
proof -
  have "map_of (rev (map (\<lambda>i. (i, 0::nat)) ids)) v = (if v \<in> set ids then Some 0 else None)" for v :: node_id
    using map_of_map_restrict [of "\<lambda>_. 0::nat" "rev ids"] by (simp add: rev_map restrict_map_def fun_eq_iff)
  then show ?thesis
    by (simp add: degree_table_def zero_degrees_def bt_get_collect successors_ok_def successors_of_def
        pending_in_def bt.wf_empty)
qed

lemma degree_table_edge:
  assumes "degree_table V E (d, out)" and "v \<in> V"
  shows "degree_table V (E @ [(u, v)]) (bt_adjust v Suc d, bt_push u v out)"
  using assms by (auto simp: degree_table_def bt_get_adjust successors_ok_def successors_of_push pending_in_def)

lemma degree_table_contains: "degree_table V E (d, out) \<Longrightarrow> bt_contains d v \<longleftrightarrow> v \<in> V"
  by (simp add: degree_table_def bt_contains_def)

lemma degree_table_length: "degree_table V E (d, out) \<Longrightarrow> length d = card V"
proof -
  assume t: "degree_table V E (d, out)"
  then have "set (bt_keys d) = V"
    using bt_contains_iff [of d] degree_table_contains [OF t] by (auto simp: degree_table_def)
  moreover have "distinct (bt_keys d)"
    using t bt_keys_in_order [of d] by (simp add: degree_table_def strict_sorted_iff)
  ultimately show ?thesis
    using distinct_card [of "bt_keys d"] by (simp add: bt_keys_def)
qed

lemma zero_nodes_ready:
  assumes t: "degree_table V E (d, out)"
  shows "sorted (zero_nodes d) \<and> distinct (zero_nodes d) \<and> set (zero_nodes d) = ready_nodes (set E) V {}"
proof -
  have "sorted_wrt (<) (map fst d)"
    using t by (simp add: degree_table_def bt_wf_def)
  then have "sorted_wrt (<) (zero_nodes d)"
    unfolding zero_nodes_def by (induction d) auto
  moreover have "set (zero_nodes d) = ready_nodes (set E) V {}"
  proof -
    have "v \<in> set (zero_nodes d) \<longleftrightarrow> bt_get d v = Some 0" for v
    proof -
      have "v \<in> set (zero_nodes d) \<longleftrightarrow> (v, 0) \<in> set d"
        by (force simp: zero_nodes_def)
      moreover have "bt_get d v = Some 0 \<longleftrightarrow> (v, 0) \<in> set d"
        using t by (intro bt.lookup_iff_entry) (simp add: degree_table_def)
      ultimately show ?thesis by simp
    qed
    with t show ?thesis
      by (auto simp: degree_table_def ready_nodes_pending split: if_splits)
  qed
  ultimately show ?thesis by (simp add: strict_sorted_iff)
qed

lemma successors_ok_sort: "successors_ok out E \<Longrightarrow> successors_ok (sort_successors out) E"
proof -
  have "successors_of (sort_successors m) u = sort (successors_of m u)" for m u
    by (simp add: successors_of_def sort_successors_def bt_get_def map_of_map split: option.splits)
  then show "successors_ok out E \<Longrightarrow> successors_ok (sort_successors out) E"
    by (simp add: successors_ok_def flip: count_mset)
qed

text \<open>Both folds build the table, each with its own check of the endpoints.\<close>

lemma topo_edge_table:
  assumes t: "degree_table V E (d, out)"
  shows "topo_edge (d, out) e =
    (let u = pr_node (edge_from e); v = pr_node (edge_to e)
     in if u \<in> V \<and> v \<in> V then Ok (bt_adjust v Suc d, bt_push u v out)
        else Err (UnknownNode (if u \<notin> V then u else v)))"
proof -
  have "expect (bt_get d v) = (if v \<in> V then Ok (pending_in E {} v) else Panic :: (compile_error, _) outcome)" for v
    using t by (simp add: degree_table_def)
  with degree_table_contains [OF t] show ?thesis
    by (auto simp: topo_edge_def Let_def)
qed

lemma topo_edges_table:
  assumes "\<forall>e\<in>set es. pr_node (edge_from e) \<in> V \<and> pr_node (edge_to e) \<in> V" and "degree_table V E s"
  shows "\<exists>s'. try_fold topo_edge s es = Ok s' \<and> degree_table V (E @ map edge_pair es) s'"
  using assms
proof (induction es arbitrary: E s)
  case (Cons e es)
  obtain d out where s: "s = (d, out)" by fastforce
  let ?s = "(bt_adjust (pr_node (edge_to e)) Suc d, bt_push (pr_node (edge_from e)) (pr_node (edge_to e)) out)"
  have step: "topo_edge s e = Ok ?s"
    using Cons.prems by (simp add: s topo_edge_table Let_def)
  have "degree_table V (E @ [edge_pair e]) ?s"
    using Cons.prems degree_table_edge [of V E d out] by (simp add: s edge_pair_def)
  from Cons.IH [OF _ this] Cons.prems step show ?case by (simp add: outcome_simps)
qed simp

lemma acyclic_edges_table:
  assumes "degree_table V E s"
  shows "if snd ` edge_pair ` set es \<subseteq> V
         then \<exists>s'. try_fold acyclic_edge s es = Ok s' \<and> degree_table V (E @ map edge_pair es) s'
         else try_fold acyclic_edge s es = Err ()"
  using assms
proof (induction es arbitrary: E s)
  case (Cons e es)
  obtain d out where s: "s = (d, out)" by fastforce
  let ?s = "(bt_adjust (pr_node (edge_to e)) Suc d, bt_push (pr_node (edge_from e)) (pr_node (edge_to e)) out)"
  have step: "acyclic_edge s e = (if pr_node (edge_to e) \<in> V then Ok ?s else Err ())"
    using Cons.prems by (simp add: s acyclic_edge_def degree_table_def)
  show ?case
  proof (cases "pr_node (edge_to e) \<in> V")
    case True
    then have "degree_table V (E @ [edge_pair e]) ?s"
      using Cons.prems degree_table_edge [of V E d out] by (simp add: s edge_pair_def)
    from Cons.IH [OF this] step True show ?thesis
      by (auto simp: outcome_simps edge_pair_def split: if_splits)
  qed (auto simp: step outcome_simps edge_pair_def)
qed simp

lemma topo_edges_unknown:
  assumes "\<exists>e\<in>set es. pr_node (edge_from e) \<notin> V \<or> pr_node (edge_to e) \<notin> V" and "degree_table V E s"
  shows "\<exists>i. try_fold topo_edge s es = Err (UnknownNode i) \<and> i \<notin> V"
  using assms
proof (induction es arbitrary: E s)
  case (Cons e es)
  obtain d out where s: "s = (d, out)" by fastforce
  let ?s = "(bt_adjust (pr_node (edge_to e)) Suc d, bt_push (pr_node (edge_from e)) (pr_node (edge_to e)) out)"
  show ?case
  proof (cases "pr_node (edge_from e) \<in> V \<and> pr_node (edge_to e) \<in> V")
    case True
    then have step: "topo_edge s e = Ok ?s"
      using Cons.prems by (simp add: s topo_edge_table Let_def)
    have "degree_table V (E @ [edge_pair e]) ?s"
      using True Cons.prems degree_table_edge [of V E d out] by (simp add: s edge_pair_def)
    from Cons.IH [OF _ this] Cons.prems(1) step True show ?thesis by (auto simp: outcome_simps)
  next
    case False
    then have "topo_edge s e =
        Err (UnknownNode (if pr_node (edge_from e) \<notin> V then pr_node (edge_from e) else pr_node (edge_to e)))"
      using Cons.prems by (auto simp: s topo_edge_table [of V E] Let_def)
    with False show ?thesis by (auto simp: outcome_simps)
  qed
qed simp

section \<open>What the two routines compute\<close>

definition node_dependencies :: "graph \<Rightarrow> (node_id \<times> node_id) set" where
  "node_dependencies g = edge_pair ` set (g_edges g)"

definition graph_node_ids :: "graph \<Rightarrow> node_id set" where
  "graph_node_ids g = ni_id ` set (g_nodes g)"

definition dependencies_known :: "graph \<Rightarrow> bool" where
  "dependencies_known g \<longleftrightarrow> Field (node_dependencies g) \<subseteq> graph_node_ids g"

abbreviation least_first :: "node_id set \<Rightarrow> node_id \<Rightarrow> bool" where
  "least_first S x \<equiv> x = Min S"

lemma Field_subset_iff: "Field R \<subseteq> V \<longleftrightarrow> fst ` R \<subseteq> V \<and> snd ` R \<subseteq> V"
  by (simp add: Field_def Domain_fst Range_snd)

lemma topo_loop_order:
  assumes t: "degree_table V E (d, out)" and "finite V" and "snd ` set E \<subseteq> V"
  shows "\<exists>order. topo_loop (sort_successors out) d (zero_nodes d) [] = Ok order \<and>
           kahn_order least_first (set E) V {} order"
proof -
  have "foldl (\<lambda>r i. r @ [i]) acc order = acc @ order" for acc order :: "node_id list"
    by (induction order arbitrary: acc) simp_all
  moreover have "successors_ok (sort_successors out) E"
    using t by (simp add: degree_table_def successors_ok_sort)
  moreover have "\<exists>order. topo_loop (sort_successors out) d (zero_nodes d) [] = Ok (foldl (\<lambda>r i. r @ [i]) [] order) \<and>
      kahn_order least_first (set E) V {} order"
    by (rule topo.loop_is_kahn_order)
      (use zero_nodes_ready [OF t] calculation assms in \<open>simp_all add: degree_table_def\<close>)
  ultimately show ?thesis by simp
qed

lemma topological_order_known:
  assumes "dependencies_known g"
  shows "\<exists>order. kahn_order least_first (node_dependencies g) (graph_node_ids g) {} order \<and>
           topological_order g = (if acyclic (node_dependencies g) then Ok order else Err Cycle)"
proof -
  let ?V = "graph_node_ids g" and ?E = "map edge_pair (g_edges g)" and ?R = "node_dependencies g"
  have V: "set (map ni_id (g_nodes g)) = ?V" and R: "set ?E = ?R"
    by (simp_all add: graph_node_ids_def node_dependencies_def)
  have known: "fst ` ?R \<subseteq> ?V" "snd ` ?R \<subseteq> ?V"
    using assms by (simp_all add: dependencies_known_def Field_subset_iff)
  obtain d out where tab: "degree_table ?V ?E (d, out)"
    and fold: "try_fold topo_edge (zero_degrees (map ni_id (g_nodes g)), bt_empty) (g_edges g) = Ok (d, out)"
  proof -
    have "\<forall>e\<in>set (g_edges g). pr_node (edge_from e) \<in> ?V \<and> pr_node (edge_to e) \<in> ?V"
      using known by (simp add: node_dependencies_def edge_pair_def image_image image_subset_iff)
    from topo_edges_table [OF this degree_table_init [of "map ni_id (g_nodes g)", unfolded V]] that
    show thesis by auto
  qed
  obtain order where loop: "topo_loop (sort_successors out) d (zero_nodes d) [] = Ok order"
    and order: "kahn_order least_first ?R ?V {} order"
    using topo_loop_order [OF tab] known(2) unfolding R by (auto simp flip: V)
  have "length order = length d \<longleftrightarrow> set order = ?V"
    using card_subset_eq [of ?V "set order"] kahn_order_distinct [OF order] distinct_card [of order]
      degree_table_length [OF tab] by (auto simp flip: V)
  also have "\<dots> \<longleftrightarrow> acyclic ?R"
    using kahn_order_complete_iff [OF order _ known(2)] known(1) by (simp add: node_dependencies_def)
  finally show ?thesis
    using order by (intro exI [of _ order])
      (simp add: topological_order_def topological_order_of_def fold loop)
qed

lemma topological_order_unknown:
  assumes "\<not> dependencies_known g"
  shows "\<exists>i. i \<notin> graph_node_ids g \<and> topological_order g = Err (UnknownNode i)"
proof -
  have "\<exists>e\<in>set (g_edges g). pr_node (edge_from e) \<notin> graph_node_ids g \<or> pr_node (edge_to e) \<notin> graph_node_ids g"
    using assms by (auto simp: dependencies_known_def Field_subset_iff node_dependencies_def edge_pair_def)
  moreover have "degree_table (graph_node_ids g) [] (zero_degrees (map ni_id (g_nodes g)), bt_empty)"
    using degree_table_init [of "map ni_id (g_nodes g)"] by (simp add: graph_node_ids_def)
  ultimately obtain i where "i \<notin> graph_node_ids g"
    and "try_fold topo_edge (zero_degrees (map ni_id (g_nodes g)), bt_empty) (g_edges g) = Err (UnknownNode i)"
    using topo_edges_unknown by blast
  then show ?thesis
    by (auto simp: topological_order_def topological_order_of_def)
qed

lemma topological_order_Ok_iff:
  "topological_order g = Ok order \<longleftrightarrow>
     dependencies_known g \<and> acyclic (node_dependencies g) \<and>
     kahn_order least_first (node_dependencies g) (graph_node_ids g) {} order"
proof (cases "dependencies_known g")
  case True
  then obtain o' where o': "kahn_order least_first (node_dependencies g) (graph_node_ids g) {} o'"
    and eq: "topological_order g = (if acyclic (node_dependencies g) then Ok o' else Err Cycle)"
    using topological_order_known by blast
  have "order = o'" if "kahn_order least_first (node_dependencies g) (graph_node_ids g) {} order"
    by (rule kahn_order_unique [OF _ that o']) simp
  with True o' eq show ?thesis by auto
next
  case False
  then show ?thesis using topological_order_unknown [OF False] by auto
qed

lemma topological_order_Ok_set:
  assumes "topological_order g = Ok order"
  shows "distinct order \<and> set order = graph_node_ids g"
proof -
  have order: "kahn_order least_first (node_dependencies g) (graph_node_ids g) {} order"
    and ac: "acyclic (node_dependencies g)"
    and known: "fst ` node_dependencies g \<subseteq> graph_node_ids g" "snd ` node_dependencies g \<subseteq> graph_node_ids g"
    using assms by (simp_all add: topological_order_Ok_iff dependencies_known_def Field_subset_iff)
  have "finite (node_dependencies g)" by (simp add: node_dependencies_def)
  then show ?thesis
    using kahn_order_complete_iff [OF order _ known(2)] kahn_order_distinct [OF order] ac known(1) by blast
qed

lemma topological_order_prefix:
  assumes "topological_order g = Ok (pre @ v # rest)" and "(u, v) \<in> node_dependencies g"
  shows "u \<in> set pre"
proof -
  have "kahn_order least_first (node_dependencies g) (graph_node_ids g) {} (pre @ v # rest)"
    using assms(1) by (simp add: topological_order_Ok_iff)
  from conjunct1 [OF kahn_order_nth [OF this, of "length pre"]] assms(2) show ?thesis
    by (simp add: ready_nodes_def)
qed

lemma subgraph_is_acyclic_eq:
  assumes "distinct (map sn_id (ss_nodes s))"
  shows "subgraph_is_acyclic s =
    Ok (acyclic (edge_pair ` set (ss_edges s)) \<and>
        Field (edge_pair ` set (ss_edges s)) \<subseteq> sn_id ` set (ss_nodes s))"
proof -
  let ?V = "sn_id ` set (ss_nodes s)" and ?E = "map edge_pair (ss_edges s)"
  let ?R = "edge_pair ` set (ss_edges s)"
  let ?fold = "try_fold acyclic_edge (zero_degrees (map sn_id (ss_nodes s)), bt_empty) (ss_edges s)"
  have init: "degree_table ?V [] (zero_degrees (map sn_id (ss_nodes s)), bt_empty)"
    using degree_table_init [of "map sn_id (ss_nodes s)"] by simp
  show ?thesis
  proof (cases "snd ` ?R \<subseteq> ?V")
    case False
    then have "?fold = Err ()"
      using acyclic_edges_table [OF init, of "ss_edges s"] by simp
    with False show ?thesis by (simp add: subgraph_is_acyclic_def Field_subset_iff)
  next
    case True
    then obtain d out where tab: "degree_table ?V ?E (d, out)" and fold: "?fold = Ok (d, out)"
      using acyclic_edges_table [OF init, of "ss_edges s"] by auto
    have count: "foldl (\<lambda>n _. n + 1) m xs = m + length xs" for m :: nat and xs :: "node_id list"
      by (induction xs arbitrary: m) simp_all
    have "\<exists>order. acyclic_loop out d (zero_nodes d) 0 = Ok (foldl (\<lambda>n _. n + 1) 0 order) \<and>
        kahn_order (\<lambda>_ _. True) (set ?E) ?V {} order"
      by (rule stack.loop_is_kahn_order)
        (use zero_nodes_ready [OF tab] tab True in \<open>simp_all add: degree_table_def\<close>)
    then obtain order where loop: "acyclic_loop out d (zero_nodes d) 0 = Ok (length order)"
      and order: "kahn_order (\<lambda>_ _. True) ?R ?V {} order"
      unfolding count by auto
    have "card ?V = length (ss_nodes s)"
      using distinct_card [OF assms] by simp
    then have "length order = length (ss_nodes s) \<longleftrightarrow> set order = ?V"
      using card_subset_eq [of ?V "set order"] kahn_order_distinct [OF order] distinct_card [of order] by auto
    also have "\<dots> \<longleftrightarrow> acyclic ?R \<and> fst ` ?R \<subseteq> ?V"
      using kahn_order_complete_iff [OF order _ True] by simp
    finally show ?thesis
      using True by (simp add: subgraph_is_acyclic_def fold loop Field_subset_iff)
  qed
qed

section \<open>Properties\<close>

text \<open>
  C28. \<open>topological_order\<close> is exact on every graph. It returns an order precisely when every edge
  joins two known nodes and the node dependencies are acyclic, and then the order is Kahn's
  with the least ready node taken first (hence unique). It reports \<open>Cycle\<close> precisely when the
  endpoints are known and the dependencies are cyclic. It never panics: neither the \<open>expect\<close> on
  the degree of a target nor the degree subtraction can fail.
\<close>

theorem topological_order_exact:
  "(topological_order g = Ok order \<longleftrightarrow>
      dependencies_known g \<and> acyclic (node_dependencies g) \<and>
      kahn_order least_first (node_dependencies g) (graph_node_ids g) {} order) \<and>
   (topological_order g = Err Cycle \<longleftrightarrow> dependencies_known g \<and> \<not> acyclic (node_dependencies g)) \<and>
   topological_order g \<noteq> Panic"
  using topological_order_Ok_iff [of g order] topological_order_known [of g] topological_order_unknown [of g]
  by (cases "dependencies_known g") (auto split: if_splits)

text \<open>
  C29. An order returned by \<open>topological_order\<close> lists every node of the graph exactly once, and the
  producer of every edge stands strictly before its consumer. Everything downstream (contract
  propagation, lowering, execution) relies on this.
\<close>

theorem topological_order_sound:
  assumes "topological_order g = Ok order"
  shows "distinct order \<and> set order = graph_node_ids g \<and>
    (\<forall>e\<in>set (g_edges g). \<exists>i j. i < j \<and> j < length order \<and>
       order ! i = pr_node (edge_from e) \<and> order ! j = pr_node (edge_to e))"
proof -
  have all: "distinct order \<and> set order = graph_node_ids g"
    using topological_order_Ok_set [OF assms] .
  have order: "kahn_order least_first (node_dependencies g) (graph_node_ids g) {} order"
    and known: "snd ` node_dependencies g \<subseteq> graph_node_ids g"
    using assms by (simp_all add: topological_order_Ok_iff dependencies_known_def Field_subset_iff)
  have "\<exists>i j. i < j \<and> j < length order \<and> order ! i = u \<and> order ! j = v"
    if "(u, v) \<in> node_dependencies g" for u v
  proof -
    have "v \<in> set order" using that known all by force
    then obtain j where "j < length order" "order ! j = v" by (auto simp: in_set_conv_nth)
    with kahn_order_forward [OF order that] show ?thesis by blast
  qed
  then show ?thesis
    using all by (simp add: node_dependencies_def edge_pair_def image_iff) blast
qed

theorem topological_order_sound_witness:
  "topological_order (sample_graph [3, 1, 2] [link 3 1, link 1 2])
     = Ok [3, 1, 2] \<and> distinct [3, 1, 2 :: node_id]"
proof -
  have "topological_order (sample_graph [3, 1, 2] [link 3 1, link 1 2])
     = Ok [3, 1, 2]"
    by code_simp
  from this topological_order_sound [OF this] show ?thesis by blast
qed

text \<open>
  C30. \<open>subgraph_is_acyclic\<close>, on a schema whose node ids are distinct (which registration checks
  first), returns true exactly when the edges join known nodes and are acyclic, whatever the order
  in which its stack visits them; it never panics.
\<close>

theorem subgraph_is_acyclic_exact:
  assumes "distinct (map sn_id (ss_nodes s))"
  shows "subgraph_is_acyclic s =
    Ok (acyclic (edge_pair ` set (ss_edges s)) \<and>
        Field (edge_pair ` set (ss_edges s)) \<subseteq> sn_id ` set (ss_nodes s))"
  using subgraph_is_acyclic_eq [OF assms] .

theorem subgraph_is_acyclic_exact_witness:
  "\<not> acyclic (edge_pair ` set [link 1 2, link 2 1])"
proof -
  let ?s = "sample_subgraph [1, 2] [link 1 2, link 2 1]"
  have "distinct (map sn_id (ss_nodes ?s))" by code_simp
  note exact = subgraph_is_acyclic_exact [OF this]
  have "(subgraph_is_acyclic ?s :: (compile_error, bool) outcome) = Ok False" by code_simp
  moreover have "Field (edge_pair ` set (ss_edges ?s)) \<subseteq> sn_id ` set (ss_nodes ?s)"
    by (simp add: sample_subgraph_def edge_pair_def Field_subset_iff)
  moreover have "ss_edges ?s = [link 1 2, link 2 1]"
    by (simp add: sample_subgraph_def)
  ultimately show ?thesis using exact [where 'a = compile_error] by simp
qed

end
