(* ===== verification/Registry.thy ===== *)
theory Registry
  imports Topology Hashing
begin

text \<open>
  \<open>KernelRegistry\<close> of \<open>compile.rs\<close>: registration of descriptors, hierarchical subgraph schemas and
  kernels, each validated before it is stored and never replaced, and the operations that walk the
  registered hierarchy (\<open>validate_subgraph_path\<close>, \<open>validate_subgraph_lowering\<close>,
  \<open>materialize_subgraph\<close>). The invariant \<open>registry_wf\<close> is what every registration keeps.
\<close>

section \<open>Normalisation\<close>

definition normalize_port :: "port_descriptor \<Rightarrow> port_descriptor" where
  "normalize_port p =
     p\<lparr>pd_layouts := sort_dedup (pd_layouts p), pd_proof := normalize_proof (pd_proof p),
       pd_policy := normalize_policy (pd_policy p)\<rparr>"

definition normalize_lowering :: "subgraph_lowering \<Rightarrow> subgraph_lowering" where
  "normalize_lowering l =
     l\<lparr>sl_input_map := sort_dedup (sl_input_map l), sl_output_map := sort_dedup (sl_output_map l),
       sl_config_map := sort_dedup (sl_config_map l)\<rparr>"

definition normalize_descriptor :: "node_descriptor \<Rightarrow> node_descriptor" where
  "normalize_descriptor d =
     d\<lparr>nd_inputs := map normalize_port (nd_inputs d), nd_outputs := map normalize_port (nd_outputs d),
       nd_capabilities := sort_dedup (nd_capabilities d), nd_targets := sort_dedup (nd_targets d),
       nd_proof := normalize_proof (nd_proof d), nd_policy := normalize_policy (nd_policy d),
       nd_failure := \<lparr>fc_domains = sort_dedup (fc_domains (nd_failure d))\<rparr>,
       nd_subgraph := map_option normalize_lowering (nd_subgraph d)\<rparr>"

section \<open>Validation\<close>

definition invalid_port :: "port_descriptor \<Rightarrow> bool" where
  "invalid_port p \<longleftrightarrow>
     pd_name p = [] \<or> pd_semantic_type p = [] \<or> pd_max_bytes p = 0 \<or> pd_layouts p = [] \<or> \<not> valid_port_contract p"

fun invalid_ports_from :: "string set \<Rightarrow> port_descriptor list \<Rightarrow> bool" where
  "invalid_ports_from names [] = False"
| "invalid_ports_from names (p # ps) =
     (invalid_port p \<or> pd_name p \<in> names \<or> invalid_ports_from (insert (pd_name p) names) ps)"

definition invalid_ports :: "port_descriptor list \<Rightarrow> bool" where
  "invalid_ports ports = invalid_ports_from {} ports"

type_synonym descriptor_table = "(string \<times> u32, node_descriptor) btree_map"
type_synonym subgraph_table = "(subgraph_id, subgraph_schema) btree_map"

definition type_key :: "node_type_ref \<Rightarrow> string \<times> u32" where
  "type_key t = (ntr_type_name t, ntr_version t)"

definition registry_descriptor :: "kernel_registry \<Rightarrow> node_type_ref \<Rightarrow> node_descriptor option" where
  "registry_descriptor reg t = bt_get (reg_descriptors reg) (type_key t)"

text \<open>One binding of the configuration map: its outer field, inner node and inner field must exist.\<close>

definition config_binding_types ::
    "node_descriptor \<Rightarrow> subgraph_schema \<Rightarrow> descriptor_table \<Rightarrow> subgraph_config_map \<Rightarrow> (config_type \<times> config_type) option" where
  "config_binding_types d schema descriptors m =
     Option.bind (bt_get (bt_collect (map (\<lambda>f. (cf_name f, f)) (nd_config d))) (scm_outer m)) (\<lambda>outer.
     Option.bind (bt_get (bt_collect (map (\<lambda>n. (sn_id n, n)) (ss_nodes schema))) (scm_node m)) (\<lambda>node.
     Option.bind (bt_get descriptors (type_key (sn_node_type node))) (\<lambda>inner_descriptor.
     Option.bind (List.find (\<lambda>f. cf_name f = scm_inner m) (nd_config inner_descriptor)) (\<lambda>inner.
     Some (cf_value_type outer, cf_value_type inner)))))"

fun invalid_config_map_from ::
    "(subgraph_config_map \<Rightarrow> (config_type \<times> config_type) option) \<Rightarrow> (node_id \<times> string) set \<Rightarrow>
     subgraph_config_map list \<Rightarrow> bool" where
  "invalid_config_map_from types targets [] = False"
| "invalid_config_map_from types targets (m # ms) =
     (case types m of
        None \<Rightarrow> True
      | Some (outer, inner) \<Rightarrow>
          (scm_node m, scm_inner m) \<in> targets \<or> \<not> config_type_satisfies outer inner \<or>
          invalid_config_map_from types (insert (scm_node m, scm_inner m) targets) ms)"

definition validate_subgraph_lowering ::
    "node_descriptor \<Rightarrow> subgraph_lowering \<Rightarrow> subgraph_table \<Rightarrow> descriptor_table \<Rightarrow> (compile_error, unit) outcome" where
  "validate_subgraph_lowering d l schemas descriptors =
     and_then (ok_or (bt_get schemas (sl_subgraph l)) (UnknownSubgraph (sl_subgraph l))) (\<lambda>schema.
     let input_names = set (map pd_name (nd_inputs d)); output_names = set (map pd_name (nd_outputs d));
         inner_inputs = set (map sip_name (ss_inputs schema)); inner_outputs = set (map sip_name (ss_outputs schema))
     in guard
       (input_names \<noteq> set (map pm_outer (sl_input_map l)) \<or>
        output_names \<noteq> set (map pm_outer (sl_output_map l)) \<or>
        length (sl_input_map l) \<noteq> card input_names \<or>
        length (sl_output_map l) \<noteq> card output_names \<or>
        (\<exists>m \<in> set (sl_input_map l). pm_inner m \<notin> inner_inputs) \<or>
        (\<exists>m \<in> set (sl_output_map l). pm_inner m \<notin> inner_outputs) \<or>
        card (set (map pm_inner (sl_input_map l))) \<noteq> length (sl_input_map l) \<or>
        card (set (map pm_inner (sl_output_map l))) \<noteq> length (sl_output_map l) \<or>
        invalid_config_map_from (config_binding_types d schema descriptors) {} (sl_config_map l) \<or>
        set (map scm_outer (sl_config_map l)) \<noteq> set (map cf_name (nd_config d)))
       (InvalidSubgraph (sl_subgraph l)))"

text \<open>
  \<open>validate_subgraph_path\<close>: a depth-first walk over the hierarchy with an explicit stack, bounded by
  the depth limit and by the total number of entries. Every child pushed is one level deeper than
  the schema it comes from, which is what makes the walk terminate.
\<close>

type_synonym path_frame = "subgraph_id \<times> usize \<times> subgraph_id set"

definition schema_entries :: "usize \<Rightarrow> subgraph_schema \<Rightarrow> usize option" where
  "schema_entries searched s =
     Option.bind (usize_checked_add searched (length (ss_nodes s))) (\<lambda>c.
     Option.bind (usize_checked_add c (length (ss_edges s))) (\<lambda>c.
     Option.bind (usize_checked_add c (length (ss_inputs s))) (\<lambda>c.
     usize_checked_add c (length (ss_outputs s)))))"

definition schema_children :: "subgraph_schema \<Rightarrow> subgraph_id list" where
  "schema_children s = List.map_filter sn_child (ss_nodes s)"

function path_loop ::
    "subgraph_table \<Rightarrow> usize \<Rightarrow> usize \<Rightarrow> path_frame list \<Rightarrow> usize \<Rightarrow> (compile_error, unit) outcome" where
  "path_loop schemas max_depth max_entries pending searched =
     (if pending = [] then Ok ()
      else
        let (i, depth, ancestors) = last pending
        in case bt_get schemas i of
             None \<Rightarrow> Err (UnknownSubgraph i)
           | Some schema \<Rightarrow>
               (case schema_entries searched schema of
                  None \<Rightarrow> Err SubgraphEntryLimitExceeded
                | Some searched' \<Rightarrow>
                    if max_entries < searched' then Err SubgraphEntryLimitExceeded
                    else if max_depth < depth then Err SubgraphDepthExceeded
                    else if i \<in> ancestors then Err (InvalidSubgraph i)
                    else path_loop schemas max_depth max_entries
                      (butlast pending @ map (\<lambda>c. (c, depth + 1, insert i ancestors)) (schema_children schema))
                      searched'))"
  by pat_completeness auto
termination
proof (relation "inv_image (mult less_than)
    (\<lambda>(_, max_depth, _, pending, _). mset (map (\<lambda>(_, depth, _). Suc max_depth - depth) pending))", goal_cases)
  case 1
  show ?case by (simp add: wf_mult)
next
  case (2 schemas max_depth max_entries pending searched x i y depth ancestors schema searched')
  let ?m = "\<lambda>(_, depth, _). Suc max_depth - depth"
  have pending: "pending = butlast pending @ [(i, depth, ancestors)]"
    using append_butlast_last_id [OF 2(1)] 2(2-4) by simp
  have "(mset (map ?m (butlast pending)) + mset (map ?m (map (\<lambda>c. (c, depth + 1, insert i ancestors)) (schema_children schema))),
         mset (map ?m (butlast pending)) + {#Suc max_depth - depth#}) \<in> mult less_than"
    using 2(8) by (intro one_step_implies_mult) auto
  moreover have "mset (map ?m pending) = mset (map ?m (butlast pending)) + {#Suc max_depth - depth#}"
    by (subst pending) simp
  ultimately show ?case by (simp del: mset_map)
qed

declare path_loop.simps [simp del]

definition validate_subgraph_path ::
    "subgraph_table \<Rightarrow> subgraph_id \<Rightarrow> usize \<Rightarrow> usize \<Rightarrow> (compile_error, unit) outcome" where
  "validate_subgraph_path schemas root max_depth max_entries =
     path_loop schemas max_depth max_entries [(root, 1, {})] 0"

section \<open>Registration\<close>

definition register_descriptor :: "kernel_registry \<Rightarrow> node_descriptor \<Rightarrow> (compile_error, kernel_registry) outcome" where
  "register_descriptor reg raw =
     (let d0 = normalize_descriptor raw; key = (nd_type_name raw, nd_version raw)
      in and_then (map_err (\<lambda>_. InvalidDescriptor (fst key) (snd key)) (config_normalize (nd_config d0))) (\<lambda>config.
         let d = d0\<lparr>nd_config := config\<rparr>
         in if bt_contains (reg_descriptors reg) key then Err (DuplicateDescriptor (fst key) (snd key))
            else if nd_type_name d = [] \<or> nd_version d = 0 \<or> re_threads (nd_resources d) = 0 \<or>
               \<not> valid_contract_names (nd_proof d) (nd_policy d) \<or>
               invalid_ports (nd_inputs d) \<or> invalid_ports (nd_outputs d) \<or>
               (nd_effect d = AtMostOnce \<and> 0 < nd_retry_limit d) \<or>
               (\<exists>domain \<in> set (fc_domains (nd_failure d)). domain = []) \<or>
               (nd_partiality d = ExplicitGaps \<and> fc_domains (nd_failure d) = []) \<or>
               \<not> valid_state_contract (nd_state d)
            then Err (InvalidDescriptor (fst key) (snd key))
            else if (case nd_subgraph d of
                       None \<Rightarrow> False
                     | Some l \<Rightarrow> is_err (validate_subgraph_lowering d l (reg_subgraphs reg) (reg_descriptors reg)))
            then Err (InvalidDescriptor (fst key) (snd key))
            else Ok (reg\<lparr>reg_descriptors := bt_insert key d (reg_descriptors reg)\<rparr>)))"

definition interface_matches ::
    "subgraph_schema \<Rightarrow> subgraph_interface_port \<Rightarrow> port_descriptor \<Rightarrow> descriptor_table \<Rightarrow> bool \<Rightarrow> bool" where
  "interface_matches schema interface expected descriptors input =
     (case List.find (\<lambda>n. sn_id n = pr_node (sip_inner interface)) (ss_nodes schema) of
        None \<Rightarrow> False
      | Some node \<Rightarrow>
          (case bt_get descriptors (type_key (sn_node_type node)) of
             None \<Rightarrow> False
           | Some d \<Rightarrow>
               (case List.find (\<lambda>p. pd_name p = pr_port (sip_inner interface))
                       (if input then nd_inputs d else nd_outputs d) of
                  None \<Rightarrow> False
                | Some inner \<Rightarrow> inner\<lparr>pd_name := sip_name interface\<rparr> = expected)))"

definition subgraph_implements_descriptor ::
    "subgraph_schema \<Rightarrow> node_descriptor \<Rightarrow> descriptor_table \<Rightarrow> bool" where
  "subgraph_implements_descriptor schema d descriptors \<longleftrightarrow>
     length (ss_inputs schema) = length (nd_inputs d) \<and> length (ss_outputs schema) = length (nd_outputs d) \<and>
     (\<forall>expected \<in> set (nd_inputs d).
        case List.find (\<lambda>i. sip_name i = pd_name expected) (ss_inputs schema) of
          None \<Rightarrow> False | Some i \<Rightarrow> interface_matches schema i expected descriptors True) \<and>
     (\<forall>expected \<in> set (nd_outputs d).
        case List.find (\<lambda>i. sip_name i = pd_name expected) (ss_outputs schema) of
          None \<Rightarrow> False | Some i \<Rightarrow> interface_matches schema i expected descriptors False)"

definition normalize_schema :: "subgraph_schema \<Rightarrow> subgraph_schema" where
  "normalize_schema s =
     s\<lparr>ss_nodes := sort_key sn_id (ss_nodes s), ss_edges := sort_key edge_key (ss_edges s),
       ss_inputs := sort (ss_inputs s), ss_outputs := sort (ss_outputs s)\<rparr>"

definition duplicate_interface :: "subgraph_interface_port list \<Rightarrow> bool" where
  "duplicate_interface ports \<longleftrightarrow>
     (\<exists>(p, q) \<in> set (windows2 ports). sip_name p = sip_name q) \<or>
     card (set (map sip_inner ports)) \<noteq> length ports"

definition subgraph_node_descriptor ::
    "kernel_registry \<Rightarrow> subgraph_schema \<Rightarrow> (node_id, node_descriptor) btree_map \<Rightarrow> subgraph_node \<Rightarrow>
     (compile_error, (node_id, node_descriptor) btree_map) outcome" where
  "subgraph_node_descriptor reg schema found node =
     and_then (ok_or (bt_get (reg_descriptors reg) (type_key (sn_node_type node))) (InvalidSubgraph (ss_id schema))) (\<lambda>d.
     let invalid_config =
           (case canonicalize (nd_config d) (sn_config node) of Ok canonical \<Rightarrow> canonical \<noteq> sn_config node | _ \<Rightarrow> True);
         invalid_child =
           (case sn_child node of
              None \<Rightarrow> False
            | Some child \<Rightarrow>
                if child = ss_id schema then True
                else (case bt_get (reg_subgraphs reg) child of
                        None \<Rightarrow> True
                      | Some c \<Rightarrow> \<not> subgraph_implements_descriptor c d (reg_descriptors reg)))
     in if invalid_config \<or> invalid_child then Err (InvalidSubgraph (ss_id schema))
        else Ok (bt_insert (sn_id node) d found))"

definition bind_subgraph_edge ::
    "subgraph_id \<Rightarrow> (node_id, node_descriptor) btree_map \<Rightarrow> port_ref set \<Rightarrow> edge \<Rightarrow> (compile_error, port_ref set) outcome" where
  "bind_subgraph_edge i descriptors bound e =
     and_then (ok_or (bt_get descriptors (pr_node (edge_from e))) (InvalidSubgraph i)) (\<lambda>from_d.
     and_then (ok_or (bt_get descriptors (pr_node (edge_to e))) (InvalidSubgraph i)) (\<lambda>to_d.
     and_then (ok_or (List.find (\<lambda>p. pd_name p = pr_port (edge_from e)) (nd_outputs from_d)) (InvalidSubgraph i)) (\<lambda>out.
     and_then (ok_or (List.find (\<lambda>p. pd_name p = pr_port (edge_to e)) (nd_inputs to_d)) (InvalidSubgraph i)) (\<lambda>inp.
     if \<not> port_contract_satisfies out inp \<or> edge_to e \<in> bound then Err (InvalidSubgraph i)
     else Ok (insert (edge_to e) bound)))))"

definition bind_interface_input ::
    "subgraph_id \<Rightarrow> (node_id, node_descriptor) btree_map \<Rightarrow> port_ref set \<Rightarrow> subgraph_interface_port \<Rightarrow>
     (compile_error, port_ref set) outcome" where
  "bind_interface_input i descriptors bound p =
     and_then (ok_or (bt_get descriptors (pr_node (sip_inner p))) (InvalidSubgraph i)) (\<lambda>d.
     if sip_name p = [] \<or> \<not> (\<exists>inp \<in> set (nd_inputs d). pd_name inp = pr_port (sip_inner p)) \<or> sip_inner p \<in> bound
     then Err (InvalidSubgraph i)
     else Ok (insert (sip_inner p) bound))"

definition check_interface_output ::
    "subgraph_id \<Rightarrow> (node_id, node_descriptor) btree_map \<Rightarrow> unit \<Rightarrow> subgraph_interface_port \<Rightarrow> (compile_error, unit) outcome" where
  "check_interface_output i descriptors u p =
     and_then (ok_or (bt_get descriptors (pr_node (sip_inner p))) (InvalidSubgraph i)) (\<lambda>d.
     guard (sip_name p = [] \<or> \<not> (\<exists>out \<in> set (nd_outputs d). pd_name out = pr_port (sip_inner p))) (InvalidSubgraph i))"

definition unbound_input :: "(node_id, node_descriptor) btree_map \<Rightarrow> port_ref set \<Rightarrow> bool" where
  "unbound_input descriptors bound \<longleftrightarrow>
     (\<exists>(node, d) \<in> set descriptors. \<exists>inp \<in> set (nd_inputs d). \<not> pd_optional inp \<and> PortRef node (pd_name inp) \<notin> bound)"

definition register_subgraph :: "hasher \<Rightarrow> kernel_registry \<Rightarrow> subgraph_schema \<Rightarrow> (compile_error, kernel_registry) outcome" where
  "register_subgraph H reg raw =
     (let schema = normalize_schema raw; i = ss_id schema
      in if ss_version schema = 0 \<or> ss_nodes schema = [] \<or>
            (\<exists>(m, n) \<in> set (windows2 (ss_nodes schema)). sn_id m = sn_id n) \<or>
            (\<exists>(e, f) \<in> set (windows2 (ss_edges schema)). e = f) \<or>
            duplicate_interface (ss_inputs schema) \<or> duplicate_interface (ss_outputs schema) \<or>
            i \<noteq> subgraph_identity H schema \<or> bt_contains (reg_subgraphs reg) i
         then Err (InvalidSubgraph i)
         else
           and_then (try_fold (subgraph_node_descriptor reg schema) bt_empty (ss_nodes schema)) (\<lambda>descriptors.
           and_then (try_fold (bind_subgraph_edge i descriptors) {} (ss_edges schema)) (\<lambda>bound.
           and_then (try_fold (bind_interface_input i descriptors) bound (ss_inputs schema)) (\<lambda>bound.
           and_then (try_fold (check_interface_output i descriptors) () (ss_outputs schema)) (\<lambda>_.
           if unbound_input descriptors bound then Err (InvalidSubgraph i)
           else and_then (subgraph_is_acyclic schema) (\<lambda>acyclic_ok.
             if \<not> acyclic_ok then Err (InvalidSubgraph i)
             else Ok (reg\<lparr>reg_subgraphs := bt_insert i schema (reg_subgraphs reg)\<rparr>)))))))"

definition register_kernel :: "kernel_registry \<Rightarrow> kernel_descriptor \<Rightarrow> (compile_error, kernel_registry) outcome" where
  "register_kernel reg raw =
     (let k = raw\<lparr>kd_input_layouts := sort_dedup (kd_input_layouts raw),
                  kd_output_layouts := sort_dedup (kd_output_layouts raw)\<rparr>;
          i = kd_id k
      in if bt_contains (reg_kernels reg) i then Err (DuplicateKernel i)
         else if (kd_conversion k \<noteq> None) \<noteq> (kd_implements k = []) \<or> re_threads (kd_resources k) = 0 \<or>
            (case kd_conversion k of
               None \<Rightarrow> False
             | Some c \<Rightarrow>
                 cv_max_input_bytes c = 0 \<or> cv_max_output_bytes c = 0 \<or> cv_semantic_type c = [] \<or> cv_from c = cv_to c \<or>
                 cv_from c \<notin> set (kd_input_layouts k) \<or> cv_to c \<notin> set (kd_output_layouts k) \<or>
                 kd_determinism k \<noteq> BitExact)
         then Err (InvalidKernelContract i)
         else Ok (reg\<lparr>reg_kernels := bt_insert i k (reg_kernels reg)\<rparr>))"

section \<open>\<open>materialize_subgraph\<close>\<close>

definition inner_instance :: "subgraph_node \<Rightarrow> node_instance" where
  "inner_instance n =
     \<lparr>ni_id = sn_id n, ni_descriptor = ntr_type_name (sn_node_type n),
      ni_descriptor_version = ntr_version (sn_node_type n), ni_config = sn_config n\<rparr>"

text \<open>\<open>nodes.iter_mut().find(..)\<close> followed by an insertion into that node's configuration.\<close>

fun set_first_config :: "node_id \<Rightarrow> string \<Rightarrow> config_value \<Rightarrow> node_instance list \<Rightarrow> node_instance list option" where
  "set_first_config i name v [] = None"
| "set_first_config i name v (n # ns) =
     (if ni_id n = i then Some (n\<lparr>ni_config := bt_insert name v (ni_config n)\<rparr> # ns)
      else map_option ((#) n) (set_first_config i name v ns))"

definition bind_config ::
    "subgraph_id \<Rightarrow> config \<Rightarrow> node_instance list \<Rightarrow> subgraph_config_map \<Rightarrow> (compile_error, node_instance list) outcome" where
  "bind_config sid outer_config nodes m =
     and_then (ok_or (bt_get outer_config (scm_outer m)) (InvalidSubgraph sid)) (\<lambda>v.
     ok_or (set_first_config (scm_node m) (scm_inner m) v nodes) (InvalidSubgraph sid))"

definition canonicalize_instance ::
    "subgraph_id \<Rightarrow> descriptor_table \<Rightarrow> node_instance \<Rightarrow> (compile_error, node_instance) outcome" where
  "canonicalize_instance sid descriptors n =
     and_then (ok_or (bt_get descriptors (ni_descriptor n, ni_descriptor_version n)) (InvalidSubgraph sid)) (\<lambda>d.
     and_then (map_err (\<lambda>_. InvalidSubgraph sid) (canonicalize (nd_config d) (ni_config n))) (\<lambda>c.
     Ok (n\<lparr>ni_config := c\<rparr>)))"

definition map_interfaces ::
    "subgraph_id \<Rightarrow> port_map list \<Rightarrow> subgraph_interface_port list \<Rightarrow> (compile_error, subgraph_interface_port list) outcome" where
  "map_interfaces sid maps interfaces =
     try_map (\<lambda>m. case List.find (\<lambda>i. sip_name i = pm_inner m) interfaces of
                    None \<Rightarrow> Err (InvalidSubgraph sid)
                  | Some i \<Rightarrow> Ok (SubgraphInterfacePort (pm_outer m) (sip_inner i))) maps"

definition materialize_subgraph :: "kernel_registry \<Rightarrow> node_instance \<Rightarrow> (compile_error, materialized_subgraph) outcome" where
  "materialize_subgraph reg instance =
     and_then (ok_or (bt_get (reg_descriptors reg) (ni_descriptor instance, ni_descriptor_version instance))
        (UnknownDescriptor (ni_descriptor instance) (ni_descriptor_version instance))) (\<lambda>d.
     and_then (ok_or (nd_subgraph d) (InvalidSubgraph (replicate 32 0))) (\<lambda>l.
     and_then (validate_subgraph_lowering d l (reg_subgraphs reg) (reg_descriptors reg)) (\<lambda>_.
     and_then (ok_or (bt_get (reg_subgraphs reg) (sl_subgraph l)) (UnknownSubgraph (sl_subgraph l))) (\<lambda>schema.
     if \<exists>n \<in> set (ss_nodes schema). sn_child n \<noteq> None then Err (InvalidSubgraph (ss_id schema))
     else
       and_then (map_err (InvalidConfig (ni_id instance)) (canonicalize (nd_config d) (ni_config instance))) (\<lambda>outer_config.
       and_then (try_fold (bind_config (ss_id schema) outer_config) (map inner_instance (ss_nodes schema)) (sl_config_map l)) (\<lambda>nodes.
       and_then (try_map (canonicalize_instance (ss_id schema) (reg_descriptors reg)) nodes) (\<lambda>nodes.
       and_then (map_interfaces (ss_id schema) (sl_input_map l) (ss_inputs schema)) (\<lambda>inputs.
       and_then (map_interfaces (ss_id schema) (sl_output_map l) (ss_outputs schema)) (\<lambda>outputs.
       and_then (try_map (\<lambda>n. and_then (expect (bt_get (reg_descriptors reg) (type_key (sn_node_type n))))
                   (\<lambda>d. Ok (nd_capabilities d))) (ss_nodes schema)) (\<lambda>capabilities.
       Ok \<lparr>ms_graph =
             \<lparr>g_version = 3, g_nodes = nodes, g_edges = ss_edges schema, g_feedback = [],
              g_invocation_inputs = map sip_inner (sort inputs),
              g_required_capabilities = sort_dedup (concat capabilities),
              g_required_proofs = prf_requires (nd_proof d), g_policy = pol_requires (nd_policy d),
              g_minimum_fidelity = fid_minimum_input (nd_fidelity d), g_session = None\<rparr>,
           ms_inputs = sort inputs, ms_outputs = sort outputs\<rparr>))))))))))"

section \<open>What registration guarantees\<close>

lemma invalid_ports_from_iff:
  "\<not> invalid_ports_from names ps \<longleftrightarrow>
     (\<forall>p\<in>set ps. \<not> invalid_port p) \<and> distinct (map pd_name ps) \<and> pd_name ` set ps \<inter> names = {}"
  by (induction ps arbitrary: names) auto

lemma invalid_ports_iff:
  "\<not> invalid_ports ps \<longleftrightarrow> (\<forall>p\<in>set ps. \<not> invalid_port p) \<and> distinct (map pd_name ps)"
  by (simp add: invalid_ports_def invalid_ports_from_iff)

definition ports_wf :: "port_descriptor list \<Rightarrow> bool" where
  "ports_wf ps \<longleftrightarrow> (\<forall>p\<in>set ps. \<not> invalid_port p \<and> normalize_port p = p) \<and> distinct (map pd_name ps)"

definition descriptor_wf :: "node_descriptor \<Rightarrow> bool" where
  "descriptor_wf d \<longleftrightarrow>
     nd_type_name d \<noteq> [] \<and> nd_version d \<noteq> 0 \<and> re_threads (nd_resources d) \<noteq> 0 \<and>
     valid_contract_names (nd_proof d) (nd_policy d) \<and> ports_wf (nd_inputs d) \<and> ports_wf (nd_outputs d) \<and>
     (nd_effect d = AtMostOnce \<longrightarrow> nd_retry_limit d = 0) \<and>
     (nd_partiality d = ExplicitGaps \<longrightarrow> fc_domains (nd_failure d) \<noteq> []) \<and>
     valid_state_contract (nd_state d) \<and> schema_wf (nd_config d) \<and>
     sorted_wrt (<) (nd_targets d) \<and> sorted_wrt (<) (nd_capabilities d) \<and>
     sorted_wrt (<) (fc_domains (nd_failure d))"

definition kernel_wf :: "kernel_descriptor \<Rightarrow> bool" where
  "kernel_wf k \<longleftrightarrow>
     re_threads (kd_resources k) \<noteq> 0 \<and> sorted_wrt (<) (kd_input_layouts k) \<and> sorted_wrt (<) (kd_output_layouts k) \<and>
     (case kd_conversion k of
        None \<Rightarrow> kd_implements k \<noteq> []
      | Some c \<Rightarrow> kd_implements k = [] \<and> cv_max_input_bytes c \<noteq> 0 \<and> cv_max_output_bytes c \<noteq> 0 \<and>
          cv_semantic_type c \<noteq> [] \<and> cv_from c \<noteq> cv_to c \<and> cv_from c \<in> set (kd_input_layouts k) \<and>
          cv_to c \<in> set (kd_output_layouts k) \<and> kd_determinism k = BitExact)"

text \<open>The descriptor of a node of a schema.\<close>

definition inner_descriptor :: "kernel_registry \<Rightarrow> subgraph_node list \<Rightarrow> node_id \<Rightarrow> node_descriptor option" where
  "inner_descriptor reg nodes i =
     Option.bind (map_of (map (\<lambda>n. (sn_id n, n)) nodes) i) (\<lambda>n. bt_get (reg_descriptors reg) (type_key (sn_node_type n)))"

definition node_wf :: "kernel_registry \<Rightarrow> subgraph_id \<Rightarrow> subgraph_node \<Rightarrow> bool" where
  "node_wf reg i n \<longleftrightarrow>
     (\<exists>d. bt_get (reg_descriptors reg) (type_key (sn_node_type n)) = Some d \<and>
          canonicalize (nd_config d) (sn_config n) = Ok (sn_config n) \<and>
          (\<forall>c. sn_child n = Some c \<longrightarrow> c \<noteq> i \<and>
             (\<exists>cs. bt_get (reg_subgraphs reg) c = Some cs \<and> subgraph_implements_descriptor cs d (reg_descriptors reg))))"

definition edge_typed :: "(node_id \<Rightarrow> node_descriptor option) \<Rightarrow> edge \<Rightarrow> bool" where
  "edge_typed ds e \<longleftrightarrow>
     (\<exists>from_d to_d out inp. ds (pr_node (edge_from e)) = Some from_d \<and> ds (pr_node (edge_to e)) = Some to_d \<and>
        List.find (\<lambda>p. pd_name p = pr_port (edge_from e)) (nd_outputs from_d) = Some out \<and>
        List.find (\<lambda>p. pd_name p = pr_port (edge_to e)) (nd_inputs to_d) = Some inp \<and>
        port_contract_satisfies out inp)"

text \<open>
  A registered schema: content-addressed, with distinct nodes, canonical inner configurations,
  typed acyclic edges, and every required inner input fed exactly once.
\<close>

definition subgraph_wf :: "hasher \<Rightarrow> kernel_registry \<Rightarrow> subgraph_schema \<Rightarrow> bool" where
  "subgraph_wf H reg s \<longleftrightarrow>
     ss_id s = subgraph_identity H s \<and> ss_nodes s \<noteq> [] \<and> distinct (map sn_id (ss_nodes s)) \<and>
     (\<forall>n\<in>set (ss_nodes s). node_wf reg (ss_id s) n) \<and>
     (\<forall>e\<in>set (ss_edges s). edge_typed (inner_descriptor reg (ss_nodes s)) e) \<and>
     distinct (map edge_to (ss_edges s) @ map sip_inner (ss_inputs s)) \<and>
     (\<forall>i d. inner_descriptor reg (ss_nodes s) i = Some d \<longrightarrow>
        (\<forall>inp\<in>set (nd_inputs d). \<not> pd_optional inp \<longrightarrow>
           PortRef i (pd_name inp) \<in> edge_to ` set (ss_edges s) \<union> sip_inner ` set (ss_inputs s))) \<and>
     acyclic (edge_pair ` set (ss_edges s))"

definition lowering_wf :: "kernel_registry \<Rightarrow> node_descriptor \<Rightarrow> bool" where
  "lowering_wf reg d \<longleftrightarrow>
     (\<forall>l. nd_subgraph d = Some l \<longrightarrow>
        validate_subgraph_lowering d l (reg_subgraphs reg) (reg_descriptors reg) = Ok ())"

definition child_relation :: "kernel_registry \<Rightarrow> (subgraph_id \<times> subgraph_id) set" where
  "child_relation reg =
     {(c, i). \<exists>s n. bt_get (reg_subgraphs reg) i = Some s \<and> n \<in> set (ss_nodes s) \<and> sn_child n = Some c}"

definition registry_wf :: "hasher \<Rightarrow> kernel_registry \<Rightarrow> bool" where
  "registry_wf H reg \<longleftrightarrow>
     bt_wf (reg_descriptors reg) \<and> bt_wf (reg_kernels reg) \<and> bt_wf (reg_subgraphs reg) \<and>
     (\<forall>k d. bt_get (reg_descriptors reg) k = Some d \<longrightarrow>
        k = (nd_type_name d, nd_version d) \<and> descriptor_wf d \<and> lowering_wf reg d) \<and>
     (\<forall>k kern. bt_get (reg_kernels reg) k = Some kern \<longrightarrow> kd_id kern = k \<and> kernel_wf kern) \<and>
     (\<forall>i s. bt_get (reg_subgraphs reg) i = Some s \<longrightarrow> ss_id s = i \<and> subgraph_wf H reg s) \<and>
     acyclic (child_relation reg)"

text \<open>Registration only adds: every entry found before is found afterwards, unchanged.\<close>

definition registry_le :: "kernel_registry \<Rightarrow> kernel_registry \<Rightarrow> bool" where
  "registry_le reg reg' \<longleftrightarrow>
     bt_get (reg_descriptors reg) \<subseteq>\<^sub>m bt_get (reg_descriptors reg') \<and>
     bt_get (reg_kernels reg) \<subseteq>\<^sub>m bt_get (reg_kernels reg') \<and>
     bt_get (reg_subgraphs reg) \<subseteq>\<^sub>m bt_get (reg_subgraphs reg')"

lemma registry_le_refl [simp]: "registry_le reg reg"
  by (simp add: registry_le_def)

lemma registry_le_trans: "registry_le a b \<Longrightarrow> registry_le b c \<Longrightarrow> registry_le a c"
  by (auto simp: registry_le_def intro: map_le_trans)

lemma map_leD: "m \<subseteq>\<^sub>m n \<Longrightarrow> m k = Some v \<Longrightarrow> n k = Some v"
  by (force simp: map_le_def dom_def)

lemma insert_map_le:
  "bt_wf m \<Longrightarrow> \<not> bt_contains m k \<Longrightarrow> bt_get m \<subseteq>\<^sub>m bt_get (bt_insert k v m)"
  by (auto simp: map_le_def bt_get_insert bt_contains_def)

subsection \<open>Validity survives extension\<close>

lemma interface_matches_mono:
  "bt_get ds \<subseteq>\<^sub>m bt_get ds' \<Longrightarrow> interface_matches s i e ds input \<Longrightarrow> interface_matches s i e ds' input"
  unfolding interface_matches_def
  by (cases "List.find (\<lambda>n. sn_id n = pr_node (sip_inner i)) (ss_nodes s)")
    (auto split: option.splits(2) dest: map_leD simp: map_leD)

lemma subgraph_implements_mono:
  "bt_get ds \<subseteq>\<^sub>m bt_get ds' \<Longrightarrow> subgraph_implements_descriptor s d ds \<Longrightarrow> subgraph_implements_descriptor s d ds'"
  using interface_matches_mono by (fastforce simp: subgraph_implements_descriptor_def split: option.splits)

lemma invalid_config_map_mono:
  assumes "\<And>m t. types m = Some t \<Longrightarrow> types' m = Some t"
  shows "\<not> invalid_config_map_from types targets ms \<Longrightarrow> \<not> invalid_config_map_from types' targets ms"
proof (induction ms arbitrary: targets)
  case (Cons m ms)
  then obtain outer inner where t: "types m = Some (outer, inner)" by (auto split: option.splits)
  with Cons assms [OF t] show ?case by auto
qed simp

lemma validate_lowering_mono:
  assumes "bt_get schemas \<subseteq>\<^sub>m bt_get schemas'" and "bt_get ds \<subseteq>\<^sub>m bt_get ds'"
    and "validate_subgraph_lowering d l schemas ds = Ok ()"
  shows "validate_subgraph_lowering d l schemas' ds' = Ok ()"
proof -
  obtain s where s: "bt_get schemas (sl_subgraph l) = Some s"
    using assms(3) by (auto simp: validate_subgraph_lowering_def outcome_simps)
  have "config_binding_types d s ds' m = Some t" if "config_binding_types d s ds m = Some t" for m t
    using that by (auto simp: config_binding_types_def Option.bind_eq_Some_conv dest: map_leD [OF assms(2)])
  then have "\<not> invalid_config_map_from (config_binding_types d s ds') {} (sl_config_map l)"
    if "\<not> invalid_config_map_from (config_binding_types d s ds) {} (sl_config_map l)"
    using invalid_config_map_mono that by metis
  with assms(3) s map_leD [OF assms(1) s] show ?thesis
    by (simp add: validate_subgraph_lowering_def guard_def Let_def split: if_splits)
qed

lemma node_wf_mono: "registry_le reg reg' \<Longrightarrow> node_wf reg i n \<Longrightarrow> node_wf reg' i n"
  unfolding node_wf_def registry_le_def by (meson map_leD subgraph_implements_mono)

lemma inner_descriptor_mono:
  assumes "registry_le reg reg'" and "\<forall>n\<in>set nodes. node_wf reg i n"
  shows "inner_descriptor reg' nodes = inner_descriptor reg nodes"
proof
  fix j
  show "inner_descriptor reg' nodes j = inner_descriptor reg nodes j"
  proof (cases "map_of (map (\<lambda>n. (sn_id n, n)) nodes) j")
    case (Some n)
    then have "n \<in> set nodes" by (auto dest!: map_of_SomeD)
    with assms(2) obtain d where "bt_get (reg_descriptors reg) (type_key (sn_node_type n)) = Some d"
      by (auto simp: node_wf_def)
    moreover from this have "bt_get (reg_descriptors reg') (type_key (sn_node_type n)) = Some d"
      using assms(1) by (auto simp: registry_le_def intro: map_leD)
    ultimately show ?thesis using Some by (simp add: inner_descriptor_def)
  qed (simp add: inner_descriptor_def)
qed

lemma subgraph_wf_mono:
  assumes "registry_le reg reg'" and "subgraph_wf H reg s"
  shows "subgraph_wf H reg' s"
proof -
  have nodes: "\<forall>n\<in>set (ss_nodes s). node_wf reg (ss_id s) n"
    using assms(2) unfolding subgraph_wf_def by blast
  then have "\<forall>n\<in>set (ss_nodes s). node_wf reg' (ss_id s) n"
    using node_wf_mono [OF assms(1)] by blast
  then show ?thesis
    using assms(2) inner_descriptor_mono [OF assms(1) nodes] unfolding subgraph_wf_def by metis
qed

lemma lowering_wf_mono: "registry_le reg reg' \<Longrightarrow> lowering_wf reg d \<Longrightarrow> lowering_wf reg' d"
  unfolding lowering_wf_def registry_le_def using validate_lowering_mono by metis

subsection \<open>Registering descriptors and kernels\<close>

lemma normalize_port_idem [simp]: "normalize_port (normalize_port p) = normalize_port p"
  by (simp add: normalize_port_def)

lemma config_normalize_not_Panic: "config_normalize s \<noteq> Panic"
proof -
  have "normalize_field f \<noteq> Panic" for f
    by (simp add: outcome_simps normalize_field_def Let_def split: config_type.splits)
  then have "try_map normalize_field fs \<noteq> Panic" for fs
    by (induction fs) (simp_all add: outcome_simps)
  then show ?thesis
    by (auto simp: config_normalize_def Let_def split: option.splits)
qed

lemma validate_lowering_not_Panic: "validate_subgraph_lowering d l schemas ds \<noteq> Panic"
  by (auto simp: validate_subgraph_lowering_def outcome_simps Let_def guard_def)

lemma register_descriptor_Ok:
  assumes "register_descriptor reg raw = Ok reg'"
  obtains d where "reg' = reg\<lparr>reg_descriptors := bt_insert (nd_type_name d, nd_version d) d (reg_descriptors reg)\<rparr>"
    and "\<not> bt_contains (reg_descriptors reg) (nd_type_name d, nd_version d)" and "descriptor_wf d" and "lowering_wf reg d"
proof -
  obtain config where config: "config_normalize (nd_config (normalize_descriptor raw)) = Ok config"
    using assms by (auto simp: register_descriptor_def Let_def outcome_simps)
  define d where "d = (normalize_descriptor raw)\<lparr>nd_config := config\<rparr>"
  have key: "nd_type_name d = nd_type_name raw" "nd_version d = nd_version raw"
    by (simp_all add: d_def normalize_descriptor_def)
  have fresh: "\<not> bt_contains (reg_descriptors reg) (nd_type_name raw, nd_version raw)"
    and valid: "nd_type_name d \<noteq> []" "nd_version d \<noteq> 0" "re_threads (nd_resources d) \<noteq> 0"
      "valid_contract_names (nd_proof d) (nd_policy d)" "\<not> invalid_ports (nd_inputs d)" "\<not> invalid_ports (nd_outputs d)"
      "\<not> (nd_effect d = AtMostOnce \<and> 0 < nd_retry_limit d)"
      "\<not> (nd_partiality d = ExplicitGaps \<and> fc_domains (nd_failure d) = [])" "valid_state_contract (nd_state d)"
    and low: "\<not> (case nd_subgraph d of None \<Rightarrow> False
        | Some l \<Rightarrow> is_err (validate_subgraph_lowering d l (reg_subgraphs reg) (reg_descriptors reg)))"
    and reg': "reg' = reg\<lparr>reg_descriptors := bt_insert (nd_type_name raw, nd_version raw) d (reg_descriptors reg)\<rparr>"
    using assms unfolding register_descriptor_def Let_def config map_err.simps and_then.simps d_def [symmetric]
    by (simp_all split: if_splits)
  have "nd_inputs d = map normalize_port (nd_inputs raw)" "nd_outputs d = map normalize_port (nd_outputs raw)"
    by (simp_all add: d_def normalize_descriptor_def)
  then have "ports_wf (nd_inputs d)" "ports_wf (nd_outputs d)"
    using valid(5,6) by (auto simp: ports_wf_def invalid_ports_iff)
  moreover have "schema_wf (nd_config d)"
    using config_normalize_wf [OF config] by (simp add: d_def)
  moreover have "sorted_wrt (<) (nd_targets d)" "sorted_wrt (<) (nd_capabilities d)" "sorted_wrt (<) (fc_domains (nd_failure d))"
    by (simp_all add: d_def normalize_descriptor_def strict_sorted_sort_dedup)
  ultimately have "descriptor_wf d"
    using valid by (simp add: descriptor_wf_def word_gt_0)
  moreover have "lowering_wf reg d"
    unfolding lowering_wf_def
  proof (intro allI impI)
    fix l assume "nd_subgraph d = Some l"
    with low validate_lowering_not_Panic show
      "validate_subgraph_lowering d l (reg_subgraphs reg) (reg_descriptors reg) = Ok ()"
      by (cases "validate_subgraph_lowering d l (reg_subgraphs reg) (reg_descriptors reg)") (auto simp: is_err_def)
  qed
  ultimately show thesis using that [of d] reg' fresh by (simp add: key)
qed

lemma register_kernel_Ok:
  assumes "register_kernel reg raw = Ok reg'"
  obtains k where "reg' = reg\<lparr>reg_kernels := bt_insert (kd_id k) k (reg_kernels reg)\<rparr>"
    and "\<not> bt_contains (reg_kernels reg) (kd_id k)" and "kernel_wf k"
proof -
  define k where "k = raw\<lparr>kd_input_layouts := sort_dedup (kd_input_layouts raw),
    kd_output_layouts := sort_dedup (kd_output_layouts raw)\<rparr>"
  have sorted: "sorted_wrt (<) (kd_input_layouts k)" "sorted_wrt (<) (kd_output_layouts k)"
    by (simp_all add: k_def strict_sorted_sort_dedup)
  have "kernel_wf k" and "\<not> bt_contains (reg_kernels reg) (kd_id k)"
    and "reg' = reg\<lparr>reg_kernels := bt_insert (kd_id k) k (reg_kernels reg)\<rparr>"
    using assms sorted unfolding register_kernel_def Let_def k_def [symmetric] kernel_wf_def
    by (cases "kd_conversion k"; simp split: if_splits)+
  with that show thesis by blast
qed

lemma register_kernel_not_Panic: "register_kernel reg raw \<noteq> Panic"
  by (simp add: register_kernel_def Let_def)

lemma register_descriptor_not_Panic: "register_descriptor reg raw \<noteq> Panic"
  using config_normalize_not_Panic by (simp add: register_descriptor_def Let_def outcome_simps)

subsection \<open>Registering subgraphs\<close>

lemma subgraph_node_descriptor_Ok_iff:
  "subgraph_node_descriptor reg s found n = Ok found' \<longleftrightarrow>
     node_wf reg (ss_id s) n \<and>
     (\<exists>d. bt_get (reg_descriptors reg) (type_key (sn_node_type n)) = Some d \<and> found' = bt_insert (sn_id n) d found)"
proof (cases "bt_get (reg_descriptors reg) (type_key (sn_node_type n))")
  case None
  then show ?thesis by (simp add: subgraph_node_descriptor_def node_wf_def)
next
  case (Some d)
  have config: "(case canonicalize (nd_config d) (sn_config n) of Ok c \<Rightarrow> c \<noteq> sn_config n | _ \<Rightarrow> True) \<longleftrightarrow>
      canonicalize (nd_config d) (sn_config n) \<noteq> Ok (sn_config n)"
    by (auto split: outcome.splits)
  show ?thesis
    unfolding subgraph_node_descriptor_def Some ok_or.simps and_then.simps config node_wf_def Let_def
    by (cases "sn_child n") (auto split: option.splits)
qed

lemma subgraph_node_descriptor_not_Panic: "subgraph_node_descriptor reg s found n \<noteq> Panic"
  by (cases "bt_get (reg_descriptors reg) (type_key (sn_node_type n))")
    (simp_all add: subgraph_node_descriptor_def Let_def)

lemma subgraph_nodes_fold:
  assumes "try_fold (subgraph_node_descriptor reg s) found ns = Ok found'" and "bt_wf found" and "distinct (map sn_id ns)"
  shows "(\<forall>n\<in>set ns. node_wf reg (ss_id s) n) \<and> bt_wf found' \<and>
    (\<forall>i. bt_get found' i = option_or (inner_descriptor reg ns i) (bt_get found i))"
  using assms
proof (induction ns arbitrary: found)
  case Nil
  then show ?case by (simp add: inner_descriptor_def)
next
  case (Cons n ns)
  then obtain d where d: "bt_get (reg_descriptors reg) (type_key (sn_node_type n)) = Some d"
    and n: "node_wf reg (ss_id s) n"
    and rest: "try_fold (subgraph_node_descriptor reg s) (bt_insert (sn_id n) d found) ns = Ok found'"
    by (auto simp: outcome_simps subgraph_node_descriptor_Ok_iff)
  have "sn_id n \<notin> sn_id ` set ns" and "distinct (map sn_id ns)" using Cons.prems(3) by auto
  then have "map_of (map (\<lambda>n. (sn_id n, n)) ns) (sn_id n) = None"
    by (simp add: map_of_eq_None_iff image_image)
  then have "inner_descriptor reg ns (sn_id n) = None" by (simp add: inner_descriptor_def)
  with Cons.IH [OF rest bt_wf_insert [OF Cons.prems(2)] \<open>distinct (map sn_id ns)\<close>] n d Cons.prems(2) show ?case
    by (auto simp: bt_get_insert inner_descriptor_def)
qed

lemma bind_subgraph_edge_Ok_iff:
  "bind_subgraph_edge i ds bound e = Ok bound' \<longleftrightarrow>
     edge_typed (bt_get ds) e \<and> edge_to e \<notin> bound \<and> bound' = insert (edge_to e) bound"
  by (auto simp: bind_subgraph_edge_def edge_typed_def outcome_simps)

lemma bind_subgraph_edges:
  "try_fold (bind_subgraph_edge i ds) bound es = Ok bound' \<Longrightarrow>
     (\<forall>e\<in>set es. edge_typed (bt_get ds) e) \<and> distinct (map edge_to es) \<and> edge_to ` set es \<inter> bound = {} \<and>
     bound' = bound \<union> edge_to ` set es"
  by (induction es arbitrary: bound) (fastforce simp: outcome_simps bind_subgraph_edge_Ok_iff)+

lemma bind_interface_inputs:
  "try_fold (bind_interface_input i ds) bound ps = Ok bound' \<Longrightarrow>
     distinct (map sip_inner ps) \<and> sip_inner ` set ps \<inter> bound = {} \<and> bound' = bound \<union> sip_inner ` set ps"
  by (induction ps arbitrary: bound)
    (fastforce simp: outcome_simps bind_interface_input_def split: if_splits)+

lemma register_subgraph_Ok:
  assumes "register_subgraph H reg raw = Ok reg'"
  obtains s where "reg' = reg\<lparr>reg_subgraphs := bt_insert (ss_id s) s (reg_subgraphs reg)\<rparr>"
    and "\<not> bt_contains (reg_subgraphs reg) (ss_id s)" and "subgraph_wf H reg s"
proof -
  define s where "s = normalize_schema raw"
  have sorted: "sorted (map sn_id (ss_nodes s))" by (simp add: s_def normalize_schema_def)
  have head: "ss_nodes s \<noteq> []" "\<not> (\<exists>(m, n) \<in> set (windows2 (ss_nodes s)). sn_id m = sn_id n)"
      "ss_id s = subgraph_identity H s" "\<not> bt_contains (reg_subgraphs reg) (ss_id s)"
    using assms unfolding register_subgraph_def Let_def s_def [symmetric] by (simp_all split: if_splits)
  have dist: "distinct (map sn_id (ss_nodes s))"
    using windows2_adjacent_key [OF sorted] head(2) by blast
  obtain ds bound bound' where nodes: "try_fold (subgraph_node_descriptor reg s) bt_empty (ss_nodes s) = Ok ds"
    and edges: "try_fold (bind_subgraph_edge (ss_id s) ds) {} (ss_edges s) = Ok bound"
    and inputs: "try_fold (bind_interface_input (ss_id s) ds) bound (ss_inputs s) = Ok bound'"
    and req: "\<not> unbound_input ds bound'"
    and acyc: "(subgraph_is_acyclic s :: (compile_error, bool) outcome) = Ok True"
    and reg': "reg' = reg\<lparr>reg_subgraphs := bt_insert (ss_id s) s (reg_subgraphs reg)\<rparr>"
    using assms unfolding register_subgraph_def Let_def s_def [symmetric]
    by (auto simp: outcome_simps split: if_splits)
  note n = subgraph_nodes_fold [OF nodes bt.wf_empty dist]
  have ds: "bt_get ds = inner_descriptor reg (ss_nodes s)" and dswf: "bt_wf ds" using n by auto
  have "PortRef i (pd_name inp) \<in> bound'"
    if "inner_descriptor reg (ss_nodes s) i = Some d" "inp \<in> set (nd_inputs d)" "\<not> pd_optional inp" for i d inp
    using req that bt.lookup_iff_entry [OF dswf, of i d] by (auto simp: unbound_input_def ds)
  moreover note bind_subgraph_edges [OF edges] bind_interface_inputs [OF inputs]
  moreover have "acyclic (edge_pair ` set (ss_edges s))"
    using subgraph_is_acyclic_eq [OF dist, where 'a = compile_error] acyc by simp
  ultimately have "subgraph_wf H reg s"
    using head dist n by (auto simp: subgraph_wf_def ds)
  with that reg' head(4) show thesis by blast
qed

lemma register_subgraph_not_Panic: "register_subgraph H reg raw \<noteq> Panic"
proof -
  define s where "s = normalize_schema raw"
  have sorted: "sorted (map sn_id (ss_nodes s))" by (simp add: s_def normalize_schema_def)
  have "try_fold (subgraph_node_descriptor reg s) m ns \<noteq> Panic" for m ns
    by (induction ns arbitrary: m) (simp_all add: outcome_simps subgraph_node_descriptor_not_Panic)
  moreover have "try_fold (bind_subgraph_edge i ds) b es \<noteq> Panic" for i ds b es
    by (induction es arbitrary: b) (auto simp: outcome_simps bind_subgraph_edge_def)
  moreover have "try_fold (bind_interface_input i ds) b ps \<noteq> Panic" for i ds b ps
    by (induction ps arbitrary: b) (auto simp: outcome_simps bind_interface_input_def)
  moreover have "try_fold (check_interface_output i ds) u ps \<noteq> Panic" for i ds u ps
    by (induction ps arbitrary: u) (auto simp: outcome_simps check_interface_output_def)
  moreover have "(subgraph_is_acyclic s :: (compile_error, bool) outcome) \<noteq> Panic"
    if "\<not> (\<exists>(m, n) \<in> set (windows2 (ss_nodes s)). sn_id m = sn_id n)"
    using subgraph_is_acyclic_eq [of s, where 'a = compile_error] windows2_adjacent_key [OF sorted] that by simp
  ultimately show ?thesis
    unfolding register_subgraph_def Let_def s_def [symmetric] by (simp add: outcome_simps)
qed

section \<open>Every registration keeps the invariant\<close>

text \<open>
  The contract of a registration operation: on a well-formed registry it does not panic, and the
  registry it returns is well-formed and extends the given one. A sequence of registrations then
  has the same contract.
\<close>

locale registration =
  fixes register :: "kernel_registry \<Rightarrow> 'a \<Rightarrow> (compile_error, kernel_registry) outcome"
    and H :: hasher
  assumes register_safe: "registry_wf H reg \<Longrightarrow> safely (register reg x) (\<lambda>reg'. registry_wf H reg' \<and> registry_le reg reg')"
begin

lemma register_all:
  assumes "registry_wf H reg"
  shows "safely (try_fold register reg xs) (\<lambda>reg'. registry_wf H reg' \<and> registry_le reg reg')"
proof (rule safely_try_fold)
  show "registry_wf H reg \<and> registry_le reg reg" using assms by simp
  fix a x
  assume a: "registry_wf H a \<and> registry_le reg a"
  then show "safely (register a x) (\<lambda>reg'. registry_wf H reg' \<and> registry_le reg reg')"
    using register_safe [of a x] by (auto simp: safely_iff intro: registry_le_trans)
qed

end

lemma child_relation_cong:
  "bt_get (reg_subgraphs reg) = bt_get (reg_subgraphs reg') \<Longrightarrow> child_relation reg = child_relation reg'"
  by (simp add: child_relation_def)

text \<open>The invariant of an extension only has to be checked for the new entries.\<close>

lemma registry_wf_extend:
  assumes wf: "registry_wf H reg" and le: "registry_le reg reg'"
    and "bt_wf (reg_descriptors reg')" "bt_wf (reg_kernels reg')" "bt_wf (reg_subgraphs reg')"
    and "\<And>k d. bt_get (reg_descriptors reg') k = Some d \<Longrightarrow>
      bt_get (reg_descriptors reg) k = Some d \<or> k = (nd_type_name d, nd_version d) \<and> descriptor_wf d \<and> lowering_wf reg d"
    and "\<And>k kern. bt_get (reg_kernels reg') k = Some kern \<Longrightarrow>
      bt_get (reg_kernels reg) k = Some kern \<or> kd_id kern = k \<and> kernel_wf kern"
    and "\<And>i s. bt_get (reg_subgraphs reg') i = Some s \<Longrightarrow>
      bt_get (reg_subgraphs reg) i = Some s \<or> ss_id s = i \<and> subgraph_wf H reg s"
    and "acyclic (child_relation reg')"
  shows "registry_wf H reg'"
proof -
  have "k = (nd_type_name d, nd_version d) \<and> descriptor_wf d \<and> lowering_wf reg' d"
    if "bt_get (reg_descriptors reg') k = Some d" for k d
    using assms(6) [OF that] wf lowering_wf_mono [OF le] unfolding registry_wf_def by blast
  moreover have "kd_id kern = k \<and> kernel_wf kern" if "bt_get (reg_kernels reg') k = Some kern" for k kern
    using assms(7) [OF that] wf unfolding registry_wf_def by blast
  moreover have "ss_id s = i \<and> subgraph_wf H reg' s" if "bt_get (reg_subgraphs reg') i = Some s" for i s
    using assms(8) [OF that] wf subgraph_wf_mono [OF le] unfolding registry_wf_def by blast
  ultimately show ?thesis
    using assms(3-5,9) unfolding registry_wf_def by blast
qed

lemma register_descriptor_safe:
  assumes wf: "registry_wf H reg"
  shows "safely (register_descriptor reg raw) (\<lambda>reg'. registry_wf H reg' \<and> registry_le reg reg')"
  unfolding safely_iff
proof (intro conjI allI impI register_descriptor_not_Panic)
  fix reg'
  assume "register_descriptor reg raw = Ok reg'"
  then obtain d where reg': "reg' = reg\<lparr>reg_descriptors := bt_insert (nd_type_name d, nd_version d) d (reg_descriptors reg)\<rparr>"
    and new: "\<not> bt_contains (reg_descriptors reg) (nd_type_name d, nd_version d)" "descriptor_wf d" "lowering_wf reg d"
    by (rule register_descriptor_Ok)
  have b: "bt_wf (reg_descriptors reg)" "bt_wf (reg_kernels reg)" "bt_wf (reg_subgraphs reg)" "acyclic (child_relation reg)"
    using wf by (simp_all add: registry_wf_def)
  show le: "registry_le reg reg'"
    using insert_map_le [OF b(1) new(1)] by (simp add: registry_le_def reg')
  have "child_relation reg' = child_relation reg" by (rule child_relation_cong) (simp add: reg')
  then show "registry_wf H reg'"
    using b new by (intro registry_wf_extend [OF wf le])
      (auto simp: reg' bt_wf_insert bt_get_insert split: if_splits)
qed

lemma register_kernel_safe:
  assumes wf: "registry_wf H reg"
  shows "safely (register_kernel reg raw) (\<lambda>reg'. registry_wf H reg' \<and> registry_le reg reg')"
  unfolding safely_iff
proof (intro conjI allI impI register_kernel_not_Panic)
  fix reg'
  assume "register_kernel reg raw = Ok reg'"
  then obtain k where reg': "reg' = reg\<lparr>reg_kernels := bt_insert (kd_id k) k (reg_kernels reg)\<rparr>"
    and new: "\<not> bt_contains (reg_kernels reg) (kd_id k)" "kernel_wf k"
    by (rule register_kernel_Ok)
  have b: "bt_wf (reg_descriptors reg)" "bt_wf (reg_kernels reg)" "bt_wf (reg_subgraphs reg)" "acyclic (child_relation reg)"
    using wf by (simp_all add: registry_wf_def)
  show le: "registry_le reg reg'"
    using insert_map_le [OF b(2) new(1)] by (simp add: registry_le_def reg')
  have "child_relation reg' = child_relation reg" by (rule child_relation_cong) (simp add: reg')
  then show "registry_wf H reg'"
    using b new by (intro registry_wf_extend [OF wf le])
      (auto simp: reg' bt_wf_insert bt_get_insert split: if_splits)
qed

lemma acyclic_fresh_parent:
  assumes "acyclic R" and "i \<notin> Domain R" and "i \<notin> C"
  shows "acyclic (R \<union> (\<lambda>c. (c, i)) ` C)"
proof -
  let ?R = "R \<union> (\<lambda>c. (c, i)) ` C"
  have dom: "i \<notin> Domain ?R" using assms(2,3) by auto
  have "(x, y) \<in> R\<^sup>+ \<or> y = i" if "(x, y) \<in> ?R\<^sup>+" for x y
    using that by (induction rule: trancl_induct) (use dom in \<open>auto intro: trancl_into_trancl\<close>)
  moreover have "(i, i) \<notin> ?R\<^sup>+" using dom by (meson DomainI tranclD)
  ultimately show ?thesis using assms(1) by (auto simp: acyclic_def)
qed

lemma register_subgraph_safe:
  assumes wf: "registry_wf H reg"
  shows "safely (register_subgraph H reg raw) (\<lambda>reg'. registry_wf H reg' \<and> registry_le reg reg')"
  unfolding safely_iff
proof (intro conjI allI impI register_subgraph_not_Panic)
  fix reg'
  assume "register_subgraph H reg raw = Ok reg'"
  then obtain s where reg': "reg' = reg\<lparr>reg_subgraphs := bt_insert (ss_id s) s (reg_subgraphs reg)\<rparr>"
    and new: "\<not> bt_contains (reg_subgraphs reg) (ss_id s)" "subgraph_wf H reg s"
    by (rule register_subgraph_Ok)
  have b: "bt_wf (reg_descriptors reg)" "bt_wf (reg_kernels reg)" "bt_wf (reg_subgraphs reg)" "acyclic (child_relation reg)"
    using wf by (simp_all add: registry_wf_def)
  show le: "registry_le reg reg'"
    using insert_map_le [OF b(3) new(1)] by (simp add: registry_le_def reg')
  have sub: "\<And>i t. bt_get (reg_subgraphs reg) i = Some t \<Longrightarrow> ss_id t = i \<and> subgraph_wf H reg t"
    using wf unfolding registry_wf_def by blast
  let ?C = "{c. \<exists>n \<in> set (ss_nodes s). sn_child n = Some c}"
  have "child_relation reg' = child_relation reg \<union> (\<lambda>c. (c, ss_id s)) ` ?C"
    using new(1) b(3) by (auto simp: child_relation_def reg' bt_get_insert bt_contains_def split: if_splits)
  moreover have "ss_id s \<notin> ?C"
    using new(2) by (auto simp: subgraph_wf_def node_wf_def)
  moreover have "ss_id s \<notin> Domain (child_relation reg)"
  proof
    assume "ss_id s \<in> Domain (child_relation reg)"
    then obtain i t n where "bt_get (reg_subgraphs reg) i = Some t" "n \<in> set (ss_nodes t)" "sn_child n = Some (ss_id s)"
      by (auto simp: child_relation_def)
    with sub have "node_wf reg i n" by (force simp: subgraph_wf_def)
    with \<open>sn_child n = Some (ss_id s)\<close> new(1) show False by (auto simp: node_wf_def bt_contains_def)
  qed
  ultimately have "acyclic (child_relation reg')"
    using acyclic_fresh_parent [OF b(4)] by simp
  then show "registry_wf H reg'"
    using b new by (intro registry_wf_extend [OF wf le])
      (auto simp: reg' bt_wf_insert bt_get_insert split: if_splits)
qed

interpretation descriptors: registration register_descriptor H for H
  by unfold_locales (rule register_descriptor_safe)

interpretation kernels: registration register_kernel H for H
  by unfold_locales (rule register_kernel_safe)

interpretation subgraphs: registration "register_subgraph H" H for H
  by unfold_locales (rule register_subgraph_safe)

section \<open>The registered hierarchy\<close>

lemma subgraph_wf_node: "subgraph_wf H reg s \<Longrightarrow> n \<in> set (ss_nodes s) \<Longrightarrow> node_wf reg (ss_id s) n"
  unfolding subgraph_wf_def by blast

lemma node_wf_child: "node_wf reg i n \<Longrightarrow> sn_child n = Some c \<Longrightarrow> bt_contains (reg_subgraphs reg) c"
  by (auto simp: node_wf_def bt_contains_def)

lemma path_loop_hierarchy:
  assumes wf: "registry_wf H reg"
    and "\<forall>(i, depth, anc)\<in>set frames. bt_contains (reg_subgraphs reg) i \<and> (\<forall>a\<in>anc. (i, a) \<in> (child_relation reg)\<^sup>+)"
  shows "path_loop (reg_subgraphs reg) max_depth max_entries frames searched
    \<in> {Ok (), Err SubgraphDepthExceeded, Err SubgraphEntryLimitExceeded} \<and>
    (path_loop (reg_subgraphs reg) max_depth max_entries frames searched = Ok () \<longrightarrow>
      (\<forall>(i, depth, anc)\<in>set frames. \<forall>k x. (x, i) \<in> child_relation reg ^^ k \<longrightarrow> depth + k \<le> max_depth))"
  using assms(2)
proof (induction "reg_subgraphs reg" max_depth max_entries frames searched rule: path_loop.induct)
  case (1 max_depth max_entries frames searched)
  show ?case
  proof (cases "frames = []")
    case True
    then show ?thesis by (subst (1 2) path_loop.simps) simp
  next
    case False
    obtain i depth anc where lst: "last frames = (i, depth, anc)" by (cases "last frames") auto
    then have mem: "(i, depth, anc) \<in> set frames" using False last_in_set [of frames] by simp
    with 1(2) obtain s where s: "bt_get (reg_subgraphs reg) i = Some s" and anc: "\<forall>a\<in>anc. (i, a) \<in> (child_relation reg)\<^sup>+"
      by (auto simp: bt_contains_def)
    have "acyclic (child_relation reg)" using wf by (simp add: registry_wf_def)
    then have fresh: "i \<notin> anc" using anc by (auto simp: acyclic_def)
    have child: "(c, i) \<in> child_relation reg \<longleftrightarrow> c \<in> set (schema_children s)" for c
      using s by (force simp: child_relation_def schema_children_def List.map_filter_def)
    let ?new = "map (\<lambda>c. (c, depth + 1, insert i anc)) (schema_children s)"
    let ?frames = "butlast frames @ ?new"
    have split: "set frames = insert (i, depth, anc) (set (butlast frames))"
      using append_butlast_last_id [OF False] lst by (metis Un_insert_right list.simps(15) set_append sup_bot_right empty_set)
    have kids: "bt_contains (reg_subgraphs reg) c \<and> (\<forall>a\<in>insert i anc. (c, a) \<in> (child_relation reg)\<^sup>+)"
      if "c \<in> set (schema_children s)" for c
    proof -
      have ci: "(c, i) \<in> child_relation reg" using that child by simp
      obtain n where n: "n \<in> set (ss_nodes s)" "sn_child n = Some c"
        using ci s by (auto simp: child_relation_def)
      have "subgraph_wf H reg s" using wf s unfolding registry_wf_def by blast
      from node_wf_child [OF subgraph_wf_node [OF this n(1)] n(2)]
      have "bt_contains (reg_subgraphs reg) c" .
      moreover have "(c, a) \<in> (child_relation reg)\<^sup>+" if "a \<in> insert i anc" for a
        using that ci anc trancl_into_trancl2 [OF ci] by blast
      ultimately show ?thesis by blast
    qed
    have pre: "\<forall>(i, depth, anc)\<in>set ?frames. bt_contains (reg_subgraphs reg) i \<and> (\<forall>a\<in>anc. (i, a) \<in> (child_relation reg)\<^sup>+)"
      using 1(2) split kids by auto
    show ?thesis
    proof (cases "schema_entries searched s")
      case None
      then show ?thesis using False lst s by (subst (1 2) path_loop.simps) simp
    next
      case (Some searched')
      show ?thesis
      proof (cases "max_entries < searched' \<or> max_depth < depth")
        case True
        then show ?thesis using False lst s Some by (subst (1 2) path_loop.simps) auto
      next
        case ok: False
        have unfold: "path_loop (reg_subgraphs reg) max_depth max_entries frames searched =
            path_loop (reg_subgraphs reg) max_depth max_entries ?frames searched'"
          using False lst s Some ok fresh by (subst path_loop.simps) simp
        have IH: "path_loop (reg_subgraphs reg) max_depth max_entries ?frames searched'
            \<in> {Ok (), Err SubgraphDepthExceeded, Err SubgraphEntryLimitExceeded}"
          "path_loop (reg_subgraphs reg) max_depth max_entries ?frames searched' = Ok () \<Longrightarrow>
            \<forall>(i, depth, anc)\<in>set ?frames. \<forall>k x. (x, i) \<in> child_relation reg ^^ k \<longrightarrow> depth + k \<le> max_depth"
          using 1(1) [OF False refl lst [symmetric] refl s Some _ _ fresh] ok pre by (auto simp: lst)
        have "depth + k \<le> max_depth"
          if "path_loop (reg_subgraphs reg) max_depth max_entries ?frames searched' = Ok ()"
            and "(x, i) \<in> child_relation reg ^^ k" for k x
        proof (cases k)
          case 0
          with ok show ?thesis by simp
        next
          case (Suc m)
          with that(2) obtain c where "(x, c) \<in> child_relation reg ^^ m" and "c \<in> set (schema_children s)"
            using child by auto
          then have "(c, depth + 1, insert i anc) \<in> set ?frames" by auto
          from bspec [OF IH(2) [OF that(1)] this] \<open>(x, c) \<in> child_relation reg ^^ m\<close> have "depth + 1 + m \<le> max_depth"
            by blast
          with Suc show ?thesis by simp
        qed
        with IH show ?thesis unfolding unfold split by auto
      qed
    qed
  qed
qed

section \<open>Materialising a subgraph\<close>

lemma config_map_valid:
  "\<not> invalid_config_map_from types targets ms \<Longrightarrow>
     distinct (map (\<lambda>m. (scm_node m, scm_inner m)) ms) \<and>
     (\<forall>m\<in>set ms. \<exists>outer inner. types m = Some (outer, inner) \<and> config_type_satisfies outer inner)"
proof -
  have "\<not> invalid_config_map_from types targets ms \<Longrightarrow>
     distinct (map (\<lambda>m. (scm_node m, scm_inner m)) ms) \<and>
     (\<lambda>m. (scm_node m, scm_inner m)) ` set ms \<inter> targets = {} \<and>
     (\<forall>m\<in>set ms. \<exists>outer inner. types m = Some (outer, inner) \<and> config_type_satisfies outer inner)"
    by (induction ms arbitrary: targets) (auto split: option.splits prod.splits)
  then show "\<not> invalid_config_map_from types targets ms \<Longrightarrow>
     distinct (map (\<lambda>m. (scm_node m, scm_inner m)) ms) \<and>
     (\<forall>m\<in>set ms. \<exists>outer inner. types m = Some (outer, inner) \<and> config_type_satisfies outer inner)" by blast
qed

text \<open>An inner instance that still matches its schema node and has an acceptable configuration.\<close>

definition instance_of :: "descriptor_table \<Rightarrow> node_instance \<Rightarrow> subgraph_node \<Rightarrow> bool" where
  "instance_of ds n sn \<longleftrightarrow>
     ni_id n = sn_id sn \<and> (ni_descriptor n, ni_descriptor_version n) = type_key (sn_node_type sn) \<and>
     bt_wf (ni_config n) \<and>
     (\<exists>d. bt_get ds (type_key (sn_node_type sn)) = Some d \<and> distinct (map cf_name (nd_config d)) \<and>
          acceptable (nd_config d) (ni_config n))"

definition delivered :: "config \<Rightarrow> node_instance list \<Rightarrow> subgraph_config_map \<Rightarrow> bool" where
  "delivered outer ns m \<longleftrightarrow>
     (\<exists>n\<in>set ns. ni_id n = scm_node m \<and> bt_get (ni_config n) (scm_inner m) = bt_get outer (scm_outer m))"

lemma set_first_config_step:
  assumes "list_all2 (instance_of ds) ns sns" and "sn \<in> set sns" and "sn_id sn = i" and "distinct (map sn_id sns)"
    and "bt_get ds (type_key (sn_node_type sn)) = Some d" and "f \<in> set (nd_config d)" and "cf_name f = name"
    and "valid_value (cf_value_type f) v"
  shows "\<exists>ns'. set_first_config i name v ns = Some ns' \<and> list_all2 (instance_of ds) ns' sns \<and>
    (\<exists>n\<in>set ns'. ni_id n = i \<and> bt_get (ni_config n) name = Some v) \<and>
    (\<forall>n\<in>set ns. \<exists>n'\<in>set ns'. ni_id n' = ni_id n \<and>
       (\<forall>k. (ni_id n, k) \<noteq> (i, name) \<longrightarrow> bt_get (ni_config n') k = bt_get (ni_config n) k))"
  using assms(1,2,4)
proof (induction rule: list_all2_induct)
  case (Cons n ns s sns)
  show ?case
  proof (cases "ni_id n = i")
    case True
    then have "sn_id s = sn_id sn" using Cons.hyps(1) assms(3) by (simp add: instance_of_def)
    then have "sn \<notin> set sns" using Cons.prems(2) by (auto simp: image_iff)
    then have "s = sn" using Cons.prems(1) by simp
    then have "instance_of ds (n\<lparr>ni_config := bt_insert name v (ni_config n)\<rparr>) s"
      using Cons.hyps(1) assms(5-8) acceptable_insert [of "nd_config d" "ni_config n" f v]
      by (auto simp: instance_of_def bt_wf_insert)
    moreover have "bt_wf (ni_config n)" using Cons.hyps(1) by (simp add: instance_of_def)
    ultimately show ?thesis using True Cons.hyps(2) by (auto simp: bt_get_insert)
  next
    case False
    then have "sn \<in> set sns" "distinct (map sn_id sns)"
      using Cons.prems Cons.hyps(1) assms(3) by (auto simp: instance_of_def)
    from Cons.IH [OF this] obtain ns' where "set_first_config i name v ns = Some ns'" "list_all2 (instance_of ds) ns' sns"
      "\<exists>n\<in>set ns'. ni_id n = i \<and> bt_get (ni_config n) name = Some v"
      "\<forall>n\<in>set ns. \<exists>n'\<in>set ns'. ni_id n' = ni_id n \<and>
         (\<forall>k. (ni_id n, k) \<noteq> (i, name) \<longrightarrow> bt_get (ni_config n') k = bt_get (ni_config n) k)"
      by blast
    with False Cons.hyps(1) show ?thesis by (intro exI [of _ "n # ns'"]) auto
  qed
qed simp

text \<open>A binding whose outer value exists and is valid for the inner field it feeds.\<close>

definition binding_ok :: "config \<Rightarrow> descriptor_table \<Rightarrow> subgraph_node list \<Rightarrow> subgraph_config_map \<Rightarrow> bool" where
  "binding_ok outer ds sns m \<longleftrightarrow>
     (\<exists>v sn d f. bt_get outer (scm_outer m) = Some v \<and> sn \<in> set sns \<and> sn_id sn = scm_node m \<and>
        bt_get ds (type_key (sn_node_type sn)) = Some d \<and> f \<in> set (nd_config d) \<and> cf_name f = scm_inner m \<and>
        valid_value (cf_value_type f) v)"

lemma bind_config_all:
  assumes "list_all2 (instance_of ds) ns sns" and "distinct (map sn_id sns)"
    and "distinct (map (\<lambda>m. (scm_node m, scm_inner m)) (done_maps @ ms))"
    and "\<forall>m\<in>set ms. binding_ok outer ds sns m"
    and "\<forall>m\<in>set done_maps. delivered outer ns m"
  shows "\<exists>ns'. try_fold (bind_config sid outer) ns ms = Ok ns' \<and> list_all2 (instance_of ds) ns' sns \<and>
    (\<forall>m\<in>set (done_maps @ ms). delivered outer ns' m)"
  using assms(1,3-5)
proof (induction ms arbitrary: ns done_maps)
  case (Cons m ms)
  obtain v sn d f where v: "bt_get outer (scm_outer m) = Some v" and sn: "sn \<in> set sns" "sn_id sn = scm_node m"
    "bt_get ds (type_key (sn_node_type sn)) = Some d" "f \<in> set (nd_config d)" "cf_name f = scm_inner m"
    "valid_value (cf_value_type f) v"
    using Cons.prems(3) by (auto simp: binding_ok_def)
  obtain ns' where step: "set_first_config (scm_node m) (scm_inner m) v ns = Some ns'"
    and ns': "list_all2 (instance_of ds) ns' sns"
    and here: "\<exists>n\<in>set ns'. ni_id n = scm_node m \<and> bt_get (ni_config n) (scm_inner m) = Some v"
    and others: "\<forall>n\<in>set ns. \<exists>n'\<in>set ns'. ni_id n' = ni_id n \<and>
       (\<forall>k. (ni_id n, k) \<noteq> (scm_node m, scm_inner m) \<longrightarrow> bt_get (ni_config n') k = bt_get (ni_config n) k)"
    using set_first_config_step [OF Cons.prems(1) sn(1,2) assms(2) sn(3-6)] by blast
  have "delivered outer ns' m'" if "m' \<in> set (done_maps @ [m])" for m'
  proof (cases "m' = m")
    case True
    with here v show ?thesis by (simp add: delivered_def)
  next
    case False
    then have "m' \<in> set done_maps" using that by simp
    with Cons.prems(4) obtain n where n: "n \<in> set ns" "ni_id n = scm_node m'"
      "bt_get (ni_config n) (scm_inner m') = bt_get outer (scm_outer m')"
      by (auto simp: delivered_def)
    have "(scm_node m', scm_inner m') \<noteq> (scm_node m, scm_inner m)"
      using Cons.prems(2) \<open>m' \<in> set done_maps\<close> by (auto simp: image_iff)
    moreover obtain n' where "n' \<in> set ns'" "ni_id n' = ni_id n"
      "\<forall>k. (ni_id n, k) \<noteq> (scm_node m, scm_inner m) \<longrightarrow> bt_get (ni_config n') k = bt_get (ni_config n) k"
      using others n(1) by blast
    ultimately show ?thesis using n(2,3) by (auto simp: delivered_def)
  qed
  then have now: "\<forall>m'\<in>set (done_maps @ [m]). delivered outer ns' m'" by blast
  have dist: "distinct (map (\<lambda>m. (scm_node m, scm_inner m)) ((done_maps @ [m]) @ ms))"
    using Cons.prems(2) by simp
  have rest: "\<forall>m\<in>set ms. binding_ok outer ds sns m" using Cons.prems(3) by simp
  from Cons.IH [OF ns' dist rest now] obtain ns2 where "try_fold (bind_config sid outer) ns' ms = Ok ns2"
    and "list_all2 (instance_of ds) ns2 sns" and "\<forall>m'\<in>set ((done_maps @ [m]) @ ms). delivered outer ns2 m'"
    by blast
  moreover have "bind_config sid outer ns m = Ok ns'" using step v by (simp add: bind_config_def)
  ultimately show ?case by simp
qed simp

lemma lowering_bindings:
  assumes wf: "registry_wf H reg" and d: "bt_get (reg_descriptors reg) key = Some d" and l: "nd_subgraph d = Some l"
    and s: "bt_get (reg_subgraphs reg) (sl_subgraph l) = Some s"
    and oc: "canonicalize (nd_config d) supplied = Ok outer" and all: "\<forall>f\<in>set (nd_config d). bt_contains outer (cf_name f)"
  shows "distinct (map (\<lambda>m. (scm_node m, scm_inner m)) (sl_config_map l)) \<and>
    (\<forall>m\<in>set (sl_config_map l). binding_ok outer (reg_descriptors reg) (ss_nodes s) m)"
proof -
  have wfd: "schema_wf (nd_config d)" and low: "validate_subgraph_lowering d l (reg_subgraphs reg) (reg_descriptors reg) = Ok ()"
    using wf d l unfolding registry_wf_def descriptor_wf_def lowering_wf_def by blast+
  have valid: "\<not> invalid_config_map_from (config_binding_types d s (reg_descriptors reg)) {} (sl_config_map l)"
    using low s by (simp add: validate_subgraph_lowering_def guard_def Let_def split: if_splits)
  note map = config_map_valid [OF valid]
  have acc: "acceptable (nd_config d) outer"
    using canonical_is_acceptable [OF schema_wf_distinct [OF wfd] oc] .
  have "binding_ok outer (reg_descriptors reg) (ss_nodes s) m" if m: "m \<in> set (sl_config_map l)" for m
  proof -
    obtain o_ty i_ty where ty: "config_binding_types d s (reg_descriptors reg) m = Some (o_ty, i_ty)"
      and sat: "config_type_satisfies o_ty i_ty" using map m by blast
    obtain out node di inn where
      out: "bt_get (bt_collect (map (\<lambda>f. (cf_name f, f)) (nd_config d))) (scm_outer m) = Some out"
      and node: "bt_get (bt_collect (map (\<lambda>n. (sn_id n, n)) (ss_nodes s))) (scm_node m) = Some node"
      and di: "bt_get (reg_descriptors reg) (type_key (sn_node_type node)) = Some di"
      and inn: "List.find (\<lambda>f. cf_name f = scm_inner m) (nd_config di) = Some inn"
      and tys: "o_ty = cf_value_type out" "i_ty = cf_value_type inn"
      using ty by (auto simp: config_binding_types_def Option.bind_eq_Some_conv)
    have out': "out \<in> set (nd_config d)" "cf_name out = scm_outer m"
      using out by (auto simp: bt_get_collect dest!: map_of_SomeD)
    have node': "node \<in> set (ss_nodes s)" "sn_id node = scm_node m"
      using node by (auto simp: bt_get_collect dest!: map_of_SomeD)
    obtain v where v: "bt_get outer (scm_outer m) = Some v"
      using all out' by (auto simp: bt_contains_def)
    then have "valid_value (cf_value_type out) v"
      using acc out' by (auto simp: acceptable_def field_acceptable_def field_value_def)
    then have "valid_value (cf_value_type inn) v"
      using config_type_satisfies_sound [OF sat] tys by simp
    with v node' di find_SomeD [OF inn] show ?thesis unfolding binding_ok_def by blast
  qed
  with map show ?thesis by blast
qed

text \<open>Canonicalising the bound instances always succeeds and keeps what was delivered.\<close>

lemma canonicalize_instances:
  assumes "list_all2 (instance_of ds) ns sns"
  shows "\<exists>ns'. try_map (canonicalize_instance sid ds) ns = Ok ns' \<and> map ni_id ns' = map sn_id sns \<and>
    (\<forall>n\<in>set ns'. \<exists>d. bt_get ds (ni_descriptor n, ni_descriptor_version n) = Some d \<and>
       canonicalize (nd_config d) (ni_config n) = Ok (ni_config n)) \<and>
    (\<forall>outer m. delivered outer ns m \<longrightarrow> bt_contains outer (scm_outer m) \<longrightarrow> delivered outer ns' m)"
  using assms
proof (induction rule: list_all2_induct)
  case Nil
  show ?case by (simp add: delivered_def)
next
  case (Cons n ns sn sns)
  obtain d where id: "ni_id n = sn_id sn" and d: "bt_get ds (ni_descriptor n, ni_descriptor_version n) = Some d"
    and dist: "distinct (map cf_name (nd_config d))" and acc: "acceptable (nd_config d) (ni_config n)"
    using Cons.hyps(1) by (auto simp: instance_of_def)
  obtain c where c: "canonicalize (nd_config d) (ni_config n) = Ok c"
    using canonicalize_acceptable [OF acc] by blast
  let ?n = "n\<lparr>ni_config := c\<rparr>"
  have step: "canonicalize_instance sid ds n = Ok ?n"
    using d c by (simp add: canonicalize_instance_def)
  have keep: "bt_get c k = Some v" if k: "bt_get (ni_config n) k = Some v" for k v
  proof -
    have "k \<in> cf_name ` set (nd_config d)"
      using k acc by (force simp: acceptable_def bt_keys_def bt_get_def dest: map_of_SomeD)
    then obtain f where f: "f \<in> set (nd_config d)" "cf_name f = k" by blast
    then have "map_of (map (\<lambda>f. (cf_name f, f)) (nd_config d)) k = Some f"
      using dist by (auto simp: comp_def intro!: map_of_is_SomeI)
    with c dist k f show ?thesis
      by (simp add: canonicalize_Ok_iff canonical_lookup_def field_value_def)
  qed
  obtain ns' where ns': "try_map (canonicalize_instance sid ds) ns = Ok ns'" "map ni_id ns' = map sn_id sns"
    "\<forall>n\<in>set ns'. \<exists>d. bt_get ds (ni_descriptor n, ni_descriptor_version n) = Some d \<and>
       canonicalize (nd_config d) (ni_config n) = Ok (ni_config n)"
    "\<forall>outer m. delivered outer ns m \<longrightarrow> bt_contains outer (scm_outer m) \<longrightarrow> delivered outer ns' m"
    using Cons.IH by blast
  have again: "canonicalize (nd_config d) c = Ok c"
    using canonicalize_fixpoint [OF dist c] .
  have "delivered outer (?n # ns') m"
    if del: "delivered outer (n # ns) m" and con: "bt_contains outer (scm_outer m)" for outer m
  proof (cases "delivered outer ns m")
    case True
    with ns'(4) con show ?thesis by (auto simp: delivered_def)
  next
    case False
    with del have "ni_id n = scm_node m" "bt_get (ni_config n) (scm_inner m) = bt_get outer (scm_outer m)"
      by (auto simp: delivered_def)
    with con keep show ?thesis by (auto simp: delivered_def bt_contains_def)
  qed
  then show ?case
    using step ns' id d again by (intro exI [of _ "?n # ns'"]) auto
qed

lemma map_interfaces_Ok:
  assumes "\<forall>m\<in>set maps. pm_inner m \<in> set (map sip_name interfaces)"
  shows "\<exists>ps. map_interfaces sid maps interfaces = Ok ps"
  unfolding map_interfaces_def
  using assms
proof (induction maps)
  case (Cons m maps)
  then have "List.find (\<lambda>i. sip_name i = pm_inner m) interfaces \<noteq> None"
    by (auto simp: find_None_iff)
  then show ?case using Cons by (auto simp: outcome_simps)
qed simp

lemma materialize_Ok:
  assumes wf: "registry_wf H reg"
    and d: "bt_get (reg_descriptors reg) (ni_descriptor inst, ni_descriptor_version inst) = Some d"
    and l: "nd_subgraph d = Some l" and s: "bt_get (reg_subgraphs reg) (sl_subgraph l) = Some s"
    and leaf: "\<forall>n\<in>set (ss_nodes s). sn_child n = None"
    and oc: "canonicalize (nd_config d) (ni_config inst) = Ok outer"
    and all: "\<forall>f\<in>set (nd_config d). bt_contains outer (cf_name f)"
  shows "\<exists>m. materialize_subgraph reg inst = Ok m \<and>
    map ni_id (g_nodes (ms_graph m)) = map sn_id (ss_nodes s) \<and> g_edges (ms_graph m) = ss_edges s \<and>
    (\<forall>n\<in>set (g_nodes (ms_graph m)). \<exists>d. bt_get (reg_descriptors reg) (ni_descriptor n, ni_descriptor_version n) = Some d \<and>
       canonicalize (nd_config d) (ni_config n) = Ok (ni_config n)) \<and>
    (\<forall>b\<in>set (sl_config_map l). delivered outer (g_nodes (ms_graph m)) b)"
proof -
  have low: "validate_subgraph_lowering d l (reg_subgraphs reg) (reg_descriptors reg) = Ok ()"
    and swf: "subgraph_wf H reg s"
    using wf d l s unfolding registry_wf_def lowering_wf_def by blast+
  have node: "\<exists>d. bt_get (reg_descriptors reg) (type_key (sn_node_type n)) = Some d" if "n \<in> set (ss_nodes s)" for n
    using subgraph_wf_node [OF swf that] by (auto simp: node_wf_def)
  have "instance_of (reg_descriptors reg) (inner_instance n) n" if n: "n \<in> set (ss_nodes s)" for n
  proof -
    obtain dn where dn: "bt_get (reg_descriptors reg) (type_key (sn_node_type n)) = Some dn"
      and c: "canonicalize (nd_config dn) (sn_config n) = Ok (sn_config n)"
      using subgraph_wf_node [OF swf n] by (auto simp: node_wf_def)
    then have "distinct (map cf_name (nd_config dn))"
      using wf schema_wf_distinct unfolding registry_wf_def descriptor_wf_def by blast
    with dn c show ?thesis
      by (auto simp: instance_of_def inner_instance_def type_key_def canonicalize_Ok_iff)
  qed
  then have start: "list_all2 (instance_of (reg_descriptors reg)) (map inner_instance (ss_nodes s)) (ss_nodes s)"
    by (simp add: list_all2_map1 list_all2_same)
  note bind = lowering_bindings [OF wf d l s oc all]
  have dist: "distinct (map sn_id (ss_nodes s))" using swf by (simp add: subgraph_wf_def)
  obtain ns where ns: "try_fold (bind_config (ss_id s) outer) (map inner_instance (ss_nodes s)) (sl_config_map l) = Ok ns"
    "list_all2 (instance_of (reg_descriptors reg)) ns (ss_nodes s)" "\<forall>b\<in>set (sl_config_map l). delivered outer ns b"
    using bind_config_all [OF start dist, of "[]" "sl_config_map l" outer "ss_id s"] bind by auto
  obtain ns' where ns': "try_map (canonicalize_instance (ss_id s) (reg_descriptors reg)) ns = Ok ns'"
    "map ni_id ns' = map sn_id (ss_nodes s)"
    "\<forall>n\<in>set ns'. \<exists>d. bt_get (reg_descriptors reg) (ni_descriptor n, ni_descriptor_version n) = Some d \<and>
       canonicalize (nd_config d) (ni_config n) = Ok (ni_config n)"
    "\<forall>outer m. delivered outer ns m \<longrightarrow> bt_contains outer (scm_outer m) \<longrightarrow> delivered outer ns' m"
    using canonicalize_instances [OF ns(2), of "ss_id s"] by blast
  have "\<exists>ps. map_interfaces (ss_id s) (sl_input_map l) (ss_inputs s) = Ok ps"
    and "\<exists>ps. map_interfaces (ss_id s) (sl_output_map l) (ss_outputs s) = Ok ps"
    using low s by (intro map_interfaces_Ok;
      simp add: validate_subgraph_lowering_def guard_def Let_def split: if_splits)+
  then obtain ins outs where io: "map_interfaces (ss_id s) (sl_input_map l) (ss_inputs s) = Ok ins"
    "map_interfaces (ss_id s) (sl_output_map l) (ss_outputs s) = Ok outs" by blast
  have "\<exists>cs. try_map (\<lambda>n. and_then (expect (bt_get (reg_descriptors reg) (type_key (sn_node_type n))))
      (\<lambda>d. Ok (nd_capabilities d))) nodes = (Ok cs :: (compile_error, _) outcome)" if "set nodes \<subseteq> set (ss_nodes s)" for nodes
    using that
  proof (induction nodes)
    case (Cons n nodes)
    then obtain dn where "bt_get (reg_descriptors reg) (type_key (sn_node_type n)) = Some dn" using node by auto
    with Cons show ?case by auto
  qed simp
  then obtain cs where cs: "try_map (\<lambda>n. and_then (expect (bt_get (reg_descriptors reg) (type_key (sn_node_type n))))
      (\<lambda>d. Ok (nd_capabilities d))) (ss_nodes s) = (Ok cs :: (compile_error, _) outcome)" by blast
  have "delivered outer ns' b" if b: "b \<in> set (sl_config_map l)" for b
    using ns(3) ns'(4) b bind by (auto simp: binding_ok_def bt_contains_def)
  moreover have "\<not> (\<exists>n\<in>set (ss_nodes s). sn_child n \<noteq> None)" using leaf by simp
  ultimately show ?thesis
    using ns'(2,3) by (simp add: materialize_subgraph_def d l low s oc ns(1) ns'(1) io cs)
qed

section \<open>Properties\<close>

datatype registration_request =
  RegisterDescriptor node_descriptor | RegisterSubgraph subgraph_schema | RegisterKernel kernel_descriptor

fun apply_registration :: "hasher \<Rightarrow> kernel_registry \<Rightarrow> registration_request \<Rightarrow> (compile_error, kernel_registry) outcome" where
  "apply_registration H reg (RegisterDescriptor d) = register_descriptor reg d"
| "apply_registration H reg (RegisterSubgraph s) = register_subgraph H reg s"
| "apply_registration H reg (RegisterKernel k) = register_kernel reg k"

text \<open>A rejected registration returns before the first insertion: the registry stays as it was.\<close>

definition registration_step :: "hasher \<Rightarrow> kernel_registry \<Rightarrow> registration_request \<Rightarrow> kernel_registry" where
  "registration_step H reg r = (case apply_registration H reg r of Ok reg' \<Rightarrow> reg' | _ \<Rightarrow> reg)"

definition empty_registry :: kernel_registry where
  "empty_registry = \<lparr>reg_descriptors = bt_empty, reg_kernels = bt_empty, reg_subgraphs = bt_empty\<rparr>"

interpretation requests: registration "apply_registration H" H for H
proof
  fix reg r
  assume "registry_wf H reg"
  then show "safely (apply_registration H reg r) (\<lambda>reg'. registry_wf H reg' \<and> registry_le reg reg')"
    by (cases r) (simp_all add: register_descriptor_safe register_subgraph_safe register_kernel_safe)
qed

lemma registry_wf_empty: "registry_wf H empty_registry"
  by (simp add: registry_wf_def empty_registry_def bt.wf_empty child_relation_def acyclic_def)

lemma registration_step_wf:
  "registry_wf H reg \<Longrightarrow> registry_wf H (registration_step H reg r) \<and> registry_le reg (registration_step H reg r)"
  using requests.register_safe [of H reg r]
  by (auto simp: registration_step_def safely_iff split: outcome.splits)

lemma registration_steps_wf:
  "registry_wf H reg \<Longrightarrow> registry_wf H (foldl (registration_step H) reg rs)"
  by (induction rs arbitrary: reg) (simp_all add: registration_step_wf)

text \<open>
  C13. Whatever sequence of registrations is attempted, starting from the empty registry, the
  registry is well-formed after each: every descriptor, kernel and subgraph stored under its own
  key and valid, every lowering valid against the current tables, every subgraph content-addressed
  with canonical inner configurations and fully bound typed acyclic edges, and the hierarchy of
  subgraphs acyclic. No registration panics and none replaces an earlier entry.
\<close>

theorem registry_invariant:
  shows "registry_wf H (foldl (registration_step H) empty_registry rs) \<and>
    registry_le (foldl (registration_step H) empty_registry rs) (foldl (registration_step H) empty_registry (rs @ [r])) \<and>
    apply_registration H (foldl (registration_step H) empty_registry rs) r \<noteq> Panic"
proof -
  note wf = registration_steps_wf [OF registry_wf_empty, of H rs]
  from registration_step_wf [OF wf] requests.register_safe [OF wf, of r] wf show ?thesis
    by (simp add: safely_iff)
qed

subsection \<open>A registry with one level of hierarchy\<close>

definition sample_inner :: node_descriptor where
  "sample_inner = (sample_descriptor [] [])
     \<lparr>nd_config := [\<lparr>cf_name = ''rate'', cf_value_type = TU64 1 9, cf_required = True, cf_default = None\<rparr>]\<rparr>"

definition sample_schema_1 :: subgraph_schema where
  "sample_schema_1 =
     \<lparr>ss_id = replicate 32 5, ss_version = 1,
      ss_nodes = [\<lparr>sn_id = 1, sn_node_type = \<lparr>ntr_type_name = ''example'', ntr_version = 1\<rparr>,
                   sn_config = [(''rate'', VU64 3)], sn_child = None\<rparr>],
      ss_edges = [], ss_inputs = [], ss_outputs = []\<rparr>"

definition sample_lowering :: subgraph_lowering where
  "sample_lowering =
     \<lparr>sl_subgraph = replicate 32 5, sl_input_map = [], sl_output_map = [],
      sl_config_map = [SubgraphConfigMap ''speed'' 1 ''rate'']\<rparr>"

definition sample_outer :: node_descriptor where
  "sample_outer = (sample_descriptor [] [])
     \<lparr>nd_type_name := ''outer'', nd_subgraph := Some sample_lowering,
      nd_config := [\<lparr>cf_name = ''speed'', cf_value_type = TU64 2 5, cf_required = False, cf_default = Some (VU64 4)\<rparr>]\<rparr>"

definition sample_hasher :: hasher where
  "sample_hasher context message = replicate 32 5"

definition sample_registry :: kernel_registry where
  "sample_registry = foldl (registration_step sample_hasher) empty_registry
     [RegisterDescriptor sample_inner, RegisterSubgraph sample_schema_1, RegisterDescriptor sample_outer,
      RegisterKernel (sample_kernel 7)]"

lemma sample_registry_wf: "registry_wf sample_hasher sample_registry"
  unfolding sample_registry_def by (rule registration_steps_wf [OF registry_wf_empty])

lemma sample_registry_lookup:
  "bt_get (reg_descriptors sample_registry) (''outer'', 1) = Some sample_outer"
  "bt_get (reg_subgraphs sample_registry) (replicate 32 5) = Some sample_schema_1"
  by code_simp+

text \<open>
  C34. On a well-formed registry, the bounded walk over the hierarchy below a registered subgraph
  terminates with success, or with the depth or the entry limit: it never meets an unknown or
  cyclic subgraph. When it succeeds, no chain of children below the root is as long as the depth
  limit allows to exceed.
\<close>

theorem validate_subgraph_path_bounds:
  assumes "registry_wf H reg" and "bt_contains (reg_subgraphs reg) root"
  shows "validate_subgraph_path (reg_subgraphs reg) root max_depth max_entries
      \<in> {Ok (), Err SubgraphDepthExceeded, Err SubgraphEntryLimitExceeded} \<and>
    (validate_subgraph_path (reg_subgraphs reg) root max_depth max_entries = Ok () \<longrightarrow>
      (\<forall>k x. (x, root) \<in> child_relation reg ^^ k \<longrightarrow> Suc k \<le> max_depth))"
  using path_loop_hierarchy [OF assms(1), of "[(root, 1, {})]" max_depth max_entries 0] assms(2)
  by (simp add: validate_subgraph_path_def)

theorem validate_subgraph_path_bounds_witness:
  "\<not> (\<exists>x. (x, replicate 32 5) \<in> child_relation sample_registry)"
proof -
  have "bt_contains (reg_subgraphs sample_registry) (replicate 32 5)"
    by (simp add: bt_contains_def sample_registry_lookup)
  moreover have "validate_subgraph_path (reg_subgraphs sample_registry) (replicate 32 5) 1 10 = Ok ()"
    unfolding validate_subgraph_path_def
    by (subst path_loop.simps, simp add: sample_registry_lookup schema_entries_def sample_schema_1_def
        schema_children_def usize_checked_add_def map_filter_simps, subst path_loop.simps, simp)
  ultimately have "\<forall>k x. (x, replicate 32 5) \<in> child_relation sample_registry ^^ k \<longrightarrow> Suc k \<le> 1"
    using validate_subgraph_path_bounds [OF sample_registry_wf] by blast
  from spec [OF this, of 1] show ?thesis by simp
qed

text \<open>
  C33. Materialising a leaf subgraph cannot fail: if the registry is well-formed, the outer
  configuration is accepted and gives every outer field a value, then \<open>materialize_subgraph\<close> returns
  the inner graph with the schema's nodes and edges, every inner configuration is canonical for its
  descriptor, and every configuration binding has delivered the outer value to the inner field.
\<close>

theorem materialize_subgraph_complete:
  assumes "registry_wf H reg"
    and "bt_get (reg_descriptors reg) (ni_descriptor inst, ni_descriptor_version inst) = Some d"
    and "nd_subgraph d = Some l" and "bt_get (reg_subgraphs reg) (sl_subgraph l) = Some s"
    and "\<forall>n\<in>set (ss_nodes s). sn_child n = None"
    and "canonicalize (nd_config d) (ni_config inst) = Ok outer"
    and "\<forall>f\<in>set (nd_config d). bt_contains outer (cf_name f)"
  shows "\<exists>m. materialize_subgraph reg inst = Ok m \<and>
    map ni_id (g_nodes (ms_graph m)) = map sn_id (ss_nodes s) \<and> g_edges (ms_graph m) = ss_edges s \<and>
    (\<forall>n\<in>set (g_nodes (ms_graph m)). \<exists>d. bt_get (reg_descriptors reg) (ni_descriptor n, ni_descriptor_version n) = Some d \<and>
       canonicalize (nd_config d) (ni_config n) = Ok (ni_config n)) \<and>
    (\<forall>b\<in>set (sl_config_map l). delivered outer (g_nodes (ms_graph m)) b)"
  using materialize_Ok [OF assms] .

theorem materialize_subgraph_complete_witness:
  "\<exists>m. materialize_subgraph sample_registry
      \<lparr>ni_id = 9, ni_descriptor = ''outer'', ni_descriptor_version = 1, ni_config = []\<rparr> = Ok m \<and>
    delivered [(''speed'', VU64 4)] (g_nodes (ms_graph m)) (SubgraphConfigMap ''speed'' 1 ''rate'')"
proof -
  let ?inst = "\<lparr>ni_id = 9, ni_descriptor = ''outer'', ni_descriptor_version = 1, ni_config = []\<rparr> :: node_instance"
  have "bt_get (reg_descriptors sample_registry) (ni_descriptor ?inst, ni_descriptor_version ?inst) = Some sample_outer"
    by (simp add: sample_registry_lookup)
  moreover have "nd_subgraph sample_outer = Some sample_lowering" by (simp add: sample_outer_def)
  moreover have "bt_get (reg_subgraphs sample_registry) (sl_subgraph sample_lowering) = Some sample_schema_1"
    by (simp add: sample_registry_lookup sample_lowering_def)
  moreover have "\<forall>n\<in>set (ss_nodes sample_schema_1). sn_child n = None" by (simp add: sample_schema_1_def)
  moreover have "canonicalize (nd_config sample_outer) (ni_config ?inst) = Ok [(''speed'', VU64 4)]" by code_simp
  moreover have "\<forall>f\<in>set (nd_config sample_outer). bt_contains [(''speed'', VU64 4)] (cf_name f)" by code_simp
  moreover have "SubgraphConfigMap ''speed'' 1 ''rate'' \<in> set (sl_config_map sample_lowering)"
    by (simp add: sample_lowering_def)
  ultimately show ?thesis
    using materialize_subgraph_complete [OF sample_registry_wf] by blast
qed

end
