(* ===== verification/Authorize.thy ===== *)
theory Authorize
  imports Wire Registry
begin

text \<open>
  Authorization of a decoded plan against the registry:
  \<open>KernelRegistry::decode_authorized_plan\<close> of \<open>crates/blut-graph-core/src/compile.rs\<close>. The lemmas show
  that the check never panics and that what it lets through runs only registered kernels, on
  registered node types, with the contracts the registry holds for them.
\<close>

section \<open>The check of one step\<close>

definition kernel_mismatch :: "target \<Rightarrow> kernel_descriptor \<Rightarrow> compiled_node \<Rightarrow> bool" where
  "kernel_mismatch target kern node =
     (kd_target kern \<noteq> target \<or> kd_implements kern \<noteq> cn_semantic_types node \<or>
      kd_implementation_id kern \<noteq> cn_implementation_id node \<or> kd_conversion kern \<noteq> cn_conversion node \<or>
      kd_resources kern \<noteq> cn_resources node \<or> kd_determinism kern \<noteq> cn_determinism node \<or>
      kd_lowering kern \<noteq> cn_lowering node)"

definition authorize_conversion ::
    "kernel_descriptor \<Rightarrow> compiled_node \<Rightarrow> layout_conversion \<Rightarrow> (plan_decode_error, unit) outcome" where
  "authorize_conversion kern node conversion =
     and_then (any_of
       [Ok (kd_implements kern \<noteq> []),
        Ok (cn_input_ports node \<noteq> [''input'']),
        Ok (cn_output_ports node \<noteq> [''output'']),
        Ok (length (cn_input_contracts node) \<noteq> 1),
        Ok (length (cn_output_contracts node) \<noteq> 1),
        and_then (index (cn_input_contracts node) 0) (\<lambda>inp.
        and_then (index (cn_output_contracts node) 0) (\<lambda>out.
          Ok (\<not> conversion_contracts_match inp out conversion))),
        Ok (cn_partiality node \<noteq> Atomic),
        Ok (fc_domains (cn_failure node) \<noteq> []),
        Ok (cn_state node \<noteq> stateless),
        Ok (cn_subgraph_path node \<noteq> [])])
       (\<lambda>invalid. guard invalid UnauthorizedPlan)"

definition config_not_canonical :: "node_descriptor \<Rightarrow> config \<Rightarrow> bool" where
  "config_not_canonical descriptor config =
     (case canonicalize (nd_config descriptor) config of
        Ok canonical \<Rightarrow> canonical \<noteq> config
      | _ \<Rightarrow> True)"

definition invocation_mismatch ::
    "compiled_plan \<Rightarrow> compiled_node \<Rightarrow> port_descriptor \<times> input_binding \<Rightarrow> (plan_decode_error, bool) outcome" where
  "invocation_mismatch plan node port =
     (if \<not> pd_optional (fst port) \<and> snd port = Absent then Ok True
      else case snd port of
        InInvocation invocation \<Rightarrow>
          (case get (p_invocation_ports plan) (unat invocation) of
             None \<Rightarrow> Ok True
           | Some invocation_port \<Rightarrow>
               and_then (index (cn_semantic_nodes node) 0) (\<lambda>first_node.
                 Ok (pr_node invocation_port \<noteq> first_node \<or> pr_port invocation_port \<noteq> pd_name (fst port))))
      | _ \<Rightarrow> Ok False)"

definition ports_unauthorized ::
    "compiled_plan \<Rightarrow> kernel_descriptor \<Rightarrow> compiled_node \<Rightarrow> node_descriptor list \<Rightarrow> node_descriptor \<Rightarrow> node_descriptor \<Rightarrow>
     (plan_decode_error, bool) outcome" where
  "ports_unauthorized plan kern node semantic_descriptors fst_desc lst_desc = any_of
     [Ok (\<exists>descriptor \<in> set semantic_descriptors. kd_determinism kern > nd_determinism descriptor),
      Ok (\<not> fused_layouts_compatible fst_desc lst_desc kern),
      Ok (length (cn_input_bindings node) \<noteq> length (nd_inputs fst_desc)),
      Ok (length (cn_output_bindings node) \<noteq> length (nd_outputs lst_desc)),
      Ok (cn_input_ports node \<noteq> map pd_name (nd_inputs fst_desc)),
      Ok (length (cn_input_contracts node) \<noteq> length (nd_inputs fst_desc)),
      Ok (length (cn_output_contracts node) \<noteq> length (nd_outputs lst_desc)),
      Ok (\<exists>c \<in> set (cn_input_contracts node). cp_layout c \<notin> set (kd_input_layouts kern)),
      Ok (\<exists>c \<in> set (cn_output_contracts node). cp_layout c \<notin> set (kd_output_layouts kern)),
      Ok (\<exists>(compiled, port) \<in> set (zip (cn_input_contracts node) (nd_inputs fst_desc)).
            \<not> compiled_port_matches compiled port),
      Ok (\<exists>(compiled, port) \<in> set (zip (cn_output_contracts node) (nd_outputs lst_desc)).
            \<not> compiled_port_matches compiled port),
      Ok (cn_output_ports node \<noteq> map pd_name (nd_outputs lst_desc)),
      any_in (invocation_mismatch plan node) (zip (nd_inputs fst_desc) (cn_input_bindings node))]"

definition authorize_single ::
    "kernel_registry \<Rightarrow> plan_limits \<Rightarrow> compiled_node \<Rightarrow> node_descriptor \<Rightarrow> (plan_decode_error, unit) outcome" where
  "authorize_single reg limits node fst_desc =
     and_then (guard (cn_effect node \<noteq> nd_effect fst_desc \<or> cn_retry_limit node \<noteq> nd_retry_limit fst_desc \<or>
                      cn_state node \<noteq> nd_state fst_desc \<or>
                      cn_subgraph_path node \<noteq> (case nd_subgraph fst_desc of None \<Rightarrow> [] | Some lowering \<Rightarrow> [sl_subgraph lowering]) \<or>
                      cn_partiality node \<noteq> nd_partiality fst_desc \<or> cn_failure node \<noteq> nd_failure fst_desc)
       UnauthorizedPlan) (\<lambda>_.
     case nd_subgraph fst_desc of
       None \<Rightarrow> Ok ()
     | Some lowering \<Rightarrow>
         and_then (map_err (\<lambda>_. UnauthorizedPlan)
           (validate_subgraph_path (reg_subgraphs reg) (sl_subgraph lowering)
              (pl_max_subgraph_depth limits) (pl_max_contract_entries limits))) (\<lambda>_.
         map_err (\<lambda>_. UnauthorizedPlan)
           (validate_subgraph_lowering fst_desc lowering (reg_subgraphs reg) (reg_descriptors reg))))"

definition authorize_fused :: "compiled_node \<Rightarrow> node_descriptor list \<Rightarrow> (plan_decode_error, unit) outcome" where
  "authorize_fused node semantic_descriptors =
     guard (cn_effect node \<noteq> Pure \<or> cn_retry_limit node \<noteq> 0 \<or> cn_state node \<noteq> stateless \<or>
            cn_subgraph_path node \<noteq> [] \<or> cn_partiality node \<noteq> Atomic \<or>
            fc_domains (cn_failure node) \<noteq> failure_domain_union semantic_descriptors \<or>
            (\<exists>descriptor \<in> set semantic_descriptors.
               nd_effect descriptor \<noteq> Pure \<or> sc_scope (nd_state descriptor) \<noteq> Stateless \<or>
               nd_retry_limit descriptor \<noteq> 0 \<or> checkpointable (nd_state descriptor) \<or>
               nd_partiality descriptor \<noteq> Atomic \<or> nd_subgraph descriptor \<noteq> None))
       UnauthorizedPlan"

definition authorize_node ::
    "kernel_registry \<Rightarrow> plan_limits \<Rightarrow> compiled_plan \<Rightarrow> compiled_node \<Rightarrow> (plan_decode_error, unit) outcome" where
  "authorize_node reg limits plan node =
     and_then (ok_or (bt_get (reg_kernels reg) (cn_kernel node)) UnauthorizedPlan) (\<lambda>kern.
     and_then (guard (kernel_mismatch (realm_target (p_realm plan)) kern node) UnauthorizedPlan) (\<lambda>_.
     case cn_conversion node of
       Some conversion \<Rightarrow> authorize_conversion kern node conversion
     | None \<Rightarrow>
         and_then (try_map (\<lambda>t. ok_or (bt_get (reg_descriptors reg) (type_key t)) UnauthorizedPlan)
             (cn_semantic_types node)) (\<lambda>semantic_descriptors.
         and_then (ok_or (first_opt semantic_descriptors) UnauthorizedPlan) (\<lambda>fst_desc.
         and_then (ok_or (last_opt semantic_descriptors) UnauthorizedPlan) (\<lambda>lst_desc.
         and_then (guard (\<exists>(descriptor, config) \<in> set (zip semantic_descriptors (cn_semantic_configs node)).
             config_not_canonical descriptor config) UnauthorizedPlan) (\<lambda>_.
         and_then (ports_unauthorized plan kern node semantic_descriptors fst_desc lst_desc) (\<lambda>invalid.
         and_then (guard invalid UnauthorizedPlan) (\<lambda>_.
         if length semantic_descriptors = 1 then authorize_single reg limits node fst_desc
         else authorize_fused node semantic_descriptors))))))))"

definition decode_authorized_plan ::
    "hasher \<Rightarrow> plan_decoder \<Rightarrow> kernel_registry \<Rightarrow> bytes \<Rightarrow> plan_limits \<Rightarrow> plan_authorization \<Rightarrow>
     (plan_decode_error, authorized_plan) outcome" where
  "decode_authorized_plan H dec reg bs limits authorization =
     and_then (from_authorized_aot_bytes H dec bs limits authorization) (\<lambda>plan.
     and_then (try_fold (\<lambda>_. authorize_node reg limits plan) () (p_nodes plan)) (\<lambda>_.
     Ok (AuthorizedPlan plan)))"

section \<open>What an authorized step is\<close>

text \<open>
  A step is authorized when its kernel is registered for the plan's target with the very contract the
  step carries, and the step is either a layout conversion of that kernel or runs registered node
  types: their configurations are canonical, every required input is bound, each port has the
  registered contract in a layout the kernel accepts, the kernel is at least as deterministic as each
  node type, and effect, retry limit, state and failure contract are the registered ones (of the one
  node, or those a fused run of pure nodes has).
\<close>

definition step_descriptors :: "kernel_registry \<Rightarrow> compiled_node \<Rightarrow> node_descriptor list \<Rightarrow> bool" where
  "step_descriptors reg node ds =
     (list_all2 (\<lambda>t d. bt_get (reg_descriptors reg) (type_key t) = Some d) (cn_semantic_types node) ds \<and> ds \<noteq> [])"

definition ports_registered ::
    "port_descriptor list \<Rightarrow> compiled_port_contract list \<Rightarrow> layout list \<Rightarrow> bool" where
  "ports_registered ports contracts layouts =
     list_all2 (\<lambda>port c. compiled_port_matches c port \<and> cp_layout c \<in> set layouts) ports contracts"

definition behaviour_registered :: "compiled_node \<Rightarrow> node_descriptor list \<Rightarrow> bool" where
  "behaviour_registered node ds =
     (case ds of
        [d] \<Rightarrow> cn_effect node = nd_effect d \<and> cn_retry_limit node = nd_retry_limit d \<and> cn_state node = nd_state d \<and>
               cn_partiality node = nd_partiality d \<and> cn_failure node = nd_failure d
      | _ \<Rightarrow> cn_effect node = Pure \<and> cn_retry_limit node = 0 \<and> cn_state node = stateless \<and> cn_partiality node = Atomic \<and>
             fc_domains (cn_failure node) = failure_domain_union ds \<and>
             (\<forall>d \<in> set ds. nd_effect d = Pure \<and> sc_scope (nd_state d) = Stateless \<and> nd_partiality d = Atomic))"

definition authorized_step :: "kernel_registry \<Rightarrow> compiled_plan \<Rightarrow> compiled_node \<Rightarrow> bool" where
  "authorized_step reg plan node =
     (\<exists>kern. bt_get (reg_kernels reg) (cn_kernel node) = Some kern \<and>
        \<not> kernel_mismatch (realm_target (p_realm plan)) kern node \<and>
        (case cn_conversion node of
           Some conversion \<Rightarrow>
             \<exists>inp out. cn_input_contracts node = [inp] \<and> cn_output_contracts node = [out] \<and>
               conversion_contracts_match inp out conversion
         | None \<Rightarrow>
             \<exists>ds. step_descriptors reg node ds \<and>
               (\<forall>d \<in> set ds. kd_determinism kern \<le> nd_determinism d) \<and>
               list_all2 (\<lambda>d config. canonicalize (nd_config d) config = Ok config) ds (cn_semantic_configs node) \<and>
               ports_registered (nd_inputs (hd ds)) (cn_input_contracts node) (kd_input_layouts kern) \<and>
               ports_registered (nd_outputs (last ds)) (cn_output_contracts node) (kd_output_layouts kern) \<and>
               list_all2 (\<lambda>port binding. pd_optional port \<or> binding \<noteq> Absent) (nd_inputs (hd ds)) (cn_input_bindings node) \<and>
               behaviour_registered node ds))"

lemma config_not_canonical_iff: "\<not> config_not_canonical d c \<longleftrightarrow> canonicalize (nd_config d) c = Ok c"
  by (auto simp: config_not_canonical_def split: outcome.splits)

lemma first_opt_hd: "first_opt xs = Some x \<Longrightarrow> x = hd xs \<and> xs \<noteq> []"
  by (simp add: first_opt_Some_iff)

lemma last_opt_last: "last_opt xs = Some x \<Longrightarrow> x = last xs"
  by (simp add: last_opt_Some_iff)

lemma ports_authorized:
  assumes "ports_unauthorized plan kern node ds d e = Ok False"
  shows "\<forall>x \<in> set ds. kd_determinism kern \<le> nd_determinism x"
    and "ports_registered (nd_inputs d) (cn_input_contracts node) (kd_input_layouts kern)"
    and "ports_registered (nd_outputs e) (cn_output_contracts node) (kd_output_layouts kern)"
    and "list_all2 (\<lambda>port binding. pd_optional port \<or> binding \<noteq> Absent) (nd_inputs d) (cn_input_bindings node)"
proof -
  have facts: "\<not> (\<exists>descriptor \<in> set ds. kd_determinism kern > nd_determinism descriptor)"
    "length (cn_input_bindings node) = length (nd_inputs d)"
    "length (cn_input_contracts node) = length (nd_inputs d)" "length (cn_output_contracts node) = length (nd_outputs e)"
    "\<not> (\<exists>c \<in> set (cn_input_contracts node). cp_layout c \<notin> set (kd_input_layouts kern))"
    "\<not> (\<exists>c \<in> set (cn_output_contracts node). cp_layout c \<notin> set (kd_output_layouts kern))"
    "\<not> (\<exists>(compiled, port) \<in> set (zip (cn_input_contracts node) (nd_inputs d)). \<not> compiled_port_matches compiled port)"
    "\<not> (\<exists>(compiled, port) \<in> set (zip (cn_output_contracts node) (nd_outputs e)). \<not> compiled_port_matches compiled port)"
    "any_in (invocation_mismatch plan node) (zip (nd_inputs d) (cn_input_bindings node)) = Ok False"
    using assms by (simp_all add: ports_unauthorized_def any_of_False_iff)
  from facts(1) show "\<forall>x \<in> set ds. kd_determinism kern \<le> nd_determinism x" by (auto simp: not_less)
  show "ports_registered (nd_inputs d) (cn_input_contracts node) (kd_input_layouts kern)"
    using facts(3,5,7) by (force simp: ports_registered_def list_all2_iff set_zip)
  show "ports_registered (nd_outputs e) (cn_output_contracts node) (kd_output_layouts kern)"
    using facts(4,6,8) by (force simp: ports_registered_def list_all2_iff set_zip)
  have "pd_optional port \<or> binding \<noteq> Absent" if "(port, binding) \<in> set (zip (nd_inputs d) (cn_input_bindings node))" for port binding
    using bspec [OF facts(9) [unfolded any_in_False_iff] that] by (auto simp: invocation_mismatch_def split: if_splits)
  with facts(2) show "list_all2 (\<lambda>port binding. pd_optional port \<or> binding \<noteq> Absent) (nd_inputs d) (cn_input_bindings node)"
    by (auto simp: list_all2_iff)
qed

lemma guard_any_Ok: "and_then m (\<lambda>invalid. guard invalid e) = Ok () \<longleftrightarrow> m = Ok False"
  by (cases m) (auto simp: guard_def)

lemma authorize_node_sound:
  assumes "authorize_node reg limits plan node = Ok ()"
    and "length (cn_semantic_types node) = length (cn_semantic_configs node)"
  shows "authorized_step reg plan node"
proof -
  from assms(1) obtain kern where kern: "bt_get (reg_kernels reg) (cn_kernel node) = Some kern"
    and same: "\<not> kernel_mismatch (realm_target (p_realm plan)) kern node"
    by (auto simp: authorize_node_def outcome_simps)
  note node = assms(1) [unfolded authorize_node_def kern, simplified, simplified guard_def same, simplified]
  show ?thesis
  proof (cases "cn_conversion node")
    case (Some conversion)
    with node have conv: "authorize_conversion kern node conversion = Ok ()" by simp
    then have "length (cn_input_contracts node) = 1" "length (cn_output_contracts node) = 1"
      by (simp_all add: authorize_conversion_def guard_any_Ok any_of_False_iff)
    then obtain inp out where ports: "cn_input_contracts node = [inp]" "cn_output_contracts node = [out]"
      by (auto simp: length_Suc_conv)
    with conv have "conversion_contracts_match inp out conversion"
      by (simp add: authorize_conversion_def guard_any_Ok any_of_False_iff index_def)
    with kern same Some ports show ?thesis by (auto simp: authorized_step_def)
  next
    case None
    with node obtain ds where
      types: "try_map (\<lambda>t. ok_or (bt_get (reg_descriptors reg) (type_key t)) UnauthorizedPlan) (cn_semantic_types node) = Ok ds"
      and "ds \<noteq> []" and canonical: "\<forall>(d, config) \<in> set (zip ds (cn_semantic_configs node)). canonicalize (nd_config d) config = Ok config"
      and ports: "ports_unauthorized plan kern node ds (hd ds) (last ds) = Ok False"
      and behaviour: "(if length ds = 1 then authorize_single reg limits node (hd ds) else authorize_fused node ds) = Ok ()"
      by (auto simp: outcome_simps case_prod_unfold simp flip: config_not_canonical_iff split: if_splits dest!: first_opt_hd last_opt_last)
    from types have descriptors: "list_all2 (\<lambda>t d. bt_get (reg_descriptors reg) (type_key t) = Some d) (cn_semantic_types node) ds"
      by (auto simp: try_map_Ok_iff outcome_simps list_all2_conv_all_nth)
    then have "length ds = length (cn_semantic_configs node)"
      using assms(2) by (simp add: list_all2_lengthD)
    with canonical have "list_all2 (\<lambda>d config. canonicalize (nd_config d) config = Ok config) ds (cn_semantic_configs node)"
      by (auto simp: list_all2_iff)
    moreover from behaviour have "behaviour_registered node ds"
      by (auto simp: behaviour_registered_def authorize_single_def authorize_fused_def outcome_simps
          split: list.splits if_splits)
    ultimately show ?thesis
      unfolding authorized_step_def None using kern same descriptors \<open>ds \<noteq> []\<close> ports_authorized [OF ports]
      by (auto simp: step_descriptors_def)
  qed
qed

text \<open>
  C2. What the registry authorizes is what it holds. A plan that decodes and is authorized has the
  realm and the identity the caller trusts, its identity is the hash of its content, it is
  well-formed, and every step of it is an authorized step: a registered kernel for the realm's
  target, carrying the registered contracts of registered node types.
\<close>

theorem decode_authorized_plan_sound:
  assumes "decode_authorized_plan H dec reg bs limits authorization = Ok (AuthorizedPlan plan)"
  shows "p_realm plan = pa_expected_realm authorization \<and> p_plan_id plan = pa_expected_plan_id authorization \<and>
         p_plan_id plan = hash_plan H plan \<and> well_formed_plan plan \<and>
         (\<forall>node \<in> set (p_nodes plan). authorized_step reg plan node)"
proof -
  from assms have decoded: "from_aot_bytes H dec bs limits = Ok plan"
    and expected: "p_realm plan = pa_expected_realm authorization" "p_plan_id plan = pa_expected_plan_id authorization"
    and steps: "try_fold (\<lambda>_. authorize_node reg limits plan) () (p_nodes plan) = Ok ()"
    by (auto simp: decode_authorized_plan_def from_authorized_aot_bytes_def outcome_simps)
  note valid = from_aot_bytes_validated [OF decoded]
  have wf: "well_formed_plan plan" by (rule validate_plan_well_formed [OF valid])
  have "authorized_step reg plan node" if "node \<in> set (p_nodes plan)" for node
  proof (rule authorize_node_sound)
    show "authorize_node reg limits plan node = Ok ()" using try_fold_each [OF steps that] by auto
    show "length (cn_semantic_types node) = length (cn_semantic_configs node)"
      using well_formed_step [OF wf that] by (auto simp: step_valid_def)
  qed
  moreover have "p_plan_id plan = hash_plan H plan" using valid by (rule validate_plan_Ok)
  ultimately show ?thesis using expected wf by blast
qed

section \<open>Authorization never panics\<close>

lemma path_loop_not_Panic: "path_loop schemas max_depth max_entries frames searched \<noteq> Panic"
proof (induction schemas max_depth max_entries frames searched rule: path_loop.induct)
  case (1 schemas max_depth max_entries frames searched)
  then show ?case
    by (subst path_loop.simps) (auto split: option.splits prod.splits)
qed

lemma safe_map_err: "safe m \<Longrightarrow> safe (map_err f m)"
  by (cases m) (simp_all add: safely_def)

lemma safe_iff: "safe m \<longleftrightarrow> m \<noteq> Panic"
  by (cases m) (simp_all add: safely_def)

lemma authorize_single_safe: "safe (authorize_single reg limits node d)"
proof -
  have "safe (validate_subgraph_path schemas root max_depth max_entries)"
    "safe (validate_subgraph_lowering d l schemas ds)" for schemas root max_depth max_entries l ds
    by (simp_all add: safe_iff validate_subgraph_path_def path_loop_not_Panic validate_lowering_not_Panic)
  then show ?thesis
    unfolding authorize_single_def by (auto split: option.splits intro!: safe_and_then safe_map_err)
qed

lemma invocation_mismatch_safe:
  "cn_semantic_nodes node \<noteq> [] \<Longrightarrow> safe (invocation_mismatch plan node port)"
  by (auto simp: invocation_mismatch_def split: input_binding.splits option.splits intro!: safe_and_then safe_index)

lemma authorize_node_safe:
  assumes "step_valid plan i node"
  shows "safe (authorize_node reg limits plan node)"
proof (cases "cn_conversion node")
  case None
  with assms have "cn_semantic_nodes node \<noteq> []" by (simp add: step_valid_def)
  with None show ?thesis
    unfolding authorize_node_def ports_unauthorized_def authorize_fused_def
    by (auto intro!: safe_and_then safe_any_of safe_any_in invocation_mismatch_safe authorize_single_safe
        safely_try_map [where Q = "\<lambda>_ _. True"])
next
  case (Some conversion)
  then show ?thesis
    unfolding authorize_node_def authorize_conversion_def
    by (auto intro!: safe_and_then safe_any_of safe_index)
qed

text \<open>
  C22. Decoding and authorizing untrusted bytes never panics, whatever the registry holds.
\<close>

theorem decode_authorized_plan_never_panics: "decode_authorized_plan H dec reg bs limits authorization \<noteq> Panic"
proof -
  have "safe (from_authorized_aot_bytes H dec bs limits authorization)"
    unfolding from_authorized_aot_bytes_def
    by (intro safe_and_then safe_guard from_aot_bytes_safe) simp
  moreover have "safe (try_fold (\<lambda>_. authorize_node reg limits plan) () (p_nodes plan))"
    if "from_authorized_aot_bytes H dec bs limits authorization = Ok plan" for plan
  proof -
    from that have "from_aot_bytes H dec bs limits = Ok plan"
      by (auto simp: from_authorized_aot_bytes_def outcome_simps)
    then have "well_formed_plan plan"
      by (rule validate_plan_well_formed [OF from_aot_bytes_validated])
    then show ?thesis by (intro safe_try_fold) (metis authorize_node_safe well_formed_step)
  qed
  ultimately have "safe (decode_authorized_plan H dec reg bs limits authorization)"
    unfolding decode_authorized_plan_def by (intro safe_and_then) simp_all
  then show ?thesis by (rule safely_not_Panic)
qed

section \<open>An authorized plan\<close>

definition lone_step :: compiled_plan where
  "lone_step = sample_plan [wire_step 0 [] [Terminal]] []"

definition lone_registry :: kernel_registry where
  "lone_registry =
     \<lparr>reg_descriptors = [((''example'', 1), sample_descriptor [] [port_opaque ''out'' ''samples'' 64])],
      reg_kernels = [(7, sample_kernel 7)], reg_subgraphs = []\<rparr>"

definition lone_authorization :: plan_authorization where
  "lone_authorization = \<lparr>pa_expected_realm = Realm_HostStream, pa_expected_plan_id = replicate 32 0\<rparr>"

lemmas lone_simps = lone_step_def wire_step_def sample_step_def sample_plan_def compiled_port_contract_def port_opaque_def
  stateless_def resource_bounded_def Layout_Canonical_def Realm_HostStream_def

lemma lone_step_checks:
  "check_tokens lone_step = Ok ()" "check_limits plan_limits_default lone_step = Ok ()" "check_order lone_step = Ok ()"
  "check_aliases lone_step = Ok ()" "check_produced lone_step = Ok ()" "check_state lone_step 0 = Ok ()"
  "check_identity (\<lambda>_ _. replicate 32 0) lone_step 0 80 = Ok lone_step"
  by (simp_all add: check_tokens_def check_limits_def check_order_def check_aliases_def check_produced_def check_state_def
      check_identity_def hash_plan_def alias_intervals_def count_produced_def lone_simps guard_def realm_is_known_def
      layout_is_known_def plan_limits_default_def strictly_sorted_def bt_collect_def bt_empty_def bt_values_def
      u64_checked_add_def)

lemma lone_step_steps: "\<exists>scan. try_fold (check_step plan_limits_default lone_step) decode_start (enumerate_list (p_nodes lone_step)) = Ok scan \<and>
   ds_workspace_bytes scan = 80 \<and> ds_state_bytes scan = 0 \<and> check_usage plan_limits_default lone_step scan = Ok ()"
  by (simp add: check_step_def check_usage_def decode_start_def step_invalid_def any_of.simps any_in_def lone_simps guard_def enumerate_list_def
      count_entries_def contract_entry_count_def invocations_of_def feedbacks_of_def List.map_filter_def usize_checked_add_def
      plan_limits_default_def valid_compiled_port_def valid_port_contract_def valid_contract_names_def shape_product_def dense_ids_def
      input_mismatch_def output_mismatch_def input_unlisted_def output_unlisted_def valid_state_contract_def step_workspace_def
      sort_dedup_def strictly_sorted_def index_def u64_checked_add_def word_le_nat_alt word_less_nat_alt)

lemma lone_step_decodes:
  "from_aot_bytes (\<lambda>_ _. replicate 32 0) (\<lambda>_. Some (lone_step, [])) MAGIC plan_limits_default = Ok lone_step"
proof -
  obtain scan where "try_fold (check_step plan_limits_default lone_step) decode_start (enumerate_list (p_nodes lone_step)) = Ok scan"
    "ds_workspace_bytes scan = 80" "ds_state_bytes scan = 0" "check_usage plan_limits_default lone_step scan = Ok ()"
    using lone_step_steps by blast
  moreover have "p_buffers lone_step = []" "p_feedback lone_step = []"
    by (simp_all add: lone_step_def sample_plan_def)
  ultimately have "validate_plan (\<lambda>_ _. replicate 32 0) plan_limits_default lone_step = Ok lone_step"
    by (simp add: validate_plan_def lone_step_checks enumerate_list_def flip: decode_start_def)
  then show ?thesis
    by (simp add: from_aot_bytes_def strip_prefix_def guard_def MAGIC_def) (simp add: plan_limits_default_def)
qed

lemma lone_step_nodes: "p_nodes lone_step = [wire_step 0 [] [Terminal]]"
  by (simp add: lone_step_def sample_plan_def)

lemma lone_step_authorized:
  "decode_authorized_plan (\<lambda>_ _. replicate 32 0) (\<lambda>_. Some (lone_step, [])) lone_registry MAGIC plan_limits_default
     lone_authorization = Ok (AuthorizedPlan lone_step)"
proof -
  have "authorize_node lone_registry plan_limits_default lone_step (wire_step 0 [] [Terminal]) = Ok ()"
    by (simp add: authorize_node_def lone_registry_def bt_get_def kernel_mismatch_def sample_kernel_def lone_simps guard_def
        type_key_def realm_target_def Target_Host_def first_opt_def last_opt_def config_not_canonical_def
        canonicalize_def bt_keys_def bt_empty_def sample_descriptor_def ports_unauthorized_def any_of.simps any_in_def authorize_single_def
        fused_layouts_compatible_def layouts_compatible_def compiled_port_matches_def)
  then show ?thesis
    by (simp add: decode_authorized_plan_def from_authorized_aot_bytes_def lone_step_decodes lone_step_nodes
        lone_authorization_def) (simp add: lone_step_def sample_plan_def guard_def)
qed

theorem decode_authorized_plan_sound_witness:
  "p_plan_id lone_step = hash_plan (\<lambda>_ _. replicate 32 0) lone_step \<and>
   authorized_step lone_registry lone_step (wire_step 0 [] [Terminal])"
  using decode_authorized_plan_sound [OF lone_step_authorized] lone_step_nodes by auto

end
