(* ===== verification/Graph_Identity.thy ===== *)
theory Graph_Identity
  imports Hashing
begin

text \<open>
  What a graph id stands for. \<open>hash_graph\<close> of \<open>compile.rs\<close> hashes the graph together with the descriptor
  of every node; the descriptor's ports are put in the order of their names and its layouts,
  capabilities, targets, proof and policy labels and failure domains are sets. The lemmas show that
  these encoders are prefix codes on canonical descriptors, and the property that a graph id is a
  function of the graph and its canonical descriptors and determines them up to a collision.
\<close>

section \<open>Canonical descriptors\<close>

definition canonical_port :: "port_descriptor \<Rightarrow> port_descriptor" where
  "canonical_port p = p\<lparr>pd_layouts := sort_dedup (pd_layouts p)\<rparr>"

definition canonical_ports :: "port_descriptor list \<Rightarrow> port_descriptor list" where
  "canonical_ports ports = map canonical_port (sort_key pd_name ports)"

text \<open>The name and version of a descriptor are hashed with the node that refers to it.\<close>

definition canonical_descriptor :: "node_descriptor \<Rightarrow> node_descriptor" where
  "canonical_descriptor d =
     d\<lparr>nd_type_name := [], nd_version := 0,
       nd_inputs := canonical_ports (nd_inputs d), nd_outputs := canonical_ports (nd_outputs d),
       nd_capabilities := sort_dedup (nd_capabilities d), nd_targets := sort_dedup (nd_targets d),
       nd_proof := normalize_proof (nd_proof d), nd_policy := normalize_policy (nd_policy d),
       nd_failure := \<lparr>fc_domains = sort_dedup (fc_domains (nd_failure d))\<rparr>\<rparr>"

lemma canonical_port_simps [simp]:
  "pd_name (canonical_port p) = pd_name p" "hash_port (canonical_port p) = hash_port p"
  "canonical_port (canonical_port p) = canonical_port p"
  by (simp_all add: canonical_port_def hash_port_def)

lemma hash_ports_canonical: "hash_ports ps = put_counted hash_port (canonical_ports ps)"
  by (simp add: hash_ports_def canonical_ports_def put_counted_def comp_def)

section \<open>The encoders are prefix codes\<close>

fun config_type_ok :: "config_type \<Rightarrow> bool" where
  "config_type_ok (TChoice vs) = shorts vs"
| "config_type_ok _ = True"

definition config_field_ok :: "config_field \<Rightarrow> bool" where
  "config_field_ok f \<longleftrightarrow> short (cf_name f) \<and> config_type_ok (cf_value_type f) \<and> (\<forall>v. cf_default f = Some v \<longrightarrow> config_value_ok v)"

definition config_schema_ok :: "config_schema \<Rightarrow> bool" where
  "config_schema_ok c \<longleftrightarrow> short c \<and> (\<forall>f \<in> set c. config_field_ok f)"

interpretation config_type: prefix_code hash_config_type config_type_ok
proof
  fix x y s t
  assume "config_type_ok x" "config_type_ok y" "hash_config_type x @ s = hash_config_type y @ t"
  then show "x = y \<and> s = t" by (cases x; cases y) (simp_all add: code_cancel)
qed

interpretation config_schema: prefix_code hash_config_schema config_schema_ok
proof -
  have "prefix_code hash_config_field config_field_ok"
    by unfold_locales
      (simp add: hash_config_field_def config_field_ok_def code_cancel config_type.cancel
        tagged_cancel [OF config_value.prefix_code_axioms] config_field.equality)
  from put_counted_code [OF this] show "prefix_code hash_config_schema config_schema_ok"
    by (simp add: hash_config_schema_def [abs_def] config_schema_ok_def [abs_def])
qed

definition port_maps_ok :: "port_map list \<Rightarrow> bool" where
  "port_maps_ok ms \<longleftrightarrow> short ms \<and> (\<forall>m \<in> set ms. short (pm_outer m) \<and> short (pm_inner m))"

interpretation port_maps: prefix_code hash_port_maps port_maps_ok
proof -
  have "prefix_code hash_port_map (\<lambda>m. short (pm_outer m) \<and> short (pm_inner m))"
    by unfold_locales (simp add: hash_port_map_def code_cancel port_map.expand)
  from put_counted_code [OF this] show "prefix_code hash_port_maps port_maps_ok"
    by (simp add: hash_port_maps_def [abs_def] port_maps_ok_def [abs_def])
qed

lemma config_binding_code: "prefix_code hash_config_binding (\<lambda>m. short (scm_outer m) \<and> short (scm_inner m))"
  by unfold_locales (simp add: hash_config_binding_def code_cancel subgraph_config_map.expand)

definition hash_lowering_ok :: "subgraph_lowering \<Rightarrow> bool" where
  "hash_lowering_ok l \<longleftrightarrow>
     length (sl_subgraph l) = 32 \<and> port_maps_ok (sl_input_map l) \<and> port_maps_ok (sl_output_map l) \<and>
     (short (sl_config_map l) \<and> (\<forall>m \<in> set (sl_config_map l). short (scm_outer m) \<and> short (scm_inner m)))"

lemma subgraph_lowering_code: "prefix_code hash_subgraph_lowering hash_lowering_ok"
  by unfold_locales
    (simp add: hash_subgraph_lowering_def hash_lowering_ok_def code_cancel port_maps.cancel counted_cancel [OF config_binding_code]
      subgraph_lowering.equality)

definition port_ok :: "port_descriptor \<Rightarrow> bool" where
  "port_ok p \<longleftrightarrow>
     short (pd_name p) \<and> short (pd_semantic_type p) \<and> short (pd_layouts p) \<and> domain_ok (pd_domain p) \<and>
     proof_ok (pd_proof p) \<and> policy_ok (pd_policy p) \<and> extent_ok (pd_extent p)"

lemma port_code: "prefix_code hash_port (\<lambda>p. port_ok p \<and> canonical_port p = p)"
proof
  fix x y s t
  assume x: "port_ok x \<and> canonical_port x = x" and y: "port_ok y \<and> canonical_port y = y" and eq: "hash_port x @ s = hash_port y @ t"
  have canon: "sort_dedup (pd_layouts x) = pd_layouts x" "sort_dedup (pd_layouts y) = pd_layouts y"
    using x y by (metis canonical_port_def port_descriptor.select_convs(4) port_descriptor.surjective port_descriptor.update_convs(4))+
  have opt: "(if a then 1 else 0 :: u32) = (if b then 1 else 0) \<longleftrightarrow> a = b" for a b by simp
  show "x = y \<and> s = t"
    using eq x [unfolded port_ok_def] y [unfolded port_ok_def]
    by (simp add: hash_port_def canon code_cancel opt port_descriptor.equality)
qed

lemma short_sort_dedup: "short xs \<Longrightarrow> short (sort_dedup xs)"
  using remdups_adj_length [of "sort xs"] by (auto simp: short_def sort_dedup_def)

lemma shorts_sort_dedup: "shorts xs \<Longrightarrow> shorts (sort_dedup xs)"
  by (simp add: shorts_def short_sort_dedup)

lemma canonical_port_ok: "port_ok p \<Longrightarrow> port_ok (canonical_port p)"
  by (simp add: port_ok_def canonical_port_def short_sort_dedup)

definition ports_ok :: "port_descriptor list \<Rightarrow> bool" where
  "ports_ok ps \<longleftrightarrow> short ps \<and> (\<forall>p \<in> set ps. port_ok p)"

lemma ports_cancel:
  assumes "ports_ok ps" and "ports_ok qs"
  shows "hash_ports ps @ s = hash_ports qs @ t \<longleftrightarrow> canonical_ports ps = canonical_ports qs \<and> s = t"
proof -
  have "short (canonical_ports xs) \<and> (\<forall>p \<in> set (canonical_ports xs). port_ok p \<and> canonical_port p = p)" if "ports_ok xs" for xs
    using that by (auto simp: ports_ok_def canonical_ports_def short_def canonical_port_ok)
  from this [OF assms(1)] this [OF assms(2)] show ?thesis
    unfolding hash_ports_canonical by (intro counted_cancel [OF port_code]) auto
qed

definition descriptor_ok :: "node_descriptor \<Rightarrow> bool" where
  "descriptor_ok d \<longleftrightarrow>
     ports_ok (nd_inputs d) \<and> ports_ok (nd_outputs d) \<and> shorts (nd_capabilities d) \<and> short (nd_targets d) \<and>
     resources_ok (nd_resources d) \<and> config_schema_ok (nd_config d) \<and>
     (\<forall>l. nd_subgraph d = Some l \<longrightarrow> hash_lowering_ok l) \<and>
     proof_ok (nd_proof d) \<and> policy_ok (nd_policy d) \<and> shorts (fc_domains (nd_failure d))"

lemma canonical_descriptor_eq:
  "canonical_descriptor d = canonical_descriptor e \<longleftrightarrow>
     canonical_ports (nd_inputs d) = canonical_ports (nd_inputs e) \<and> canonical_ports (nd_outputs d) = canonical_ports (nd_outputs e) \<and>
     sort_dedup (nd_capabilities d) = sort_dedup (nd_capabilities e) \<and> sort_dedup (nd_targets d) = sort_dedup (nd_targets e) \<and>
     nd_resources d = nd_resources e \<and> nd_determinism d = nd_determinism e \<and> nd_config d = nd_config e \<and>
     nd_state d = nd_state e \<and> nd_subgraph d = nd_subgraph e \<and>
     sort_dedup (prf_requires (nd_proof d)) = sort_dedup (prf_requires (nd_proof e)) \<and>
     sort_dedup (prf_provides (nd_proof d)) = sort_dedup (prf_provides (nd_proof e)) \<and>
     sort_dedup (prf_invalidates (nd_proof d)) = sort_dedup (prf_invalidates (nd_proof e)) \<and>
     sort_dedup (pol_requires (nd_policy d)) = sort_dedup (pol_requires (nd_policy e)) \<and>
     sort_dedup (pol_adds (nd_policy d)) = sort_dedup (pol_adds (nd_policy e)) \<and>
     nd_fidelity d = nd_fidelity e \<and> nd_partiality d = nd_partiality e \<and>
     sort_dedup (fc_domains (nd_failure d)) = sort_dedup (fc_domains (nd_failure e)) \<and>
     nd_effect d = nd_effect e \<and> nd_retry_limit d = nd_retry_limit e"
  by (cases d, cases e) (auto simp: canonical_descriptor_def normalize_proof_def normalize_policy_def)

lemma hash_descriptor_cancel:
  assumes "descriptor_ok d" and "descriptor_ok e"
  shows "hash_descriptor d @ s = hash_descriptor e @ t \<longleftrightarrow> canonical_descriptor d = canonical_descriptor e \<and> s = t"
proof -
  have fid: "f = g \<longleftrightarrow> fid_minimum_input f = fid_minimum_input g \<and> fid_maximum_loss f = fid_maximum_loss g"
    for f g :: fidelity_contract by (auto simp: fidelity_contract.equality)
  show ?thesis
    using assms [unfolded descriptor_ok_def proof_ok_def policy_ok_def]
    by (simp add: hash_descriptor_def canonical_descriptor_eq code_cancel ports_cancel config_schema.cancel
        tagged_cancel [OF subgraph_lowering_code] shorts_sort_dedup short_sort_dedup fid)
qed

lemma hash_descriptor_eq:
  assumes "descriptor_ok d" and "descriptor_ok e"
  shows "hash_descriptor d = hash_descriptor e \<longleftrightarrow> canonical_descriptor d = canonical_descriptor e"
  using hash_descriptor_cancel [OF assms, of "[]" "[]"] by simp

section \<open>Graphs\<close>

definition node_instance_ok :: "node_instance \<Rightarrow> bool" where
  "node_instance_ok n \<longleftrightarrow> short (ni_descriptor n) \<and> config_ok (ni_config n)"

text \<open>A node and its descriptor, as one entry of the preimage.\<close>

definition hash_described :: "node_instance \<times> node_descriptor \<Rightarrow> bytes" where
  "hash_described nd =
     put_u32 (ni_id (fst nd)) @ put_str (ni_descriptor (fst nd)) @ put_u32 (ni_descriptor_version (fst nd)) @
     hash_descriptor (snd nd) @ hash_config (ni_config (fst nd))"

definition described :: "(node_id, node_descriptor) btree_map \<Rightarrow> node_instance \<Rightarrow> node_instance \<times> node_descriptor" where
  "described ds n = (n, the (bt_get ds (ni_id n)))"

definition described_ok :: "(node_id, node_descriptor) btree_map \<Rightarrow> node_instance \<Rightarrow> bool" where
  "described_ok ds n \<longleftrightarrow> node_instance_ok n \<and> (\<exists>d. bt_get ds (ni_id n) = Some d \<and> descriptor_ok d)"

definition feedback_edge_ok :: "feedback_edge \<Rightarrow> bool" where
  "feedback_edge_ok e \<longleftrightarrow> short (pr_port (fe_from e)) \<and> short (pr_port (fe_to e)) \<and> delay_initial_ok (dc_initial (fe_delay e))"

definition graph_ok :: "graph \<Rightarrow> (node_id, node_descriptor) btree_map \<Rightarrow> bool" where
  "graph_ok g ds \<longleftrightarrow>
     (short (g_nodes g) \<and> (\<forall>n \<in> set (g_nodes g). described_ok ds n) \<and> distinct (map ni_id (g_nodes g))) \<and>
     (short (g_edges g) \<and> (\<forall>e \<in> set (g_edges g). edge_ok e)) \<and>
     (short (g_feedback g) \<and> (\<forall>e \<in> set (g_feedback g). feedback_edge_ok e) \<and> distinct (map feedback_key (g_feedback g))) \<and>
     (short (g_invocation_inputs g) \<and> (\<forall>p \<in> set (g_invocation_inputs g). short (pr_port p))) \<and>
     shorts (g_required_capabilities g) \<and> shorts (g_required_proofs g) \<and> shorts (g_policy g) \<and> session_ok (g_session g)"

text \<open>The same graph, up to the order of its parts and repetitions in its sets, over the same canonical descriptors.\<close>

definition same_graph ::
    "graph \<Rightarrow> (node_id, node_descriptor) btree_map \<Rightarrow> graph \<Rightarrow> (node_id, node_descriptor) btree_map \<Rightarrow> bool" where
  "same_graph g ds h es \<longleftrightarrow>
     g_version g = g_version h \<and> mset (g_nodes g) = mset (g_nodes h) \<and> mset (g_edges g) = mset (g_edges h) \<and>
     mset (g_feedback g) = mset (g_feedback h) \<and> set (g_invocation_inputs g) = set (g_invocation_inputs h) \<and>
     set (g_required_capabilities g) = set (g_required_capabilities h) \<and>
     set (g_required_proofs g) = set (g_required_proofs h) \<and> set (g_policy g) = set (g_policy h) \<and>
     g_minimum_fidelity g = g_minimum_fidelity h \<and> g_session g = g_session h \<and>
     (\<forall>n \<in> set (g_nodes g).
        map_option canonical_descriptor (bt_get ds (ni_id n)) = map_option canonical_descriptor (bt_get es (ni_id n)))"

lemma described_cancel:
  assumes "described_ok ds n" and "described_ok es m"
  shows "hash_described (described ds n) @ s = hash_described (described es m) @ t \<longleftrightarrow>
    (n = m \<and> map_option canonical_descriptor (bt_get ds (ni_id n)) = map_option canonical_descriptor (bt_get es (ni_id m))) \<and> s = t"
  using assms
  by (auto simp: described_ok_def node_instance_ok_def hash_described_def described_def code_cancel hash_descriptor_cancel hash_descriptor_eq
      node_instance.equality)

lemma described_concat:
  assumes "\<forall>n \<in> set ns. described_ok ds n" and "\<forall>n \<in> set ms. described_ok es n" and "length ns = length ms"
  shows "concat (map (\<lambda>n. hash_described (described ds n)) ns) @ s = concat (map (\<lambda>n. hash_described (described es n)) ms) @ t \<longleftrightarrow>
    (ns = ms \<and> (\<forall>n \<in> set ns. map_option canonical_descriptor (bt_get ds (ni_id n)) =
        map_option canonical_descriptor (bt_get es (ni_id n)))) \<and> s = t"
  using assms(3,1,2)
proof (induction ns ms rule: list_induct2)
  case (Cons n ns m ms)
  let ?ns = "concat (map (\<lambda>n. hash_described (described ds n)) ns) @ s" and ?ms = "concat (map (\<lambda>n. hash_described (described es n)) ms) @ t"
  have "described_ok ds n" "described_ok es m" using Cons.prems by simp_all
  from described_cancel [OF this, of ?ns ?ms] show ?case
    using Cons.IH Cons.prems by auto
qed simp

text \<open>The message that is hashed when every node has a descriptor.\<close>

definition graph_message :: "graph \<Rightarrow> (node_id, node_descriptor) btree_map \<Rightarrow> bytes" where
  "graph_message g ds =
     put_u32 (g_version g) @ put_u32 (word_of_nat (length (g_nodes g))) @
     concat (map (\<lambda>n. hash_described (described ds n)) (sort_key ni_id (g_nodes g))) @
     put_counted hash_edge (sort_key edge_key (g_edges g)) @
     put_counted hash_feedback_edge (sort_key feedback_key (g_feedback g)) @
     put_counted put_port_ref (sort_dedup (g_invocation_inputs g)) @
     put_str_set (sort_dedup (g_required_capabilities g)) @ put_str_set (sort_dedup (g_required_proofs g)) @
     put_str_set (sort_dedup (g_policy g)) @ put_u16 (g_minimum_fidelity g) @ hash_session (g_session g)"

lemma graph_preimage_message:
  assumes "graph_ok g ds"
  shows "graph_preimage g ds = (Ok (graph_message g ds) :: ('e, bytes) outcome)"
proof -
  have "hash_graph_node ds n = (Ok (hash_described (described ds n)) :: ('e, bytes) outcome)" if "n \<in> set (g_nodes g)" for n
    using that assms by (auto simp: graph_ok_def described_ok_def hash_graph_node_def hash_described_def described_def)
  then have "try_map (hash_graph_node ds) (sort_key ni_id (g_nodes g)) =
      (Ok (map (\<lambda>n. hash_described (described ds n)) (sort_key ni_id (g_nodes g))) :: ('e, bytes list) outcome)"
    by (auto simp: try_map_Ok_iff list.rel_map list_all2_same)
  then show ?thesis by (simp add: graph_preimage_def graph_message_def)
qed

lemma feedback_edge_code: "prefix_code hash_feedback_edge feedback_edge_ok"
  by unfold_locales
    (simp add: hash_feedback_edge_def feedback_edge_ok_def code_cancel feedback_edge.equality delay_contract.equality)

lemma sort_key_eq_iff:
  assumes "distinct (map f xs)"
  shows "sort_key f xs = sort_key f ys \<longleftrightarrow> mset xs = mset ys"
  using assms sort_key_perm [of xs ys f] sort_eq_imp_mset [of f xs ys] by (auto simp: distinct_map)

lemma sort_edges_eq_iff: "sort_key edge_key xs = sort_key edge_key ys \<longleftrightarrow> mset xs = mset ys"
  using sort_key_perm [OF _ inj_edge_key] sort_eq_imp_mset by blast

lemma sort_dedup_eq_iff: "sort_dedup xs = sort_dedup ys \<longleftrightarrow> set xs = set ys"
  by (metis set_sort_dedup sort_dedup_cong)

lemma graph_message_inject:
  assumes "graph_ok g ds" and "graph_ok h es"
  shows "graph_message g ds = graph_message h es \<longleftrightarrow> same_graph g ds h es"
proof -
  note ok = assms [unfolded graph_ok_def]
  have len: "(word_of_nat (length (g_nodes g)) :: u32) = word_of_nat (length (g_nodes h)) \<longleftrightarrow> length (g_nodes g) = length (g_nodes h)"
    using ok by (intro short_length_inject; simp)
  have sizes: "mset (g_nodes g) = mset (g_nodes h) \<Longrightarrow> length (g_nodes g) = length (g_nodes h)" by (rule mset_eq_length)
  have nodes: "concat (map (\<lambda>n. hash_described (described ds n)) (sort_key ni_id (g_nodes g))) @ s =
      concat (map (\<lambda>n. hash_described (described es n)) (sort_key ni_id (g_nodes h))) @ t \<longleftrightarrow>
      (mset (g_nodes g) = mset (g_nodes h) \<and> (\<forall>n \<in> set (g_nodes g). map_option canonical_descriptor (bt_get ds (ni_id n)) =
        map_option canonical_descriptor (bt_get es (ni_id n)))) \<and> s = t" if "length (g_nodes g) = length (g_nodes h)" for s t
    using ok that by (subst described_concat) (simp_all add: sort_key_eq_iff)
  have edges: "put_counted hash_edge (sort_key edge_key (g_edges g)) @ s = put_counted hash_edge (sort_key edge_key (g_edges h)) @ t \<longleftrightarrow>
      mset (g_edges g) = mset (g_edges h) \<and> s = t" for s t
    using ok by (subst counted_cancel [OF edge_code]) (simp_all add: sort_edges_eq_iff)
  have feedback: "put_counted hash_feedback_edge (sort_key feedback_key (g_feedback g)) @ s =
      put_counted hash_feedback_edge (sort_key feedback_key (g_feedback h)) @ t \<longleftrightarrow> mset (g_feedback g) = mset (g_feedback h) \<and> s = t" for s t
    using ok by (subst counted_cancel [OF feedback_edge_code]) (simp_all add: sort_key_eq_iff)
  have inputs: "put_counted put_port_ref (sort_dedup (g_invocation_inputs g)) @ s =
      put_counted put_port_ref (sort_dedup (g_invocation_inputs h)) @ t \<longleftrightarrow> set (g_invocation_inputs g) = set (g_invocation_inputs h) \<and> s = t" for s t
    using ok by (subst counted_cancel [OF port_ref.prefix_code_axioms]) (simp_all add: short_sort_dedup sort_dedup_eq_iff)
  have labels: "put_str_set (sort_dedup xs) @ s = put_str_set (sort_dedup ys) @ t \<longleftrightarrow> set xs = set ys \<and> s = t"
    if "shorts xs" "shorts ys" for xs ys s t
    using that by (subst str_set.cancel) (simp_all add: shorts_sort_dedup sort_dedup_eq_iff)
  have rest: "hash_session (g_session g) = hash_session (g_session h) \<longleftrightarrow> g_session g = g_session h"
    using ok by (intro session.inject; simp)
  have sets: "shorts (g_required_capabilities g)" "shorts (g_required_proofs g)" "shorts (g_policy g)"
      "shorts (g_required_capabilities h)" "shorts (g_required_proofs h)" "shorts (g_policy h)"
    using ok by simp_all
  show ?thesis
  proof (cases "length (g_nodes g) = length (g_nodes h)")
    case True
    then show ?thesis
      by (auto simp: graph_message_def same_graph_def u32.cancel u16.cancel len nodes edges feedback inputs labels sets rest)
  next
    case False
    then show ?thesis using sizes by (auto simp: graph_message_def same_graph_def u32.cancel len)
  qed
qed

section \<open>Property\<close>

text \<open>
  C36. For two graphs whose node ids and feedback edges are not repeated and whose nodes all have a
  descriptor (sequences shorter than \<open>2^32\<close>, 32-byte content ids), hashing does not panic, and the two
  graph ids are equal exactly when the graphs are the same up to the order of nodes, edges and
  feedback edges and up to order and repetition of invocation inputs, capabilities, proofs and policy
  labels, and every node has the same descriptor up to the order of its ports and the order and
  repetition of its layouts, capabilities, targets, labels and failure domains: or the two messages
  given are different and the hash maps them to the same id. No assumption is made about the hash.
\<close>

theorem hash_graph_exact:
  assumes "graph_ok g ds" and "graph_ok h es"
  shows "\<exists>i j message message'.
    graph_preimage g ds = (Ok message :: ('e, bytes) outcome) \<and> graph_preimage h es = (Ok message' :: ('e, bytes) outcome) \<and>
    hash_graph H g ds = (Ok i :: ('e, hash32) outcome) \<and> hash_graph H h es = (Ok j :: ('e, hash32) outcome) \<and>
    (same_graph g ds h es \<longrightarrow> i = j) \<and>
    (i = j \<longrightarrow> same_graph g ds h es \<or> message \<noteq> message' \<and> H ''blut.graph.v3'' message = H ''blut.graph.v3'' message')"
  using graph_preimage_message [OF assms(1)] graph_preimage_message [OF assms(2)] graph_message_inject [OF assms]
  by (intro exI [of _ "H ''blut.graph.v3'' (graph_message g ds)"] exI [of _ "H ''blut.graph.v3'' (graph_message h es)"]
      exI [of _ "graph_message g ds"] exI [of _ "graph_message h es"]) (auto simp: hash_graph_def)

text \<open>The two descriptors of the witness differ in the order of two ports and of their layouts.\<close>

definition two_ports :: "layout list \<Rightarrow> port_descriptor list" where
  "two_ports layouts = map (\<lambda>name. (port_opaque name ''frame'' 64)\<lparr>pd_layouts := layouts\<rparr>) [''left'', ''right'']"

lemma two_ports_sorted:
  "canonical_descriptor (sample_descriptor [] (two_ports [1, 2])) = canonical_descriptor (sample_descriptor [] (rev (two_ports [2, 1, 2])))"
  by code_simp

theorem hash_graph_exact_witness:
  "(hash_graph (\<lambda>_ m. m) (sample_graph [1, 2] [link 1 2])
      [(1, sample_descriptor [] (two_ports [1, 2])), (2, sample_descriptor [] [])] :: (compile_error, hash32) outcome) =
   hash_graph (\<lambda>_ m. m) (sample_graph [2, 1] [link 1 2])
      [(1, sample_descriptor [] (rev (two_ports [2, 1, 2]))), (2, sample_descriptor [] [])]"
proof -
  let ?g = "sample_graph [1, 2] [link 1 2]" and ?h = "sample_graph [2, 1] [link 1 2]"
  let ?ds = "[(1, sample_descriptor [] (two_ports [1, 2])), (2, sample_descriptor [] [])] :: (node_id, node_descriptor) btree_map"
  let ?es = "[(1, sample_descriptor [] (rev (two_ports [2, 1, 2]))), (2, sample_descriptor [] [])] :: (node_id, node_descriptor) btree_map"
  have ok: "graph_ok ?g ?ds" "graph_ok ?h ?es"
    by (simp_all add: graph_ok_def sample_graph_def sample_instance_def described_ok_def node_instance_ok_def config_ok_def
        bt_get_def sample_descriptor_def descriptor_ok_def ports_ok_def two_ports_def port_ok_def port_opaque_def short_def shorts_def
        resources_ok_def resource_bounded_def config_schema_ok_def proof_ok_def policy_ok_def extent_ok_def domain_ok_def
        edge_ok_def session_ok_def)
  have "same_graph ?g ?ds ?h ?es"
    by (simp add: same_graph_def sample_graph_def sample_instance_def bt_get_def two_ports_sorted add_mset_commute)
  with hash_graph_exact [OF ok, where ?'e = compile_error and H = "\<lambda>_ m. m"] show ?thesis by auto
qed

end
