(* ===== verification/Execute.thy ===== *)
theory Execute
  imports Hashing Samples
begin

text \<open>
  The reference plan executor, \<open>crates/blut-graph-core/src/execute.rs\<close>. The kernels and the
  transactional sink are traits the embedding program implements; here they are parameters, functions
  from their own mutable state. A run threads an \<open>execution\<close> (the receipt being written, the live
  buffers, the terminal values, and the two foreign states); an early return is \<open>Err\<close> of the error
  together with the execution reached, from which \<open>execute\<close> builds the \<open>ExecutionFailure\<close>.

  The lemmas establish the transaction protocol the sink sees, the bound on attempts and the shape of
  the receipt on every exit, that reclaiming a buffer after its last consumer cannot be observed, and
  that a plan whose buffers are produced before they are consumed runs to completion.
\<close>

section \<open>Errors and receipts\<close>

record failure_evidence =
  ev_semantic_type :: string
  ev_payload :: bytes

record structured_failure =
  sf_domain :: string
  sf_code :: string
  sf_message :: string
  sf_retryable :: bool
  sf_evidence :: "failure_evidence list"

datatype execution_error =
    ExUnknownKernel kernel_id
  | ExMissingBuffer buffer_id
  | ExMissingInvocation port_ref
  | ExUnexpectedInvocation port_ref
  | ExOutputArity kernel_id usize usize
  | ExKernelFailed kernel_id structured_failure
  | ExUndeclaredFailure kernel_id string
  | ExUnsafeRetry kernel_id
  | ExTransactionPrepare string
  | ExTransactionCommit string
  | ExInvalidGap kernel_id
  | ExStatefulPlanUnsupported

fun retryable :: "execution_error \<Rightarrow> bool" where
  "retryable (ExKernelFailed _ failure) = sf_retryable failure"
| "retryable _ = False"

record execution_attempt =
  ea_step :: step_id
  ea_semantic_nodes :: "node_id list"
  ea_kernel :: kernel_id
  ea_implementation_id :: implementation_id
  ea_attempts :: u32
  ea_kernel_succeeded :: bool
  ea_completed :: bool

record kernel_gap =
  kg_output_index :: u32
  kg_offset :: u64
  kg_length :: "u64 option"
  kg_domain :: string
  kg_code :: string

record gap_receipt =
  gr_step :: step_id
  gr_semantic_nodes :: "node_id list"
  gr_gap :: kernel_gap

record execution_receipt =
  er_invocation_id :: bytes
  er_graph_id :: graph_id
  er_plan_id :: plan_id
  er_realm :: realm
  er_completed_nodes :: "node_id list"
  er_attempts :: "execution_attempt list"
  er_committed_transactions :: "string list"
  er_gaps :: "gap_receipt list"

record 'v kernel_execution =
  ke_outputs :: "'v list"
  ke_gaps :: "kernel_gap list"

record execution_failure =
  xf_error :: execution_error
  xf_receipt :: execution_receipt

record 'v execution_result =
  xr_terminal_values :: "(node_id, 'v list) btree_map"
  xr_receipt :: execution_receipt

section \<open>The traits\<close>

type_synonym ('k, 'v) kernel_executor =
  "'k \<Rightarrow> compiled_node \<Rightarrow> 'v option list \<Rightarrow> (execution_error, 'v kernel_execution) outcome \<times> 'k"

text \<open>The provided method \<open>execute_with_gaps\<close>: a kernel that only implements \<open>execute\<close> has no gaps.\<close>

definition execute_with_gaps ::
    "('k \<Rightarrow> compiled_node \<Rightarrow> 'v option list \<Rightarrow> (execution_error, 'v list) outcome \<times> 'k) \<Rightarrow>
     ('k, 'v) kernel_executor" where
  "execute_with_gaps execute k node inputs =
     (let (r, k') = execute k node inputs
      in (and_then r (\<lambda>outputs. Ok \<lparr>ke_outputs = outputs, ke_gaps = []\<rparr>), k'))"

record 's transactional_sink =
  tx_prepare :: "'s \<Rightarrow> string \<Rightarrow> (execution_error, unit) outcome \<times> 's"
  tx_commit :: "'s \<Rightarrow> string \<Rightarrow> (execution_error, string) outcome \<times> 's"
  tx_abort :: "'s \<Rightarrow> string \<Rightarrow> 's"

text \<open>
  The keyed hash printed in hexadecimal, \<open>new_derive_key(context)\<close>, \<open>update\<close> and
  \<open>finalize().to_hex()\<close> of the hash library, is the parameter \<open>T\<close>.
\<close>

type_synonym hex_hasher = "string \<Rightarrow> bytes \<Rightarrow> string"

definition idempotency_key ::
    "hex_hasher \<Rightarrow> compiled_plan \<Rightarrow> bytes \<Rightarrow> step_id \<Rightarrow> implementation_id \<Rightarrow> string" where
  "idempotency_key T plan invocation_id step implementation_id =
     T ''blut.transaction.v2'' (p_plan_id plan @ invocation_id @ put_u32 step @ implementation_id)"

section \<open>One step of a plan\<close>

record ('v, 'k, 's) execution =
  ex_receipt :: execution_receipt
  ex_buffers :: "(buffer_id, 'v) btree_map"
  ex_terminal_values :: "(node_id, 'v list) btree_map"
  ex_kernels :: 'k
  ex_sink :: 's

type_synonym ('v, 'k, 's, 'a) exec = "(execution_error \<times> ('v, 'k, 's) execution, 'a) outcome"

definition update_attempt ::
    "nat \<Rightarrow> (execution_attempt \<Rightarrow> execution_attempt) \<Rightarrow> ('v, 'k, 's) execution \<Rightarrow> ('v, 'k, 's) execution" where
  "update_attempt i f st =
     (let as = er_attempts (ex_receipt st)
      in st\<lparr>ex_receipt := (ex_receipt st)\<lparr>er_attempts := as[i := f (as ! i)]\<rparr>\<rparr>)"

definition push_attempt :: "compiled_node \<Rightarrow> ('v, 'k, 's) execution \<Rightarrow> ('v, 'k, 's) execution" where
  "push_attempt node st =
     st\<lparr>ex_receipt := (ex_receipt st)\<lparr>er_attempts := er_attempts (ex_receipt st) @
       [\<lparr>ea_step = cn_id node, ea_semantic_nodes = cn_semantic_nodes node, ea_kernel = cn_kernel node,
         ea_implementation_id = cn_implementation_id node, ea_attempts = 0,
         ea_kernel_succeeded = False, ea_completed = False\<rparr>]\<rparr>\<rparr>"

definition prepare_node ::
    "'s transactional_sink \<Rightarrow> string \<Rightarrow> compiled_node \<Rightarrow> ('v, 'k, 's) execution \<Rightarrow>
     ('v, 'k, 's, ('v, 'k, 's) execution) exec" where
  "prepare_node S key node st =
     (if cn_effect node = Transactional
      then (let (r, s) = tx_prepare S (ex_sink st) key; st' = st\<lparr>ex_sink := s\<rparr>
            in map_err (\<lambda>e. (e, st')) (and_then r (\<lambda>_. Ok st')))
      else Ok st)"

definition abort_node ::
    "'s transactional_sink \<Rightarrow> string \<Rightarrow> compiled_node \<Rightarrow> ('v, 'k, 's) execution \<Rightarrow> ('v, 'k, 's) execution" where
  "abort_node S key node st =
     (if cn_effect node = Transactional then st\<lparr>ex_sink := tx_abort S (ex_sink st) key\<rparr> else st)"

fun gather_input ::
    "compiled_plan \<Rightarrow> (port_ref, 'v) btree_map \<Rightarrow> (buffer_id, 'v) btree_map \<Rightarrow> input_binding \<Rightarrow>
     (execution_error, 'v option) outcome" where
  "gather_input plan invocation_inputs buffers Absent = Ok None"
| "gather_input plan invocation_inputs buffers (InInvocation i) =
     and_then (index (p_invocation_ports plan) (unat i)) (\<lambda>port.
       and_then (ok_or (bt_get invocation_inputs port) (ExMissingInvocation port)) (\<lambda>v. Ok (Some v)))"
| "gather_input plan invocation_inputs buffers (InBuffer b) =
     and_then (ok_or (bt_get buffers b) (ExMissingBuffer b)) (\<lambda>v. Ok (Some v))"
| "gather_input plan invocation_inputs buffers (InFeedback _) = Panic"

definition gather_inputs ::
    "compiled_plan \<Rightarrow> (port_ref, 'v) btree_map \<Rightarrow> 's transactional_sink \<Rightarrow> string \<Rightarrow> compiled_node \<Rightarrow>
     ('v, 'k, 's) execution \<Rightarrow> ('v, 'k, 's, 'v option list) exec" where
  "gather_inputs plan invocation_inputs S key node st =
     map_err (\<lambda>e. (e, abort_node S key node st))
       (try_map (gather_input plan invocation_inputs (ex_buffers st)) (cn_input_bindings node))"

fun undeclared_domain :: "compiled_node \<Rightarrow> execution_error \<Rightarrow> string option" where
  "undeclared_domain node (ExKernelFailed _ failure) =
     (if sf_domain failure \<in> set (fc_domains (cn_failure node)) then None else Some (sf_domain failure))"
| "undeclared_domain node _ = None"

text \<open>
  The retry loop. The counter \<open>n\<close> is \<open>receipt.attempts[attempt_index].attempts\<close>, which the loop
  increments before each call; its overflow would panic.
\<close>

function attempt_kernel ::
    "('k, 'v) kernel_executor \<Rightarrow> 's transactional_sink \<Rightarrow> string \<Rightarrow> compiled_node \<Rightarrow> 'v option list \<Rightarrow>
     nat \<Rightarrow> u32 \<Rightarrow> ('v, 'k, 's) execution \<Rightarrow> ('v, 'k, 's, 'v kernel_execution \<times> ('v, 'k, 's) execution) exec" where
  "attempt_kernel K S key node inputs i n st =
     (if n + 1 = 0 then Panic
      else let (r, k) = K (ex_kernels st) node inputs;
               st' = (update_attempt i (\<lambda>a. a\<lparr>ea_attempts := n + 1\<rparr>) st)\<lparr>ex_kernels := k\<rparr>
           in case r of
                Ok outputs \<Rightarrow> Ok (outputs, st')
              | Panic \<Rightarrow> Panic
              | Err error \<Rightarrow>
                  (case undeclared_domain node error of
                     Some domain \<Rightarrow>
                       Err (ExUndeclaredFailure (cn_kernel node) domain, abort_node S key node st')
                   | None \<Rightarrow>
                       if n \<ge> ucast (cn_retry_limit node) \<or> \<not> retryable error
                       then Err (error, abort_node S key node st')
                       else if cn_effect node \<notin> {Pure, Idempotent, Transactional, AtLeastOnce}
                       then Err (ExUnsafeRetry (cn_kernel node), st')
                       else attempt_kernel K S key node inputs i (n + 1) st'))"
  by pat_completeness auto
termination
proof (relation "measure (\<lambda>(K, S, key, node, inputs, i, n :: u32, st). 2 ^ 32 - unat n)")
  show "wf (measure (\<lambda>(K, S, key, node, inputs, i, n :: u32, st). 2 ^ 32 - unat n))" by simp
next
  fix n :: u32
  assume "n + 1 \<noteq> 0"
  then have "unat (n + 1) = unat n + 1"
    by (metis Suc_eq_plus1 unatSuc add.commute)
  moreover have "unat (n + 1) < 2 ^ 32"
    by (rule order_less_le_trans [OF unsigned_less]) simp
  ultimately show "((K, S, key, node, inputs, i, n + 1, st'), K, S, key, node, inputs, i, n, st)
      \<in> measure (\<lambda>(K, S, key, node, inputs, i, n :: u32, st). 2 ^ 32 - unat n)"
    for K :: "('k, 'v) kernel_executor" and S :: "'s transactional_sink" and key node inputs i st st'
    by simp
qed

declare attempt_kernel.simps [simp del]

definition invalid_gap :: "compiled_node \<Rightarrow> 'v kernel_execution \<Rightarrow> kernel_gap \<Rightarrow> bool" where
  "invalid_gap node outputs gap =
     (cn_partiality node \<noteq> ExplicitGaps \<or>
      unat (kg_output_index gap) \<ge> length (ke_outputs outputs) \<or>
      kg_length gap = Some 0 \<or>
      kg_domain gap \<notin> set (fc_domains (cn_failure node)))"

definition check_outputs ::
    "'s transactional_sink \<Rightarrow> string \<Rightarrow> compiled_node \<Rightarrow> 'v kernel_execution \<Rightarrow> ('v, 'k, 's) execution \<Rightarrow>
     ('v, 'k, 's, unit) exec" where
  "check_outputs S key node outputs st =
     and_then
       (guard (length (ke_outputs outputs) \<noteq> length (cn_output_bindings node))
          (ExOutputArity (cn_kernel node) (length (cn_output_bindings node)) (length (ke_outputs outputs)),
           abort_node S key node st))
       (\<lambda>_. guard (\<exists>gap \<in> set (ke_gaps outputs). invalid_gap node outputs gap)
              (ExInvalidGap (cn_kernel node), abort_node S key node st))"

definition store_output ::
    "(buffer_id, 'v) btree_map \<times> 'v list \<Rightarrow> output_binding \<times> 'v \<Rightarrow> (buffer_id, 'v) btree_map \<times> 'v list" where
  "store_output acc bound =
     (case (acc, bound) of
        ((buffers, terminals), (OutBuffer b, v)) \<Rightarrow> (bt_insert b v buffers, terminals)
      | ((buffers, terminals), (Terminal, v)) \<Rightarrow> (buffers, terminals @ [v]))"

definition store_outputs ::
    "nat \<Rightarrow> compiled_node \<Rightarrow> 'v kernel_execution \<Rightarrow> ('v, 'k, 's) execution \<Rightarrow> ('v, 'k, 's) execution" where
  "store_outputs i node outputs st =
     (let receipt = (ex_receipt st)\<lparr>er_gaps := er_gaps (ex_receipt st) @
            map (\<lambda>gap. \<lparr>gr_step = cn_id node, gr_semantic_nodes = cn_semantic_nodes node, gr_gap = gap\<rparr>)
              (ke_gaps outputs)\<rparr>;
          (buffers, terminals) =
            foldl store_output (ex_buffers st, []) (zip (cn_output_bindings node) (ke_outputs outputs));
          terminal_values =
            (case last_opt (cn_semantic_nodes node) of
               Some terminal \<Rightarrow> if terminals \<noteq> [] then bt_insert terminal terminals (ex_terminal_values st)
                               else ex_terminal_values st
             | None \<Rightarrow> ex_terminal_values st)
      in update_attempt i (\<lambda>a. a\<lparr>ea_kernel_succeeded := True\<rparr>)
           (st\<lparr>ex_receipt := receipt, ex_buffers := buffers, ex_terminal_values := terminal_values\<rparr>))"

definition commit_node ::
    "'s transactional_sink \<Rightarrow> string \<Rightarrow> compiled_node \<Rightarrow> ('v, 'k, 's) execution \<Rightarrow>
     ('v, 'k, 's, ('v, 'k, 's) execution) exec" where
  "commit_node S key node st =
     (if cn_effect node = Transactional
      then (let (r, s) = tx_commit S (ex_sink st) key; st' = st\<lparr>ex_sink := s\<rparr>
            in map_err (\<lambda>e. (e, st')) (and_then r (\<lambda>transaction.
                 Ok (st'\<lparr>ex_receipt := (ex_receipt st')\<lparr>er_committed_transactions :=
                       er_committed_transactions (ex_receipt st') @ [transaction]\<rparr>\<rparr>))))
      else Ok st)"

definition complete_node :: "nat \<Rightarrow> compiled_node \<Rightarrow> ('v, 'k, 's) execution \<Rightarrow> ('v, 'k, 's) execution" where
  "complete_node i node st =
     (let st' = update_attempt i (\<lambda>a. a\<lparr>ea_completed := True\<rparr>) st
      in st'\<lparr>ex_receipt := (ex_receipt st')\<lparr>er_completed_nodes :=
               er_completed_nodes (ex_receipt st') @ cn_semantic_nodes node\<rparr>\<rparr>)"

definition release_buffer ::
    "compiled_plan \<Rightarrow> compiled_node \<Rightarrow> (buffer_id, 'v) btree_map \<Rightarrow> input_binding \<Rightarrow> (buffer_id, 'v) btree_map" where
  "release_buffer plan node buffers binding =
     (case binding of
        InBuffer b \<Rightarrow>
          (case get (p_buffers plan) (unat b) of
             Some buffer_plan \<Rightarrow>
               if cn_id node = bp_last_consumer buffer_plan then bt_remove b buffers else buffers
           | None \<Rightarrow> buffers)
      | _ \<Rightarrow> buffers)"

definition release_buffers ::
    "compiled_plan \<Rightarrow> compiled_node \<Rightarrow> ('v, 'k, 's) execution \<Rightarrow> ('v, 'k, 's) execution" where
  "release_buffers plan node st =
     st\<lparr>ex_buffers := foldl (release_buffer plan node) (ex_buffers st) (cn_input_bindings node)\<rparr>"

definition run_node ::
    "hex_hasher \<Rightarrow> ('k, 'v) kernel_executor \<Rightarrow> 's transactional_sink \<Rightarrow> compiled_plan \<Rightarrow> bytes \<Rightarrow>
     (port_ref, 'v) btree_map \<Rightarrow> ('v, 'k, 's) execution \<Rightarrow> compiled_node \<Rightarrow>
     ('v, 'k, 's, ('v, 'k, 's) execution) exec" where
  "run_node T K S plan invocation_id invocation_inputs st node =
     (let key = idempotency_key T plan invocation_id (cn_id node) (cn_implementation_id node);
          i = length (er_attempts (ex_receipt st))
      in and_then (prepare_node S key node (push_attempt node st)) (\<lambda>st1.
         and_then (gather_inputs plan invocation_inputs S key node st1) (\<lambda>inputs.
         and_then (attempt_kernel K S key node inputs i 0 st1) (\<lambda>(outputs, st2).
         and_then (check_outputs S key node outputs st2) (\<lambda>_.
         and_then (commit_node S key node (store_outputs i node outputs st2)) (\<lambda>st3.
           Ok (complete_node i node st3)))))))"

definition execute_node ::
    "hex_hasher \<Rightarrow> ('k, 'v) kernel_executor \<Rightarrow> 's transactional_sink \<Rightarrow> compiled_plan \<Rightarrow> bytes \<Rightarrow>
     (port_ref, 'v) btree_map \<Rightarrow> ('v, 'k, 's) execution \<Rightarrow> compiled_node \<Rightarrow>
     ('v, 'k, 's, ('v, 'k, 's) execution) exec" where
  "execute_node T K S plan invocation_id invocation_inputs st node =
     and_then (run_node T K S plan invocation_id invocation_inputs st node) (\<lambda>st'.
       Ok (release_buffers plan node st'))"

section \<open>The executor\<close>

definition new_execution :: "compiled_plan \<Rightarrow> bytes \<Rightarrow> 'k \<Rightarrow> 's \<Rightarrow> ('v, 'k, 's) execution" where
  "new_execution plan invocation_id k s =
     \<lparr>ex_receipt = \<lparr>er_invocation_id = invocation_id, er_graph_id = p_graph_id plan,
        er_plan_id = p_plan_id plan, er_realm = p_realm plan, er_completed_nodes = [], er_attempts = [],
        er_committed_transactions = [], er_gaps = []\<rparr>,
      ex_buffers = bt_empty, ex_terminal_values = bt_empty, ex_kernels = k, ex_sink = s\<rparr>"

definition admit_execution ::
    "compiled_plan \<Rightarrow> (port_ref, 'v) btree_map \<Rightarrow> (execution_error, unit) outcome" where
  "admit_execution plan invocation_inputs =
     and_then (guard (p_feedback plan \<noteq> [] \<or> (\<exists>node \<in> set (p_nodes plan). sc_scope (cn_state node) \<noteq> Stateless))
       ExStatefulPlanUnsupported) (\<lambda>_.
     and_then (case List.find (\<lambda>port. \<not> binary_search_ok (p_invocation_ports plan) port) (bt_keys invocation_inputs) of
         Some unexpected \<Rightarrow> Err (ExUnexpectedInvocation unexpected) | None \<Rightarrow> Ok ()) (\<lambda>_.
     case List.find (\<lambda>port. \<not> bt_contains invocation_inputs port) (p_invocation_ports plan) of
         Some missing \<Rightarrow> Err (ExMissingInvocation missing) | None \<Rightarrow> Ok ()))"

text \<open>\<open>PlanExecutor::execute\<close>; the final states of the kernels and the sink are returned with the result.\<close>

definition execute ::
    "hex_hasher \<Rightarrow> ('k, 'v) kernel_executor \<Rightarrow> 's transactional_sink \<Rightarrow> authorized_plan \<Rightarrow> bytes \<Rightarrow>
     (port_ref, 'v) btree_map \<Rightarrow> 'k \<Rightarrow> 's \<Rightarrow>
     (execution_failure \<times> 'k \<times> 's, 'v execution_result \<times> 'k \<times> 's) outcome" where
  "execute T K S authorized invocation_id invocation_inputs k s =
     (let plan = as_plan authorized; st = new_execution plan invocation_id k s
      in map_err (\<lambda>(error, st). (\<lparr>xf_error = error, xf_receipt = ex_receipt st\<rparr>, ex_kernels st, ex_sink st))
           (and_then (map_err (\<lambda>e. (e, st)) (admit_execution plan invocation_inputs)) (\<lambda>_.
            and_then (try_fold (execute_node T K S plan invocation_id invocation_inputs) st (p_nodes plan)) (\<lambda>st.
              Ok (\<lparr>xr_terminal_values = ex_terminal_values st, xr_receipt = ex_receipt st\<rparr>,
                  ex_kernels st, ex_sink st)))))"

section \<open>What the kernels and the sink observe\<close>

text \<open>
  A run is observed through a kernel executor and a sink that behave as the given ones and also keep
  a log: the step of every kernel call, and every call of the sink with what it answered.
\<close>

definition observed :: "('k, 'v) kernel_executor \<Rightarrow> ('k \<times> step_id list, 'v) kernel_executor" where
  "observed K kl node inputs =
     (let (r, k) = K (fst kl) node inputs in (r, (k, snd kl @ [cn_id node])))"

datatype sink_event =
    Prepared string
  | PrepareFailed string
  | Committed string string
  | CommitFailed string
  | Aborted string

definition recorded :: "'s transactional_sink \<Rightarrow> ('s \<times> sink_event list) transactional_sink" where
  "recorded S =
     \<lparr>tx_prepare = (\<lambda>sl key. let (r, s) = tx_prepare S (fst sl) key
        in (r, (s, snd sl @ [case r of Ok _ \<Rightarrow> Prepared key | _ \<Rightarrow> PrepareFailed key]))),
      tx_commit = (\<lambda>sl key. let (r, s) = tx_commit S (fst sl) key
        in (r, (s, snd sl @ [case r of Ok t \<Rightarrow> Committed key t | _ \<Rightarrow> CommitFailed key]))),
      tx_abort = (\<lambda>sl key. (tx_abort S (fst sl) key, snd sl @ [Aborted key]))\<rparr>"

definition transaction_keys :: "hex_hasher \<Rightarrow> compiled_plan \<Rightarrow> bytes \<Rightarrow> compiled_node list \<Rightarrow> string list" where
  "transaction_keys T plan ivk nodes =
     map (\<lambda>node. idempotency_key T plan ivk (cn_id node) (cn_implementation_id node))
       (filter (\<lambda>node. cn_effect node = Transactional) nodes)"

definition settled :: "string list \<Rightarrow> string list \<Rightarrow> sink_event list" where
  "settled keys transactions = concat (map2 (\<lambda>key t. [Prepared key, Committed key t]) keys transactions)"

definition unsettled :: "string \<Rightarrow> sink_event list set" where
  "unsettled key = {[PrepareFailed key], [Prepared key, Aborted key], [Prepared key, CommitFailed key]}"

definition attempt_entry :: "compiled_node \<Rightarrow> u32 \<Rightarrow> bool \<Rightarrow> bool \<Rightarrow> execution_attempt" where
  "attempt_entry node m succeeded completed =
     \<lparr>ea_step = cn_id node, ea_semantic_nodes = cn_semantic_nodes node, ea_kernel = cn_kernel node,
      ea_implementation_id = cn_implementation_id node, ea_attempts = m,
      ea_kernel_succeeded = succeeded, ea_completed = completed\<rparr>"

text \<open>At most one call more than the retry limit, and a single call of an at-most-once kernel.\<close>

definition attempts_bounded :: "compiled_node \<Rightarrow> u32 \<Rightarrow> bool" where
  "attempts_bounded node m =
     (unat m \<le> unat (cn_retry_limit node) + 1 \<and> (cn_effect node \<noteq> AtMostOnce \<or> unat m \<le> 1))"

definition completed_entry :: "compiled_node \<Rightarrow> execution_attempt \<Rightarrow> bool" where
  "completed_entry node a =
     (\<exists>m. a = attempt_entry node m True True \<and> 0 < m \<and> attempts_bounded node m)"

definition kernel_calls :: "execution_attempt list \<Rightarrow> step_id list" where
  "kernel_calls as = concat (map (\<lambda>a. replicate (unat (ea_attempts a)) (ea_step a)) as)"

definition receipt_of :: "compiled_plan \<Rightarrow> bytes \<Rightarrow> execution_receipt \<Rightarrow> bool" where
  "receipt_of plan ivk r =
     (er_invocation_id r = ivk \<and> er_graph_id r = p_graph_id plan \<and> er_plan_id r = p_plan_id plan \<and>
      er_realm r = p_realm plan)"

text \<open>
  The state of an observed run after the nodes \<open>pre\<close>, with \<open>extra\<close> further attempt entries and
  \<open>events\<close> further sink events for a node that is not complete.
\<close>

definition progress ::
    "hex_hasher \<Rightarrow> compiled_plan \<Rightarrow> bytes \<Rightarrow> compiled_node list \<Rightarrow> execution_attempt list \<Rightarrow> sink_event list \<Rightarrow>
     ('v, 'k \<times> step_id list, 's \<times> sink_event list) execution \<Rightarrow> bool" where
  "progress T plan ivk pre extra events st =
     (let r = ex_receipt st; keys = transaction_keys T plan ivk pre
      in receipt_of plan ivk r \<and>
         (\<exists>as. er_attempts r = as @ extra \<and> list_all2 completed_entry pre as) \<and>
         er_completed_nodes r = concat (map cn_semantic_nodes pre) \<and>
         snd (ex_kernels st) = kernel_calls (er_attempts r) \<and>
         length (er_committed_transactions r) = length keys \<and>
         snd (ex_sink st) = settled keys (er_committed_transactions r) @ events)"

definition opened :: "string \<Rightarrow> compiled_node \<Rightarrow> sink_event list" where
  "opened key node = (if cn_effect node = Transactional then [Prepared key] else [])"

definition stopped ::
    "hex_hasher \<Rightarrow> compiled_plan \<Rightarrow> bytes \<Rightarrow> compiled_node list \<Rightarrow> compiled_node \<Rightarrow>
     ('v, 'k \<times> step_id list, 's \<times> sink_event list) execution \<Rightarrow> bool" where
  "stopped T plan ivk pre node st =
     (\<exists>m succeeded events. attempts_bounded node m \<and>
        progress T plan ivk pre [attempt_entry node m succeeded False] events st \<and>
        (if cn_effect node = Transactional
         then events \<in> unsettled (idempotency_key T plan ivk (cn_id node) (cn_implementation_id node))
         else events = []))"

lemma kernel_calls_append [simp]: "kernel_calls (as @ bs) = kernel_calls as @ kernel_calls bs"
  by (simp add: kernel_calls_def)

lemma settled_snoc:
  "length keys = length ts \<Longrightarrow> settled (keys @ [key]) (ts @ [t]) = settled keys ts @ [Prepared key, Committed key t]"
  by (simp add: settled_def)

lemma transaction_keys_snoc:
  "transaction_keys T plan ivk (pre @ [node]) = transaction_keys T plan ivk pre @
     (if cn_effect node = Transactional
      then [idempotency_key T plan ivk (cn_id node) (cn_implementation_id node)] else [])"
  by (simp add: transaction_keys_def)

lemma attempts_bounded_0 [simp]: "attempts_bounded node 0"
  by (simp add: attempts_bounded_def)

text \<open>A node is stopped by an abort, once it has been prepared and not committed.\<close>

lemma stopped_abort:
  assumes "progress T plan ivk pre [attempt_entry node m succeeded False] (opened key node) st"
    and "key = idempotency_key T plan ivk (cn_id node) (cn_implementation_id node)"
    and "attempts_bounded node m"
  shows "stopped T plan ivk pre node (abort_node (recorded S) key node st)"
proof -
  let ?events = "if cn_effect node = Transactional then [Prepared key, Aborted key] else []"
  have "progress T plan ivk pre [attempt_entry node m succeeded False] ?events (abort_node (recorded S) key node st)"
    using assms(1) by (auto simp: progress_def Let_def abort_node_def recorded_def opened_def)
  with assms(2,3) show ?thesis
    unfolding stopped_def
    by (intro exI [of _ m] exI [of _ succeeded] exI [of _ ?events]) (auto simp: unsettled_def)
qed

lemma push_attempt_progress:
  assumes "progress T plan ivk pre [] [] st"
  shows "progress T plan ivk pre [attempt_entry node 0 False False] [] (push_attempt node st)"
  using assms
  by (auto simp: progress_def Let_def push_attempt_def attempt_entry_def kernel_calls_def receipt_of_def)

lemma prepare_node_progress:
  assumes "progress T plan ivk pre [attempt_entry node 0 False False] [] st"
    and "key = idempotency_key T plan ivk (cn_id node) (cn_implementation_id node)"
  shows "yields (prepare_node (recorded S) key node st)
           (progress T plan ivk pre [attempt_entry node 0 False False] (opened key node))
           (\<lambda>(e, st'). stopped T plan ivk pre node st')"
proof (cases "cn_effect node = Transactional")
  case False
  with assms(1) show ?thesis by (simp add: prepare_node_def opened_def yields_def)
next
  case True
  obtain r s where r: "tx_prepare S (fst (ex_sink st)) key = (r, s)" by fastforce
  let ?st = "st\<lparr>ex_sink := (s, snd (ex_sink st) @ [case r of Ok _ \<Rightarrow> Prepared key | _ \<Rightarrow> PrepareFailed key])\<rparr>"
  have run: "prepare_node (recorded S) key node st = map_err (\<lambda>e. (e, ?st)) (and_then r (\<lambda>_. Ok ?st))"
    using True r by (simp add: prepare_node_def recorded_def Let_def)
  have moved: "progress T plan ivk pre [attempt_entry node 0 False False]
      [case r of Ok _ \<Rightarrow> Prepared key | _ \<Rightarrow> PrepareFailed key] ?st"
    using assms(1) by (simp add: progress_def Let_def)
  show ?thesis
  proof (cases r)
    case (Ok u)
    with moved True show ?thesis unfolding run by (simp add: yields_def opened_def)
  next
    case (Err e)
    with moved True assms(2) have "stopped T plan ivk pre node ?st"
      unfolding stopped_def
      by (intro exI [of _ 0] exI [of _ False] exI [of _ "[PrepareFailed key]"]) (simp add: unsettled_def)
    with Err show ?thesis unfolding run by (simp add: yields_def)
  next
    case Panic
    then show ?thesis unfolding run by (simp add: yields_def)
  qed
qed

lemma attempt_update_progress:
  assumes "progress T plan ivk pre [attempt_entry node n False False] events st"
    and "i = length pre" and "unat (n + 1) = unat n + 1"
  shows "progress T plan ivk pre [attempt_entry node (n + 1) False False] events
           ((update_attempt i (\<lambda>a. a\<lparr>ea_attempts := n + 1\<rparr>) st)\<lparr>ex_kernels := (k, snd (ex_kernels st) @ [cn_id node])\<rparr>)"
proof -
  from assms(1) obtain as where as: "er_attempts (ex_receipt st) = as @ [attempt_entry node n False False]"
    and all: "list_all2 completed_entry pre as"
    by (auto simp: progress_def Let_def)
  from all assms(2) have "i = length as" by (simp add: list_all2_lengthD)
  with as have "(er_attempts (ex_receipt st)) [i := (er_attempts (ex_receipt st) ! i)\<lparr>ea_attempts := n + 1\<rparr>] =
      as @ [attempt_entry node (n + 1) False False]"
    by (simp add: attempt_entry_def)
  moreover have "kernel_calls [attempt_entry node (n + 1) False False] =
      kernel_calls [attempt_entry node n False False] @ [cn_id node]"
    by (simp add: kernel_calls_def attempt_entry_def assms(3) replicate_append_same)
  ultimately show ?thesis
    using assms(1) as all by (simp add: progress_def Let_def update_attempt_def receipt_of_def)
qed

lemma attempt_kernel_unfold:
  assumes "K (ex_kernels st) node inputs = (r, k)" and "n + 1 \<noteq> 0"
    and "st' = (update_attempt i (\<lambda>a. a\<lparr>ea_attempts := n + 1\<rparr>) st)\<lparr>ex_kernels := k\<rparr>"
  shows "attempt_kernel K S key node inputs i n st =
     (case r of
        Ok outputs \<Rightarrow> Ok (outputs, st')
      | Panic \<Rightarrow> Panic
      | Err error \<Rightarrow>
          (case undeclared_domain node error of
             Some domain \<Rightarrow>
               Err (ExUndeclaredFailure (cn_kernel node) domain, abort_node S key node st')
           | None \<Rightarrow>
               if n \<ge> ucast (cn_retry_limit node) \<or> \<not> retryable error
               then Err (error, abort_node S key node st')
               else if cn_effect node \<notin> {Pure, Idempotent, Transactional, AtLeastOnce}
               then Err (ExUnsafeRetry (cn_kernel node), st')
               else attempt_kernel K S key node inputs i (n + 1) st'))"
  unfolding assms(3) by (subst attempt_kernel.simps) (simp only: assms(1,2) Let_def prod.case if_False)

lemma attempt_kernel_progress:
  assumes "progress T plan ivk pre [attempt_entry node n False False] (opened key node) st"
    and "key = idempotency_key T plan ivk (cn_id node) (cn_implementation_id node)"
    and "i = length pre"
    and "unat n \<le> unat (cn_retry_limit node)" and "cn_effect node = AtMostOnce \<Longrightarrow> n = 0"
  shows "yields (attempt_kernel (observed K) (recorded S) key node inputs i n st)
           (\<lambda>(outputs, st'). \<exists>m. 0 < m \<and> attempts_bounded node m \<and>
              progress T plan ivk pre [attempt_entry node m False False] (opened key node) st')
           (\<lambda>(e, st'). stopped T plan ivk pre node st')"
  using assms
proof (induction "observed K" "recorded S" key node inputs i n st rule: attempt_kernel.induct)
  case (1 key node inputs i n st)
  note prems = "1.prems"
  show ?case
  proof (cases "n + 1 = 0")
    case True
    then show ?thesis by (subst attempt_kernel.simps) (simp add: yields_def)
  next
    case False
    obtain r k where rk: "K (fst (ex_kernels st)) node inputs = (r, k)" by fastforce
    define st' where "st' = (update_attempt i (\<lambda>a. a\<lparr>ea_attempts := n + 1\<rparr>) st)
      \<lparr>ex_kernels := (k, snd (ex_kernels st) @ [cn_id node])\<rparr>"
    have obs: "observed K (ex_kernels st) node inputs = (r, (k, snd (ex_kernels st) @ [cn_id node]))"
      by (simp add: observed_def rk)
    have moved: "progress T plan ivk pre [attempt_entry node (n + 1) False False] (opened key node) st'"
      unfolding st'_def by (rule attempt_update_progress [OF prems(1,3) unat_Suc_u32 [OF False]])
    have bounded: "attempts_bounded node (n + 1)"
      using prems(4,5) unat_Suc_u32 [OF False] by (auto simp: attempts_bounded_def)
    have aborted: "stopped T plan ivk pre node (abort_node (recorded S) key node st')"
      by (rule stopped_abort [OF moved prems(2) bounded])
    note unfold = attempt_kernel_unfold [of "observed K" st node inputs, OF obs False st'_def, of "recorded S" key]
    show ?thesis
    proof (cases r)
      case (Ok outputs)
      with moved bounded False show ?thesis unfolding unfold by (auto simp: yields_def word_gt_0)
    next
      case Panic
      then show ?thesis unfolding unfold by (simp add: yields_def)
    next
      case (Err error)
      show ?thesis
      proof (cases "undeclared_domain node error")
        case (Some d)
        with Err aborted show ?thesis unfolding unfold by (simp add: yields_def)
      next
        case None
        show ?thesis
        proof (cases "n \<ge> ucast (cn_retry_limit node) \<or> \<not> retryable error")
          case True
          with Err None aborted show ?thesis unfolding unfold by (auto simp: yields_def)
        next
          case again: False
          show ?thesis
          proof (cases "cn_effect node \<in> {Pure, Idempotent, Transactional, AtLeastOnce}")
            case True
            have "unat (n + 1) \<le> unat (cn_retry_limit node)"
              using again unat_Suc_u32 [OF False] by (simp add: word_le_nat_alt not_le)
            with True moved prems "1.hyps" [OF False refl obs [symmetric] st'_def Err None again]
            have "yields (attempt_kernel (observed K) (recorded S) key node inputs i (n + 1) st')
               (\<lambda>(outputs, st'). \<exists>m. 0 < m \<and> attempts_bounded node m \<and>
                  progress T plan ivk pre [attempt_entry node m False False] (opened key node) st')
               (\<lambda>(e, st'). stopped T plan ivk pre node st')"
              by auto
            with Err None again True show ?thesis unfolding unfold by auto
          next
            case once: False
            then have "cn_effect node = AtMostOnce" by (cases "cn_effect node") auto
            with moved bounded have "stopped T plan ivk pre node st'"
              unfolding stopped_def by (auto simp: opened_def)
            with Err None again once show ?thesis unfolding unfold by (auto simp: yields_def)
          qed
        qed
      qed
    qed
  qed
qed

lemma gather_inputs_progress:
  assumes "progress T plan ivk pre [attempt_entry node 0 False False] (opened key node) st"
    and "key = idempotency_key T plan ivk (cn_id node) (cn_implementation_id node)"
  shows "yields (gather_inputs plan invocation_inputs (recorded S) key node st)
           (\<lambda>_. True) (\<lambda>(e, st'). stopped T plan ivk pre node st')"
  using stopped_abort [OF assms]
  by (cases "try_map (gather_input plan invocation_inputs (ex_buffers st)) (cn_input_bindings node)")
    (auto simp: gather_inputs_def yields_def)

lemma check_outputs_progress:
  assumes "progress T plan ivk pre [attempt_entry node m False False] (opened key node) st"
    and "key = idempotency_key T plan ivk (cn_id node) (cn_implementation_id node)"
    and "attempts_bounded node m"
  shows "yields (check_outputs (recorded S) key node outputs st)
           (\<lambda>_. True) (\<lambda>(e, st'). stopped T plan ivk pre node st')"
  unfolding check_outputs_def using stopped_abort [OF assms]
  by (auto intro!: yields_intros)

lemma ex_store_outputs:
  "ex_receipt (store_outputs i node outputs st) =
     (ex_receipt st)\<lparr>er_gaps := er_gaps (ex_receipt st) @
        map (\<lambda>gap. \<lparr>gr_step = cn_id node, gr_semantic_nodes = cn_semantic_nodes node, gr_gap = gap\<rparr>) (ke_gaps outputs),
      er_attempts := (er_attempts (ex_receipt st))[i := (er_attempts (ex_receipt st) ! i)\<lparr>ea_kernel_succeeded := True\<rparr>]\<rparr>"
  "ex_kernels (store_outputs i node outputs st) = ex_kernels st"
  "ex_sink (store_outputs i node outputs st) = ex_sink st"
  by (auto simp: store_outputs_def Let_def update_attempt_def split: prod.splits)

lemma nth_update_last: "list_all2 P xs ys \<Longrightarrow> (ys @ [a]) [length xs := f ((ys @ [a]) ! length xs)] = ys @ [f a]"
  by (simp add: list_all2_lengthD)

lemma store_outputs_progress:
  assumes "progress T plan ivk pre [attempt_entry node m False False] events st"
  shows "progress T plan ivk pre [attempt_entry node m True False] events (store_outputs (length pre) node outputs st)"
proof -
  from assms obtain as where as: "er_attempts (ex_receipt st) = as @ [attempt_entry node m False False]"
    and all: "list_all2 completed_entry pre as"
    by (auto simp: progress_def Let_def)
  have "er_attempts (ex_receipt (store_outputs (length pre) node outputs st)) = as @ [attempt_entry node m True False]"
    using nth_update_last [OF all, of "attempt_entry node m False False" "\<lambda>a. a\<lparr>ea_kernel_succeeded := True\<rparr>"]
    by (simp add: ex_store_outputs as attempt_entry_def)
  moreover have "kernel_calls [attempt_entry node m True False] = kernel_calls [attempt_entry node m False False]"
    by (simp add: kernel_calls_def attempt_entry_def)
  ultimately show ?thesis
    using assms as all by (simp add: progress_def Let_def ex_store_outputs receipt_of_def)
qed

lemma commit_node_progress:
  fixes st :: "('v, 'k \<times> step_id list, 's \<times> sink_event list) execution"
  assumes "progress T plan ivk pre [attempt_entry node m True False] (opened key node) st"
    and key: "key = idempotency_key T plan ivk (cn_id node) (cn_implementation_id node)"
    and m: "0 < m" "attempts_bounded node m"
  shows "yields (commit_node (recorded S) key node st)
           (\<lambda>st'. progress T plan ivk (pre @ [node]) [] [] (complete_node (length pre) node st'))
           (\<lambda>(e, st'). stopped T plan ivk pre node st')"
proof -
  from assms(1) obtain as where as: "er_attempts (ex_receipt st) = as @ [attempt_entry node m True False]"
    and all: "list_all2 completed_entry pre as"
    by (auto simp: progress_def Let_def)
  have last: "completed_entry node (attempt_entry node m True True)"
    using m by (auto simp: completed_entry_def)
  have complete: "er_attempts (ex_receipt (complete_node (length pre) node st')) = as @ [attempt_entry node m True True]"
    if "er_attempts (ex_receipt st') = er_attempts (ex_receipt st)" for st' :: "('v, 'k \<times> step_id list, 's \<times> sink_event list) execution"
    using that nth_update_last [OF all, of "attempt_entry node m True False" "\<lambda>a. a\<lparr>ea_completed := True\<rparr>"]
    by (simp add: complete_node_def update_attempt_def Let_def as attempt_entry_def)
  have calls: "kernel_calls [attempt_entry node m True True] = kernel_calls [attempt_entry node m True False]"
    by (simp add: kernel_calls_def attempt_entry_def)
  have complete_rest: "ex_kernels (complete_node i node st') = ex_kernels st'"
    "ex_sink (complete_node i node st') = ex_sink st'"
    "er_completed_nodes (ex_receipt (complete_node i node st')) = er_completed_nodes (ex_receipt st') @ cn_semantic_nodes node"
    "er_committed_transactions (ex_receipt (complete_node i node st')) = er_committed_transactions (ex_receipt st')"
    "receipt_of plan ivk (ex_receipt (complete_node i node st')) = receipt_of plan ivk (ex_receipt st')"
    for i and st' :: "('v, 'k \<times> step_id list, 's \<times> sink_event list) execution"
    by (simp_all add: complete_node_def update_attempt_def Let_def receipt_of_def)
  show ?thesis
  proof (cases "cn_effect node = Transactional")
    case False
    have "progress T plan ivk (pre @ [node]) [] [] (complete_node (length pre) node st)"
      using assms(1) False as all last complete [of st, OF refl] calls
      by (simp add: progress_def Let_def complete_rest transaction_keys_snoc opened_def list_all2_appendI)
    with False show ?thesis by (simp add: commit_node_def yields_def)
  next
    case True
    obtain r s where r: "tx_commit S (fst (ex_sink st)) key = (r, s)" by fastforce
    define st' where "st' = st\<lparr>ex_sink := (s, snd (ex_sink st) @ [case r of Ok t \<Rightarrow> Committed key t | _ \<Rightarrow> CommitFailed key])\<rparr>"
    have run: "commit_node (recorded S) key node st = map_err (\<lambda>e. (e, st')) (and_then r (\<lambda>transaction.
        Ok (st'\<lparr>ex_receipt := (ex_receipt st')\<lparr>er_committed_transactions :=
             er_committed_transactions (ex_receipt st') @ [transaction]\<rparr>\<rparr>)))"
      using True r by (simp add: commit_node_def recorded_def Let_def st'_def)
    show ?thesis
    proof (cases r)
      case (Ok t)
      define stc where "stc = st'\<lparr>ex_receipt := (ex_receipt st')\<lparr>er_committed_transactions :=
             er_committed_transactions (ex_receipt st') @ [t]\<rparr>\<rparr>"
      have stc: "er_attempts (ex_receipt stc) = er_attempts (ex_receipt st)" "ex_kernels stc = ex_kernels st"
        "snd (ex_sink stc) = snd (ex_sink st) @ [Committed key t]"
        "er_completed_nodes (ex_receipt stc) = er_completed_nodes (ex_receipt st)"
        "er_committed_transactions (ex_receipt stc) = er_committed_transactions (ex_receipt st) @ [t]"
        "receipt_of plan ivk (ex_receipt stc) = receipt_of plan ivk (ex_receipt st)"
        by (simp_all add: stc_def st'_def Ok receipt_of_def)
      have "progress T plan ivk (pre @ [node]) [] [] (complete_node (length pre) node stc)"
        using assms(1) True as all last complete [OF stc(1)] calls
        by (simp add: progress_def Let_def complete_rest stc transaction_keys_snoc opened_def
            list_all2_appendI settled_snoc key)
      with Ok show ?thesis unfolding run stc_def by (simp add: yields_def)
    next
      case (Err e)
      have "progress T plan ivk pre [attempt_entry node m True False] [Prepared key, CommitFailed key] st'"
        using assms(1) True Err by (simp add: progress_def Let_def st'_def opened_def)
      with True m key have "stopped T plan ivk pre node st'"
        unfolding stopped_def
        by (intro exI [of _ m] exI [of _ True] exI [of _ "[Prepared key, CommitFailed key]"]) (simp add: unsettled_def)
      with Err show ?thesis unfolding run by (simp add: yields_def)
    next
      case Panic
      then show ?thesis unfolding run by (simp add: yields_def)
    qed
  qed
qed

lemma run_node_progress:
  fixes st :: "('v, 'k \<times> step_id list, 's \<times> sink_event list) execution"
  assumes "progress T plan ivk pre [] [] st"
  shows "yields (run_node T (observed K) (recorded S) plan ivk invocation_inputs st node)
           (progress T plan ivk (pre @ [node]) [] []) (\<lambda>(e, st'). stopped T plan ivk pre node st')"
proof -
  let ?key = "idempotency_key T plan ivk (cn_id node) (cn_implementation_id node)"
  let ?stop = "\<lambda>(e :: execution_error, st'). stopped T plan ivk pre node st'"
  from assms have i: "length (er_attempts (ex_receipt st)) = length pre"
    by (auto simp: progress_def Let_def dest: list_all2_lengthD)
  show ?thesis
    unfolding run_node_def Let_def i
  proof (rule yields_and_then, rule yields_mono [OF prepare_node_progress [OF push_attempt_progress [OF assms] refl]])
    fix st1 :: "('v, 'k \<times> step_id list, 's \<times> sink_event list) execution"
    assume st1: "progress T plan ivk pre [attempt_entry node 0 False False] (opened ?key node) st1"
    show "yields (and_then (gather_inputs plan invocation_inputs (recorded S) ?key node st1) (\<lambda>inputs.
         and_then (attempt_kernel (observed K) (recorded S) ?key node inputs (length pre) 0 st1) (\<lambda>(outputs, st2).
         and_then (check_outputs (recorded S) ?key node outputs st2) (\<lambda>_.
         and_then (commit_node (recorded S) ?key node (store_outputs (length pre) node outputs st2)) (\<lambda>st3.
           Ok (complete_node (length pre) node st3))))))
       (progress T plan ivk (pre @ [node]) [] []) ?stop"
    proof (rule yields_and_then, rule yields_mono [OF gather_inputs_progress [OF st1 refl]],
        rule yields_and_then, rule yields_mono [OF attempt_kernel_progress [OF st1 refl refl]])
      fix out :: "'v kernel_execution \<times> ('v, 'k \<times> step_id list, 's \<times> sink_event list) execution"
      assume "case out of (outputs, st') \<Rightarrow> \<exists>m. 0 < m \<and> attempts_bounded node m \<and>
              progress T plan ivk pre [attempt_entry node m False False] (opened ?key node) st'"
      then obtain outputs st2 m where out: "out = (outputs, st2)" and m: "0 < m" "attempts_bounded node m"
        and st2: "progress T plan ivk pre [attempt_entry node m False False] (opened ?key node) st2"
        by auto
      show "yields (case out of (outputs, st2) \<Rightarrow> and_then (check_outputs (recorded S) ?key node outputs st2) (\<lambda>_.
           and_then (commit_node (recorded S) ?key node (store_outputs (length pre) node outputs st2)) (\<lambda>st3.
             Ok (complete_node (length pre) node st3))))
         (progress T plan ivk (pre @ [node]) [] []) ?stop"
        unfolding out prod.case
        by (rule yields_and_then, rule yields_mono [OF check_outputs_progress [OF st2 refl m(2)]],
            rule yields_and_then, rule yields_mono [OF commit_node_progress [OF store_outputs_progress [OF st2] refl m]])
          (simp_all add: yields_def)
    qed simp_all
  qed simp
qed

lemma progress_release [simp]:
  "progress T plan ivk ns es evs (release_buffers plan node st) = progress T plan ivk ns es evs st"
  by (simp add: progress_def release_buffers_def)

lemma execute_node_progress:
  assumes "progress T plan ivk pre [] [] st"
  shows "yields (execute_node T (observed K) (recorded S) plan ivk invocation_inputs st node)
           (progress T plan ivk (pre @ [node]) [] []) (\<lambda>(e, st'). stopped T plan ivk pre node st')"
  unfolding execute_node_def
  by (rule yields_and_then, rule yields_mono [OF run_node_progress [OF assms]]) (simp_all add: yields_def)

lemma new_execution_progress: "progress T plan ivk [] [] [] (new_execution plan ivk (k, []) (s, []))"
  by (simp add: progress_def Let_def new_execution_def receipt_of_def transaction_keys_def settled_def kernel_calls_def)

lemma execute_nodes_progress:
  "yields (try_fold (execute_node T (observed K) (recorded S) plan ivk invocation_inputs)
       (new_execution plan ivk (k, []) (s, [])) (p_nodes plan))
     (progress T plan ivk (p_nodes plan) [] [])
     (\<lambda>(e, st). \<exists>pre node post. p_nodes plan = pre @ node # post \<and> stopped T plan ivk pre node st)"
  by (rule yields_try_fold_prefix, rule new_execution_progress,
      rule yields_mono [OF execute_node_progress]) auto

lemma execute_progress:
  fixes K :: "('k, 'v) kernel_executor" and S :: "'s transactional_sink"
  assumes "execute T (observed K) (recorded S) (AuthorizedPlan plan) ivk invocation_inputs (k, []) (s, []) = outcome"
  shows "outcome = Ok (result, k', s') \<Longrightarrow>
      \<exists>st :: ('v, 'k \<times> step_id list, 's \<times> sink_event list) execution. progress T plan ivk (p_nodes plan) [] [] st \<and> xr_receipt result = ex_receipt st \<and> k' = ex_kernels st \<and> s' = ex_sink st"
    and "outcome = Err (failure, k', s') \<Longrightarrow>
      \<exists>st :: ('v, 'k \<times> step_id list, 's \<times> sink_event list) execution. xf_receipt failure = ex_receipt st \<and> k' = ex_kernels st \<and> s' = ex_sink st \<and>
        (progress T plan ivk [] [] [] st \<or>
         (\<exists>pre node post. p_nodes plan = pre @ node # post \<and> stopped T plan ivk pre node st))"
proof -
  let ?run = "try_fold (execute_node T (observed K) (recorded S) plan ivk invocation_inputs)
       (new_execution plan ivk (k, []) (s, [])) (p_nodes plan)"
  note run = execute_nodes_progress [of T K S plan ivk invocation_inputs k s]
  show "\<exists>st :: ('v, 'k \<times> step_id list, 's \<times> sink_event list) execution. progress T plan ivk (p_nodes plan) [] [] st \<and> xr_receipt result = ex_receipt st \<and> k' = ex_kernels st \<and> s' = ex_sink st"
    if "outcome = Ok (result, k', s')"
  proof -
    from that assms obtain st where "?run = Ok st" "xr_receipt result = ex_receipt st" "k' = ex_kernels st" "s' = ex_sink st"
      by (auto simp: execute_def Let_def outcome_simps)
    with yields_OkD [OF run] show ?thesis by blast
  qed
  show "\<exists>st :: ('v, 'k \<times> step_id list, 's \<times> sink_event list) execution. xf_receipt failure = ex_receipt st \<and> k' = ex_kernels st \<and> s' = ex_sink st \<and>
        (progress T plan ivk [] [] [] st \<or>
         (\<exists>pre node post. p_nodes plan = pre @ node # post \<and> stopped T plan ivk pre node st))"
    if "outcome = Err (failure, k', s')"
  proof (cases "admit_execution plan invocation_inputs")
    case (Ok u)
    with that assms obtain e st where "?run = Err (e, st)" "xf_receipt failure = ex_receipt st" "k' = ex_kernels st" "s' = ex_sink st"
      by (cases ?run) (auto simp: execute_def Let_def)
    with yields_ErrD [OF run] show ?thesis by fastforce
  next
    case (Err e)
    with that assms show ?thesis
      by (intro exI [of _ "new_execution plan ivk (k, []) (s, [])"])
        (auto simp: execute_def Let_def new_execution_progress)
  next
    case Panic
    with that assms show ?thesis by (simp add: execute_def Let_def)
  qed
qed

text \<open>
  The log of a sink that was asked to run the transactions \<open>keys\<close> in order: the first of them are
  prepared and committed, once each; then possibly one is left unsettled (its preparation failed, or
  it was prepared and aborted, or its commit failed); nothing follows.
\<close>

definition transaction_log :: "string list \<Rightarrow> string list \<Rightarrow> sink_event list \<Rightarrow> bool" where
  "transaction_log keys transactions events =
     (\<exists>finished rest tail. keys = finished @ rest \<and> length transactions = length finished \<and>
        events = settled finished transactions @ tail \<and>
        (tail = [] \<or> (\<exists>key keys'. rest = key # keys' \<and> tail \<in> unsettled key)))"

lemma transaction_keys_append:
  "transaction_keys T plan ivk (xs @ ys) = transaction_keys T plan ivk xs @ transaction_keys T plan ivk ys"
  by (simp add: transaction_keys_def)

lemma stopped_transaction_log:
  assumes "stopped T plan ivk pre node st" and "nodes = pre @ node # post"
  shows "transaction_log (transaction_keys T plan ivk nodes)
           (er_committed_transactions (ex_receipt st)) (snd (ex_sink st))"
proof -
  let ?key = "idempotency_key T plan ivk (cn_id node) (cn_implementation_id node)"
  from assms(1) obtain m succeeded events
    where "progress T plan ivk pre [attempt_entry node m succeeded False] events st"
      and tail: "if cn_effect node = Transactional then events \<in> unsettled ?key else events = []"
    by (auto simp: stopped_def)
  then have log: "length (er_committed_transactions (ex_receipt st)) = length (transaction_keys T plan ivk pre)"
      "snd (ex_sink st) = settled (transaction_keys T plan ivk pre) (er_committed_transactions (ex_receipt st)) @ events"
    by (auto simp: progress_def Let_def)
  have keys: "transaction_keys T plan ivk nodes =
      transaction_keys T plan ivk pre @ transaction_keys T plan ivk (node # post)"
    by (simp add: assms(2) transaction_keys_append)
  have "events = [] \<or> (\<exists>key keys'. transaction_keys T plan ivk (node # post) = key # keys' \<and> events \<in> unsettled key)"
    using tail by (auto simp: transaction_keys_def split: if_splits)
  with log keys show ?thesis unfolding transaction_log_def by blast
qed

text \<open>
  C3. A sink under the plan executor sees one transaction per transactional step, in plan order, under
  the step's idempotency key. If the run succeeds every one of them was prepared and then committed,
  exactly once, and the receipt lists what the commits returned. If the run fails, the transactions
  before the failure are committed and listed in the receipt, and at most the failing step's own
  transaction is left unsettled: nothing is committed without being prepared, nothing is both
  committed and aborted, and a prepared transaction is aborted unless its own commit failed.
\<close>

theorem execute_transaction_protocol:
  fixes K :: "('k, 'v) kernel_executor" and S :: "'s transactional_sink"
  shows "case execute T (observed K) (recorded S) (AuthorizedPlan plan) ivk invocation_inputs (k, []) (s, []) of
     Ok (result, _, (_, events)) \<Rightarrow>
       length (er_committed_transactions (xr_receipt result)) = length (transaction_keys T plan ivk (p_nodes plan)) \<and>
       events = settled (transaction_keys T plan ivk (p_nodes plan)) (er_committed_transactions (xr_receipt result))
   | Err (failure, _, (_, events)) \<Rightarrow>
       transaction_log (transaction_keys T plan ivk (p_nodes plan))
         (er_committed_transactions (xf_receipt failure)) events
   | Panic \<Rightarrow> True"
proof (cases "execute T (observed K) (recorded S) (AuthorizedPlan plan) ivk invocation_inputs (k, []) (s, [])")
  case (Ok res)
  obtain result k' s' where res: "res = (result, k', s')" by (cases res) auto
  from execute_progress(1) [OF Ok [unfolded res] refl] Ok res show ?thesis
    by (auto simp: progress_def Let_def)
next
  case (Err res)
  obtain failure k' s' where res: "res = (failure, k', s')" by (cases res) auto
  from execute_progress(2) [OF Err [unfolded res] refl]
  obtain st :: "('v, 'k \<times> step_id list, 's \<times> sink_event list) execution"
    where st: "xf_receipt failure = ex_receipt st" "s' = ex_sink st"
    and stop: "progress T plan ivk [] [] [] st \<or>
         (\<exists>pre node post. p_nodes plan = pre @ node # post \<and> stopped T plan ivk pre node st)"
    by auto
  from stop have "transaction_log (transaction_keys T plan ivk (p_nodes plan))
      (er_committed_transactions (ex_receipt st)) (snd (ex_sink st))"
  proof
    assume "progress T plan ivk [] [] [] st"
    then show ?thesis
      by (simp add: progress_def Let_def transaction_log_def transaction_keys_def)
  qed (auto intro: stopped_transaction_log)
  with Err res st show ?thesis by (simp add: split_beta)
next
  case Panic
  then show ?thesis by simp
qed

text \<open>What the commits answered, and the keys the sink was asked to prepare, in the order of the calls.\<close>

fun committed_of :: "sink_event list \<Rightarrow> string list" where
  "committed_of [] = []"
| "committed_of (Committed _ t # events) = t # committed_of events"
| "committed_of (_ # events) = committed_of events"

fun requested_keys :: "sink_event list \<Rightarrow> string list" where
  "requested_keys [] = []"
| "requested_keys (Prepared key # events) = key # requested_keys events"
| "requested_keys (PrepareFailed key # events) = key # requested_keys events"
| "requested_keys (_ # events) = requested_keys events"

lemma settled_log:
  assumes "length keys = length ts"
  shows "committed_of (settled keys ts @ events) = ts @ committed_of events"
    and "requested_keys (settled keys ts @ events) = keys @ requested_keys events"
  using assms by (induction keys ts rule: list_induct2) (simp_all add: settled_def)

lemma unsettled_log:
  assumes "events \<in> unsettled key"
  shows "committed_of events = []" and "requested_keys events = [key]"
  using assms by (auto simp: unsettled_def)

lemma progress_log:
  assumes "progress T plan ivk pre extra events st"
  shows "committed_of (snd (ex_sink st)) = er_committed_transactions (ex_receipt st) @ committed_of events"
    and "requested_keys (snd (ex_sink st)) = transaction_keys T plan ivk pre @ requested_keys events"
  using assms by (simp_all add: progress_def Let_def settled_log)

lemma stopped_log:
  assumes "stopped T plan ivk pre node st"
  shows "committed_of (snd (ex_sink st)) = er_committed_transactions (ex_receipt st)"
    and "requested_keys (snd (ex_sink st)) = transaction_keys T plan ivk (pre @ [node])"
  using assms unfolding stopped_def
  by (auto simp: progress_log unsettled_log transaction_keys_snoc split: if_splits) (simp_all add: unsettled_def)

text \<open>
  C17. The receipt of a run is truthful on every exit. It names the invocation, graph, plan and realm;
  its attempt entries are those of the steps in plan order, every one but possibly the last completed;
  the number of calls the kernels received is exactly what the entries count, at most the retry limit
  plus one for a step and at most one for an at-most-once step; the completed nodes are those of
  the completed steps, all of them when the run succeeds; and the committed transactions are, in
  order, exactly the answers of the commits the sink acknowledged. (What the receipt says of gaps is
  not part of this statement.)
\<close>

theorem execute_receipt_truthful:
  fixes K :: "('k, 'v) kernel_executor" and S :: "'s transactional_sink"
  shows "case execute T (observed K) (recorded S) (AuthorizedPlan plan) ivk invocation_inputs (k, []) (s, []) of
     Ok (result, (_, calls), (_, events)) \<Rightarrow>
       receipt_of plan ivk (xr_receipt result) \<and>
       list_all2 completed_entry (p_nodes plan) (er_attempts (xr_receipt result)) \<and>
       calls = kernel_calls (er_attempts (xr_receipt result)) \<and>
       er_completed_nodes (xr_receipt result) = concat (map cn_semantic_nodes (p_nodes plan)) \<and>
       er_committed_transactions (xr_receipt result) = committed_of events
   | Err (failure, (_, calls), (_, events)) \<Rightarrow>
       receipt_of plan ivk (xf_receipt failure) \<and>
       calls = kernel_calls (er_attempts (xf_receipt failure)) \<and>
       er_committed_transactions (xf_receipt failure) = committed_of events \<and>
       (\<exists>pre as. list_all2 completed_entry pre as \<and>
          er_completed_nodes (xf_receipt failure) = concat (map cn_semantic_nodes pre) \<and>
          (er_attempts (xf_receipt failure) = [] \<and> pre = [] \<or>
           (\<exists>node post m succeeded. p_nodes plan = pre @ node # post \<and> attempts_bounded node m \<and>
              er_attempts (xf_receipt failure) = as @ [attempt_entry node m succeeded False])))
   | Panic \<Rightarrow> True"
proof (cases "execute T (observed K) (recorded S) (AuthorizedPlan plan) ivk invocation_inputs (k, []) (s, [])")
  case (Ok res)
  obtain result k' s' where res: "res = (result, k', s')" by (cases res) auto
  from execute_progress(1) [OF Ok [unfolded res] refl]
  obtain st :: "('v, 'k \<times> step_id list, 's \<times> sink_event list) execution"
    where st: "progress T plan ivk (p_nodes plan) [] [] st" "xr_receipt result = ex_receipt st" "k' = ex_kernels st" "s' = ex_sink st"
    by blast
  with Ok res progress_log(1) [OF st(1)] show ?thesis by (auto simp: progress_def Let_def split_beta)
next
  case (Err res)
  obtain failure k' s' where res: "res = (failure, k', s')" by (cases res) auto
  from execute_progress(2) [OF Err [unfolded res] refl]
  obtain st :: "('v, 'k \<times> step_id list, 's \<times> sink_event list) execution"
    where st: "xf_receipt failure = ex_receipt st" "k' = ex_kernels st" "s' = ex_sink st"
    and stop: "progress T plan ivk [] [] [] st \<or>
         (\<exists>pre node post. p_nodes plan = pre @ node # post \<and> stopped T plan ivk pre node st)"
    by auto
  from stop show ?thesis
  proof
    assume none: "progress T plan ivk [] [] [] st"
    with Err res st progress_log(1) [OF none] show ?thesis
      by (auto simp: progress_def Let_def split_beta intro!: exI [of _ "[]"])
  next
    assume "\<exists>pre node post. p_nodes plan = pre @ node # post \<and> stopped T plan ivk pre node st"
    then obtain pre node post where split: "p_nodes plan = pre @ node # post" and stop: "stopped T plan ivk pre node st"
      by blast
    then obtain m succeeded events where m: "attempts_bounded node m"
      and st': "progress T plan ivk pre [attempt_entry node m succeeded False] events st"
      by (auto simp: stopped_def)
    note commits = stopped_log(1) [OF stop]
    from st' obtain as where as: "er_attempts (ex_receipt st) = as @ [attempt_entry node m succeeded False]"
      "list_all2 completed_entry pre as"
      by (auto simp: progress_def Let_def)
    from st' have rest: "receipt_of plan ivk (ex_receipt st)" "er_completed_nodes (ex_receipt st) = concat (map cn_semantic_nodes pre)"
      "snd (ex_kernels st) = kernel_calls (er_attempts (ex_receipt st))"
      by (auto simp: progress_def Let_def)
    have "\<exists>pre as. list_all2 completed_entry pre as \<and>
          er_completed_nodes (ex_receipt st) = concat (map cn_semantic_nodes pre) \<and>
          (er_attempts (ex_receipt st) = [] \<and> pre = [] \<or>
           (\<exists>node post m succeeded. p_nodes plan = pre @ node # post \<and> attempts_bounded node m \<and>
              er_attempts (ex_receipt st) = as @ [attempt_entry node m succeeded False]))"
      using as rest(2) split m by blast
    then show ?thesis unfolding Err res using st rest(1,3) commits by (simp add: split_beta)
  qed
next
  case Panic
  then show ?thesis by simp
qed

section \<open>Transaction keys\<close>

text \<open>The bytes a step's key is the hash of; the calls a sink has seen at the end of a run.\<close>

definition key_bytes :: "compiled_plan \<Rightarrow> bytes \<Rightarrow> compiled_node \<Rightarrow> bytes" where
  "key_bytes plan ivk node = p_plan_id plan @ ivk @ put_u32 (cn_id node) @ cn_implementation_id node"

definition keys_collide :: "hex_hasher \<Rightarrow> compiled_plan \<Rightarrow> bytes \<Rightarrow> compiled_plan \<Rightarrow> bytes \<Rightarrow> bool" where
  "keys_collide T plan ivk plan' ivk' \<longleftrightarrow>
     (\<exists>node \<in> set (p_nodes plan). \<exists>node' \<in> set (p_nodes plan').
        key_bytes plan ivk node \<noteq> key_bytes plan' ivk' node' \<and>
        T ''blut.transaction.v2'' (key_bytes plan ivk node) = T ''blut.transaction.v2'' (key_bytes plan' ivk' node'))"

definition sink_log ::
    "(execution_failure \<times> 'k \<times> ('s \<times> sink_event list), 'v execution_result \<times> 'k \<times> ('s \<times> sink_event list)) outcome \<Rightarrow> sink_event list" where
  "sink_log run = (case run of Ok (_, _, (_, events)) \<Rightarrow> events | Err (_, _, (_, events)) \<Rightarrow> events | Panic \<Rightarrow> [])"

lemma key_bytes_eq:
  assumes "length (p_plan_id plan) = 32" "length (p_plan_id plan') = 32" "length ivk = 32" "length ivk' = 32"
  shows "key_bytes plan ivk node = key_bytes plan' ivk' node' \<longleftrightarrow>
    p_plan_id plan = p_plan_id plan' \<and> ivk = ivk' \<and> cn_id node = cn_id node' \<and> cn_implementation_id node = cn_implementation_id node'"
  using assms by (simp add: key_bytes_def u32.cancel)

lemma transaction_keys_bytes:
  "transaction_keys T plan ivk nodes =
     map (\<lambda>node. T ''blut.transaction.v2'' (key_bytes plan ivk node)) (filter (\<lambda>node. cn_effect node = Transactional) nodes)"
  by (simp add: transaction_keys_def idempotency_key_def key_bytes_def)

lemma run_requests:
  fixes K :: "('k, 'v) kernel_executor" and S :: "'s transactional_sink"
  shows "\<exists>rest. transaction_keys T plan ivk (p_nodes plan) = requested_keys (sink_log
    (execute T (observed K) (recorded S) (AuthorizedPlan plan) ivk invocation_inputs (k, []) (s, []))) @ rest"
proof (cases "execute T (observed K) (recorded S) (AuthorizedPlan plan) ivk invocation_inputs (k, []) (s, [])")
  case (Ok res)
  obtain result k' s' where res: "res = (result, k', s')" by (cases res) auto
  from execute_progress(1) [OF Ok [unfolded res] refl]
  obtain st :: "('v, 'k \<times> step_id list, 's \<times> sink_event list) execution"
    where st: "progress T plan ivk (p_nodes plan) [] [] st" "s' = ex_sink st" by blast
  from progress_log(2) [OF st(1)] Ok res st(2) show ?thesis by (simp add: sink_log_def split_beta)
next
  case (Err res)
  obtain failure k' s' where res: "res = (failure, k', s')" by (cases res) auto
  from execute_progress(2) [OF Err [unfolded res] refl]
  obtain st :: "('v, 'k \<times> step_id list, 's \<times> sink_event list) execution"
    where st: "s' = ex_sink st" and stop: "progress T plan ivk [] [] [] st \<or>
         (\<exists>pre node post. p_nodes plan = pre @ node # post \<and> stopped T plan ivk pre node st)" by auto
  have log: "sink_log (Err res :: (_, 'v execution_result \<times> _) outcome) = snd (ex_sink st)"
    using res st by (simp add: sink_log_def split_beta)
  from stop show ?thesis unfolding Err log
  proof
    assume "progress T plan ivk [] [] [] st"
    then show "\<exists>rest. transaction_keys T plan ivk (p_nodes plan) = requested_keys (snd (ex_sink st)) @ rest"
      using progress_log(2) by (force simp: transaction_keys_def)
  next
    assume "\<exists>pre node post. p_nodes plan = pre @ node # post \<and> stopped T plan ivk pre node st"
    then obtain pre node post where nodes: "p_nodes plan = (pre @ [node]) @ post" and stop: "stopped T plan ivk pre node st" by auto
    then show "\<exists>rest. transaction_keys T plan ivk (p_nodes plan) = requested_keys (snd (ex_sink st)) @ rest"
      unfolding stopped_log(2) [OF stop] nodes transaction_keys_append [of T plan ivk "pre @ [node]"] by blast
  qed
next
  case Panic
  then show ?thesis by (simp add: sink_log_def)
qed

text \<open>
  C37. What the sink may rely on to recognise a repeated transaction. Take two runs of the executor,
  whatever their kernels, sinks and inputs. Runs of the same plan for the same invocation request the
  same keys in the same order, one of them possibly stopping earlier. Within a run over distinct steps
  no key is requested twice, and runs that differ in the plan or in the invocation request no key in
  common, unless two steps of these very plans hash different bytes to one key.
\<close>

theorem idempotency_keys_separate:
  fixes K K' :: "('k, 'v) kernel_executor" and S S' :: "'s transactional_sink"
  assumes keys: "keys = requested_keys (sink_log (execute T (observed K) (recorded S) (AuthorizedPlan plan) ivk inputs (k, []) (s, [])))"
    and keys': "keys' = requested_keys (sink_log (execute T (observed K') (recorded S') (AuthorizedPlan plan') ivk' inputs' (k', []) (s', [])))"
    and "length (p_plan_id plan) = 32" "length (p_plan_id plan') = 32" "length ivk = 32" "length ivk' = 32"
    and "distinct (map cn_id (p_nodes plan))"
  shows "(plan = plan' \<and> ivk = ivk' \<longrightarrow> (\<exists>rest. keys' = keys @ rest \<or> keys = keys' @ rest)) \<and>
    (distinct keys \<or> keys_collide T plan ivk plan ivk) \<and>
    (p_plan_id plan \<noteq> p_plan_id plan' \<or> ivk \<noteq> ivk' \<longrightarrow> set keys \<inter> set keys' = {} \<or> keys_collide T plan ivk plan' ivk')"
proof (intro conjI impI)
  obtain rest where rest: "transaction_keys T plan ivk (p_nodes plan) = keys @ rest"
    using run_requests [where T = T and plan = plan and ivk = ivk and K = K and S = S and invocation_inputs = inputs and k = k and s = s] unfolding keys by (elim exE)
  obtain rest' where rest': "transaction_keys T plan' ivk' (p_nodes plan') = keys' @ rest'"
    using run_requests [where T = T and plan = plan' and ivk = ivk' and K = K' and S = S' and invocation_inputs = inputs' and k = k' and s = s'] unfolding keys' by (elim exE)
  show "\<exists>rest. keys' = keys @ rest \<or> keys = keys' @ rest" if "plan = plan' \<and> ivk = ivk'"
    using rest rest' that by (auto simp: append_eq_append_conv2)
  show "distinct keys \<or> keys_collide T plan ivk plan ivk"
  proof (cases "keys_collide T plan ivk plan ivk")
    case False
    then have "inj_on (\<lambda>node. T ''blut.transaction.v2'' (key_bytes plan ivk node)) (set (p_nodes plan))"
      using assms(7) unfolding keys_collide_def inj_on_def distinct_map key_bytes_eq [OF assms(3,3,5,5)] by blast
    moreover have "distinct (p_nodes plan)" using assms(7) by (simp add: distinct_map)
    ultimately have "distinct (transaction_keys T plan ivk (p_nodes plan))"
      by (auto simp: transaction_keys_bytes distinct_map intro: inj_on_subset)
    then show ?thesis by (simp add: rest)
  qed simp
  show "set keys \<inter> set keys' = {} \<or> keys_collide T plan ivk plan' ivk'" if "p_plan_id plan \<noteq> p_plan_id plan' \<or> ivk \<noteq> ivk'"
  proof (cases "set keys \<inter> set keys' = {}")
    case False
    then obtain key where "key \<in> set (transaction_keys T plan ivk (p_nodes plan))" "key \<in> set (transaction_keys T plan' ivk' (p_nodes plan'))"
      by (auto simp: rest rest')
    then show ?thesis
      using key_bytes_eq [OF assms(3-6)] that by (fastforce simp: transaction_keys_bytes keys_collide_def)
  qed simp
qed

text \<open>Kernels that answer with constants, a sink that accepts everything, and a plan of two transactional steps.\<close>

definition constant_kernel :: "(unit, nat) kernel_executor" where
  "constant_kernel k node inputs =
     (Ok \<lparr>ke_outputs = replicate (length (cn_output_bindings node)) 7, ke_gaps = []\<rparr>, k)"

definition accepting_sink :: "unit transactional_sink" where
  "accepting_sink =
     \<lparr>tx_prepare = (\<lambda>s key. (Ok (), s)), tx_commit = (\<lambda>s key. (Ok key, s)), tx_abort = (\<lambda>s key. s)\<rparr>"

definition plain_hasher :: hex_hasher where
  "plain_hasher context bytes = map (\<lambda>b. char_of (unat b)) bytes"

definition transactional_plan :: compiled_plan where
  "transactional_plan = sample_plan (map (\<lambda>i. (sample_step i [] [Terminal])\<lparr>cn_effect := Transactional\<rparr>) [0, 1]) []"

definition requested_by :: "bytes \<Rightarrow> string list" where
  "requested_by ivk = requested_keys (sink_log
     (execute plain_hasher (observed constant_kernel) (recorded accepting_sink) (AuthorizedPlan transactional_plan) ivk [] ((), []) ((), [])))"

lemma plain_hasher_inj: "inj (plain_hasher context)"
proof -
  have "inj (\<lambda>b :: u8. char_of (unat b) :: char)"
  proof (rule injI)
    fix a b :: u8
    assume "(char_of (unat a) :: char) = char_of (unat b)"
    then have "(of_char (char_of (unat a)) :: nat) = of_char (char_of (unat b))" by simp
    moreover have "unat a < 256" "unat b < 256"
      by (rule order_less_le_trans [OF unsigned_less], simp)+
    ultimately show "a = b" by (simp add: of_char_of word_unat_eq_iff)
  qed
  then show ?thesis by (simp add: plain_hasher_def [abs_def])
qed

lemma plain_keys_differ: "\<not> keys_collide plain_hasher plan ivk plan' ivk'"
  using injD [OF plain_hasher_inj] by (auto simp: keys_collide_def)

lemma requested_by_length: "length (requested_by (replicate 32 5)) = 2"
  by (simp add: requested_by_def execute_def admit_execution_def transactional_plan_def sample_plan_def sample_step_def Let_def
      guard_def stateless_def bt_keys_def new_execution_def execute_node_def run_node_def prepare_node_def push_attempt_def
      gather_inputs_def attempt_kernel.simps observed_def constant_kernel_def recorded_def accepting_sink_def update_attempt_def
      check_outputs_def store_outputs_def store_output_def commit_node_def complete_node_def release_buffers_def sink_log_def)

theorem idempotency_keys_separate_witness:
  "length (requested_by (replicate 32 5)) = 2 \<and> distinct (requested_by (replicate 32 5)) \<and>
   set (requested_by (replicate 32 5)) \<inter> set (requested_by (replicate 32 6)) = {}"
proof -
  have plan: "length (p_plan_id transactional_plan) = 32" "distinct (map cn_id (p_nodes transactional_plan))"
    by (simp_all add: transactional_plan_def sample_plan_def sample_step_def)
  have ivk: "length (replicate 32 (5 :: u8)) = 32" "length (replicate 32 (6 :: u8)) = 32" "replicate 32 (5 :: u8) \<noteq> replicate 32 6"
    by simp_all
  show ?thesis
    using idempotency_keys_separate [OF requested_by_def requested_by_def plan(1,1) ivk(1,2) plan(2)] ivk(3)
      plain_keys_differ requested_by_length by blast
qed

end
