(* ===== verification/Execute_Liveness.thy ===== *)
theory Execute_Liveness
  imports Execute
begin

text \<open>
  Buffer lifetimes during execution. A plan is \<open>executable\<close> when its steps are numbered in order and
  every buffer a step reads is produced by an earlier step and released no earlier than the reading
  step; the decoder of plans establishes this. For such plans, dropping a buffer after its last
  consumer is unobservable (the executor agrees with one that never drops any), and a run on
  well-behaved kernels and sink completes: no step finds a missing buffer or invocation input.
\<close>

section \<open>Plans whose buffers outlive their readers\<close>

definition reads_buffer :: "compiled_plan \<Rightarrow> nat \<Rightarrow> buffer_id \<Rightarrow> bool" where
  "reads_buffer plan i b = (i < length (p_nodes plan) \<and> InBuffer b \<in> set (cn_input_bindings (p_nodes plan ! i)))"

definition executable :: "compiled_plan \<Rightarrow> bool" where
  "executable plan =
     (sorted (p_invocation_ports plan) \<and>
      (\<forall>i < length (p_nodes plan). unat (cn_id (p_nodes plan ! i)) = i) \<and>
      (\<forall>i < length (p_nodes plan). \<forall>binding \<in> set (cn_input_bindings (p_nodes plan ! i)).
         case binding of
           InBuffer b \<Rightarrow> unat b < length (p_buffers plan) \<and>
             (let bp = p_buffers plan ! unat b
              in unat (bp_producer bp) < i \<and> i \<le> unat (bp_last_consumer bp) \<and>
                 OutBuffer b \<in> set (cn_output_bindings (p_nodes plan ! unat (bp_producer bp))))
         | InInvocation j \<Rightarrow> unat j < length (p_invocation_ports plan)
         | InFeedback f \<Rightarrow> unat f < length (p_feedback plan)
         | Absent \<Rightarrow> True))"

text \<open>The executor without reclamation: every buffer stays until the end of the run.\<close>

definition execute_retaining ::
    "hex_hasher \<Rightarrow> ('k, 'v) kernel_executor \<Rightarrow> 's transactional_sink \<Rightarrow> authorized_plan \<Rightarrow> bytes \<Rightarrow>
     (port_ref, 'v) btree_map \<Rightarrow> 'k \<Rightarrow> 's \<Rightarrow>
     (execution_failure \<times> 'k \<times> 's, 'v execution_result \<times> 'k \<times> 's) outcome" where
  "execute_retaining T K S authorized invocation_id invocation_inputs k s =
     (let plan = as_plan authorized; st = new_execution plan invocation_id k s
      in map_err (\<lambda>(error, st). (\<lparr>xf_error = error, xf_receipt = ex_receipt st\<rparr>, ex_kernels st, ex_sink st))
           (and_then (map_err (\<lambda>e. (e, st)) (admit_execution plan invocation_inputs)) (\<lambda>_.
            and_then (try_fold (run_node T K S plan invocation_id invocation_inputs) st (p_nodes plan)) (\<lambda>st.
              Ok (\<lparr>xr_terminal_values = ex_terminal_values st, xr_receipt = ex_receipt st\<rparr>,
                  ex_kernels st, ex_sink st)))))"

section \<open>Executions that agree on the buffers still to be read\<close>

definition alike :: "('v, 'k, 's) execution \<Rightarrow> ('v, 'k, 's) execution \<Rightarrow> bool" where
  "alike st st' = (st\<lparr>ex_buffers := []\<rparr> = st'\<lparr>ex_buffers := []\<rparr>)"

definition agree :: "(buffer_id \<Rightarrow> bool) \<Rightarrow> ('v, 'k, 's) execution \<Rightarrow> ('v, 'k, 's) execution \<Rightarrow> bool" where
  "agree V st st' =
     (alike st st' \<and> bt_wf (ex_buffers st) \<and> bt_wf (ex_buffers st') \<and>
      (\<forall>b. V b \<longrightarrow> bt_get (ex_buffers st) b = bt_get (ex_buffers st') b))"

abbreviation alike_failure ::
    "execution_error \<times> ('v, 'k, 's) execution \<Rightarrow> execution_error \<times> ('v, 'k, 's) execution \<Rightarrow> bool" where
  "alike_failure x y \<equiv> fst x = fst y \<and> alike (snd x) (snd y)"

lemma alikeD:
  "alike st st' \<Longrightarrow> ex_receipt st = ex_receipt st' \<and> ex_terminal_values st = ex_terminal_values st' \<and>
     ex_kernels st = ex_kernels st' \<and> ex_sink st = ex_sink st'"
  by (cases st; cases st') (simp add: alike_def)

lemma alike_iff:
  "alike st st' \<longleftrightarrow> ex_receipt st = ex_receipt st' \<and> ex_terminal_values st = ex_terminal_values st' \<and>
     ex_kernels st = ex_kernels st' \<and> ex_sink st = ex_sink st'"
  by (cases st; cases st') (auto simp: alike_def)

lemmas agree_iff = agree_def alike_iff

lemma push_attempt_agree: "agree V st st' \<Longrightarrow> agree V (push_attempt node st) (push_attempt node st')"
  by (simp add: agree_iff push_attempt_def)

lemma update_attempt_agree: "agree V st st' \<Longrightarrow> agree V (update_attempt i f st) (update_attempt i f st')"
  by (simp add: agree_iff update_attempt_def Let_def)

lemma abort_node_alike: "agree V st st' \<Longrightarrow> alike (abort_node S key node st) (abort_node S key node st')"
  by (simp add: agree_iff abort_node_def)

lemma prepare_node_agree:
  assumes "agree V st st'"
  shows "rel_outcome alike_failure (agree V) (prepare_node S key node st) (prepare_node S key node st')"
proof -
  obtain r s where r: "tx_prepare S (ex_sink st) key = (r, s)" by fastforce
  from assms have sink: "ex_sink st' = ex_sink st" by (simp add: agree_iff)
  have "agree V (st\<lparr>ex_sink := s\<rparr>) (st'\<lparr>ex_sink := s\<rparr>)"
    using assms by (simp add: agree_iff)
  with assms r show ?thesis
    by (cases r) (auto simp: prepare_node_def sink agree_def)
qed

lemma gather_input_cong:
  "(\<And>b. binding = InBuffer b \<Longrightarrow> bt_get buffers b = bt_get buffers' b) \<Longrightarrow>
     gather_input plan inputs buffers binding = gather_input plan inputs buffers' binding"
  by (cases binding) simp_all

lemma try_map_cong: "(\<And>x. x \<in> set xs \<Longrightarrow> f x = g x) \<Longrightarrow> try_map f xs = try_map g xs"
  by (induction xs) simp_all

lemma gather_inputs_agree:
  assumes "agree V st st'" and "\<And>b. InBuffer b \<in> set (cn_input_bindings node) \<Longrightarrow> V b"
  shows "rel_outcome alike_failure (=) (gather_inputs plan inputs S key node st) (gather_inputs plan inputs S key node st')"
proof -
  have "try_map (gather_input plan inputs (ex_buffers st)) (cn_input_bindings node) =
      try_map (gather_input plan inputs (ex_buffers st')) (cn_input_bindings node)"
    using assms by (intro try_map_cong gather_input_cong) (auto simp: agree_def)
  then show ?thesis
    using abort_node_alike [OF assms(1)]
    by (cases "try_map (gather_input plan inputs (ex_buffers st')) (cn_input_bindings node)")
      (auto simp: gather_inputs_def)
qed

lemma attempt_kernel_agree:
  assumes "agree V st st'"
  shows "rel_outcome alike_failure (\<lambda>x y. fst x = fst y \<and> agree V (snd x) (snd y))
           (attempt_kernel K S key node inputs i n st) (attempt_kernel K S key node inputs i n st')"
  using assms
proof (induction K S key node inputs i n st arbitrary: st' rule: attempt_kernel.induct)
  case (1 K S key node inputs i n st)
  show ?case
  proof (cases "n + 1 = 0")
    case True
    then show ?thesis by (simp add: attempt_kernel.simps)
  next
    case False
    obtain r k where rk: "K (ex_kernels st) node inputs = (r, k)" by fastforce
    with "1.prems" have rk': "K (ex_kernels st') node inputs = (r, k)" by (simp add: agree_iff)
    define t where "t = (update_attempt i (\<lambda>a. a\<lparr>ea_attempts := n + 1\<rparr>) st)\<lparr>ex_kernels := k\<rparr>"
    define t' where "t' = (update_attempt i (\<lambda>a. a\<lparr>ea_attempts := n + 1\<rparr>) st')\<lparr>ex_kernels := k\<rparr>"
    have t: "agree V t t'"
      using update_attempt_agree [OF "1.prems"] by (simp add: t_def t'_def agree_iff)
    note unfold = attempt_kernel_unfold [of K st node inputs, OF rk False t_def, of S key]
      attempt_kernel_unfold [of K st' node inputs, OF rk' False t'_def, of S key]
    show ?thesis
    proof (cases r)
      case (Ok outputs)
      with t show ?thesis by (simp add: unfold)
    next
      case Panic
      then show ?thesis by (simp add: unfold)
    next
      case (Err error)
      have stop: "alike (abort_node S key node t) (abort_node S key node t')" "alike t t'"
        using abort_node_alike [OF t] t by (auto simp: agree_def)
      have again: "rel_outcome alike_failure (\<lambda>x y. fst x = fst y \<and> agree V (snd x) (snd y))
           (attempt_kernel K S key node inputs i (n + 1) t) (attempt_kernel K S key node inputs i (n + 1) t')"
        if "undeclared_domain node error = None" "\<not> (ucast (cn_retry_limit node) \<le> n \<or> \<not> retryable error)"
          "\<not> cn_effect node \<notin> {Pure, Idempotent, Transactional, AtLeastOnce}"
        by (rule "1.IH" [OF False refl rk [symmetric] t_def Err that t])
      show ?thesis
        unfolding unfold Err outcome.case using stop again
        by (cases "undeclared_domain node error") auto
    qed
  qed
qed

lemma check_outputs_agree:
  assumes "agree V st st'"
  shows "rel_outcome alike_failure (=) (check_outputs S key node outputs st) (check_outputs S key node outputs st')"
  using abort_node_alike [OF assms] by (auto simp: check_outputs_def guard_def)

lemma store_output_fold:
  "foldl store_output (buffers, ts) bound =
     (foldl (\<lambda>m (binding, v). case binding of OutBuffer b \<Rightarrow> bt_insert b v m | Terminal \<Rightarrow> m) buffers bound,
      ts @ map snd (filter (\<lambda>(binding, v). binding = Terminal) bound))"
  by (induction bound arbitrary: buffers ts) (auto simp: store_output_def split: output_binding.splits)

lemma store_output_get:
  "bt_wf m \<Longrightarrow> bt_wf m' \<Longrightarrow> bt_get m b = bt_get m' b \<Longrightarrow>
     bt_get (fst (foldl store_output (m, ts) bound)) b = bt_get (fst (foldl store_output (m', ts) bound)) b"
proof (induction bound arbitrary: m m' ts)
  case (Cons x bound)
  obtain binding v where x: "x = (binding, v)" by fastforce
  show ?case
  proof (cases binding)
    case (OutBuffer c)
    show ?thesis
      using Cons.IH [of "bt_insert c v m" "bt_insert c v m'" ts] Cons.prems
      by (simp add: x OutBuffer store_output_def bt.wf_insert bt.lookup_insert)
  next
    case Terminal
    show ?thesis
      using Cons.IH [OF Cons.prems, of "ts @ [v]"] by (simp add: x Terminal store_output_def)
  qed
qed simp

lemma store_output_wf: "bt_wf m \<Longrightarrow> bt_wf (fst (foldl store_output (m, ts) bound))"
proof (induction bound arbitrary: m ts)
  case (Cons x bound)
  then show ?case
    by (cases x; cases "fst x") (auto simp: store_output_def bt.wf_insert)
qed simp

lemma ex_buffers_store_outputs:
  "ex_buffers (store_outputs i node outputs st) =
     fst (foldl store_output (ex_buffers st, []) (zip (cn_output_bindings node) (ke_outputs outputs)))"
  by (simp add: store_outputs_def Let_def update_attempt_def split_beta)

lemma ex_terminal_values_store_outputs:
  "ex_terminal_values (store_outputs i node outputs st) =
     (let terminals = map snd (filter (\<lambda>(binding, v). binding = Terminal) (zip (cn_output_bindings node) (ke_outputs outputs)))
      in case last_opt (cn_semantic_nodes node) of
           Some terminal \<Rightarrow> if terminals \<noteq> [] then bt_insert terminal terminals (ex_terminal_values st)
                           else ex_terminal_values st
         | None \<Rightarrow> ex_terminal_values st)"
  by (simp add: store_outputs_def Let_def update_attempt_def split_beta store_output_fold)

lemma store_outputs_agree: "agree V st st' \<Longrightarrow> agree V (store_outputs i node outputs st) (store_outputs i node outputs st')"
  by (auto simp: agree_iff ex_store_outputs ex_buffers_store_outputs ex_terminal_values_store_outputs
      store_output_wf Let_def intro: store_output_get split: option.splits)

lemma commit_node_agree:
  assumes "agree V st st'"
  shows "rel_outcome alike_failure (agree V) (commit_node S key node st) (commit_node S key node st')"
proof -
  obtain r s where r: "tx_commit S (ex_sink st) key = (r, s)" by fastforce
  from assms have sink: "ex_sink st' = ex_sink st" by (simp add: agree_iff)
  with assms r show ?thesis
    by (cases r) (auto simp: commit_node_def sink agree_iff Let_def)
qed

lemma complete_node_agree: "agree V st st' \<Longrightarrow> agree V (complete_node i node st) (complete_node i node st')"
  by (simp add: agree_iff complete_node_def update_attempt_def Let_def)

lemma run_node_agree:
  fixes K :: "('k, 'v) kernel_executor" and S :: "'s transactional_sink"
  assumes "agree V st st'" and "\<And>b. InBuffer b \<in> set (cn_input_bindings node) \<Longrightarrow> V b"
  shows "rel_outcome alike_failure (agree V)
           (run_node T K S plan ivk inputs st node) (run_node T K S plan ivk inputs st' node)"
proof -
  from assms(1) have i: "er_attempts (ex_receipt st') = er_attempts (ex_receipt st)" by (simp add: agree_iff)
  show ?thesis
    unfolding run_node_def Let_def i
  proof (rule rel_outcome_and_then [OF prepare_node_agree [OF push_attempt_agree [OF assms(1)]]],
      rule rel_outcome_and_then [OF gather_inputs_agree [OF _ assms(2)]], assumption)
    fix st1 st1' :: "('v, 'k, 's) execution" and vs ws
    assume st1: "agree V st1 st1'" and vs: "vs = (ws :: 'v option list)"
    show "rel_outcome alike_failure (agree V)
        (and_then (attempt_kernel K S (idempotency_key T plan ivk (cn_id node) (cn_implementation_id node)) node vs
            (length (er_attempts (ex_receipt st))) 0 st1) (\<lambda>(outputs, st2).
         and_then (check_outputs S (idempotency_key T plan ivk (cn_id node) (cn_implementation_id node)) node outputs st2) (\<lambda>_.
         and_then (commit_node S (idempotency_key T plan ivk (cn_id node) (cn_implementation_id node)) node
            (store_outputs (length (er_attempts (ex_receipt st))) node outputs st2)) (\<lambda>st3.
           Ok (complete_node (length (er_attempts (ex_receipt st))) node st3)))))
        (and_then (attempt_kernel K S (idempotency_key T plan ivk (cn_id node) (cn_implementation_id node)) node ws
            (length (er_attempts (ex_receipt st))) 0 st1') (\<lambda>(outputs, st2).
         and_then (check_outputs S (idempotency_key T plan ivk (cn_id node) (cn_implementation_id node)) node outputs st2) (\<lambda>_.
         and_then (commit_node S (idempotency_key T plan ivk (cn_id node) (cn_implementation_id node)) node
            (store_outputs (length (er_attempts (ex_receipt st))) node outputs st2)) (\<lambda>st3.
           Ok (complete_node (length (er_attempts (ex_receipt st))) node st3)))))"
      unfolding vs
      by (rule rel_outcome_and_then [OF attempt_kernel_agree [OF st1]])
        (auto intro!: rel_outcome_and_then [OF check_outputs_agree] rel_outcome_and_then [OF commit_node_agree]
          store_outputs_agree complete_node_agree)
  qed
qed

section \<open>Reclamation is unobservable\<close>

definition readable_from :: "compiled_plan \<Rightarrow> nat \<Rightarrow> buffer_id \<Rightarrow> bool" where
  "readable_from plan i b = (\<exists>j \<ge> i. reads_buffer plan j b)"

definition releases :: "compiled_plan \<Rightarrow> compiled_node \<Rightarrow> buffer_id \<Rightarrow> bool" where
  "releases plan node b =
     (InBuffer b \<in> set (cn_input_bindings node) \<and> unat b < length (p_buffers plan) \<and>
      cn_id node = bp_last_consumer (p_buffers plan ! unat b))"

lemma release_fold:
  "bt_get (foldl (release_buffer plan node) m bindings) b =
     (if InBuffer b \<in> set bindings \<and> unat b < length (p_buffers plan) \<and>
         cn_id node = bp_last_consumer (p_buffers plan ! unat b) then None else bt_get m b)"
proof (induction bindings arbitrary: m)
  case (Cons x bindings)
  then show ?case
    by (cases x) (auto simp: release_buffer_def get_def bt_get_remove)
qed simp

lemma release_fold_wf: "bt_wf m \<Longrightarrow> bt_wf (foldl (release_buffer plan node) m bindings)"
proof (induction bindings arbitrary: m)
  case (Cons x bindings)
  then show ?case
    by (cases x) (auto simp: release_buffer_def get_def)
qed simp

lemma executable_reads:
  assumes "executable plan" and "reads_buffer plan i b"
  shows "unat b < length (p_buffers plan)"
    and "unat (bp_producer (p_buffers plan ! unat b)) < i"
    and "i \<le> unat (bp_last_consumer (p_buffers plan ! unat b))"
    and "OutBuffer b \<in> set (cn_output_bindings (p_nodes plan ! unat (bp_producer (p_buffers plan ! unat b))))"
proof -
  from assms(2) have i: "i < length (p_nodes plan)" and b: "InBuffer b \<in> set (cn_input_bindings (p_nodes plan ! i))"
    by (auto simp: reads_buffer_def)
  from assms(1) i have "\<forall>binding \<in> set (cn_input_bindings (p_nodes plan ! i)).
         case binding of
           InBuffer b \<Rightarrow> unat b < length (p_buffers plan) \<and>
             (let bp = p_buffers plan ! unat b
              in unat (bp_producer bp) < i \<and> i \<le> unat (bp_last_consumer bp) \<and>
                 OutBuffer b \<in> set (cn_output_bindings (p_nodes plan ! unat (bp_producer bp))))
         | InInvocation j \<Rightarrow> unat j < length (p_invocation_ports plan)
         | InFeedback f \<Rightarrow> unat f < length (p_feedback plan)
         | Absent \<Rightarrow> True"
    unfolding executable_def by blast
  from bspec [OF this b] show "unat b < length (p_buffers plan)"
    and "unat (bp_producer (p_buffers plan ! unat b)) < i"
    and "i \<le> unat (bp_last_consumer (p_buffers plan ! unat b))"
    and "OutBuffer b \<in> set (cn_output_bindings (p_nodes plan ! unat (bp_producer (p_buffers plan ! unat b))))"
    by (simp_all add: Let_def)
qed

lemma executable_id: "executable plan \<Longrightarrow> i < length (p_nodes plan) \<Longrightarrow> unat (cn_id (p_nodes plan ! i)) = i"
  by (simp add: executable_def)

lemma released_unreadable:
  assumes "executable plan" and "i < length (p_nodes plan)" and "releases plan (p_nodes plan ! i) b"
  shows "\<not> readable_from plan (Suc i) b"
proof
  assume "readable_from plan (Suc i) b"
  then obtain j where "Suc i \<le> j" "reads_buffer plan j b" by (auto simp: readable_from_def)
  moreover have "unat (bp_last_consumer (p_buffers plan ! unat b)) = i"
    using assms executable_id [OF assms(1,2)] by (simp add: releases_def)
  ultimately show False
    using executable_reads(3) [OF assms(1)] by fastforce
qed

lemma execute_node_agree:
  fixes K :: "('k, 'v) kernel_executor" and S :: "'s transactional_sink"
  assumes "executable plan" and "i < length (p_nodes plan)" and "agree (readable_from plan i) st st'"
  shows "rel_outcome alike_failure (agree (readable_from plan (Suc i)))
           (execute_node T K S plan ivk inputs st (p_nodes plan ! i)) (run_node T K S plan ivk inputs st' (p_nodes plan ! i))"
proof -
  let ?node = "p_nodes plan ! i"
  have reads: "readable_from plan i b" if "InBuffer b \<in> set (cn_input_bindings ?node)" for b
    using that assms(2) by (auto simp: readable_from_def reads_buffer_def)
  have release: "agree (readable_from plan (Suc i)) (release_buffers plan ?node t) t'"
    if "agree (readable_from plan i) t t'" for t t' :: "('v, 'k, 's) execution"
  proof -
    have "readable_from plan i b" if "readable_from plan (Suc i) b" for b
      using that by (meson Suc_leD readable_from_def)
    with that released_unreadable [OF assms(1,2)] show ?thesis
      by (auto simp: agree_iff release_buffers_def release_fold release_fold_wf releases_def)
  qed
  have "rel_outcome alike_failure (agree (readable_from plan (Suc i)))
      (and_then (run_node T K S plan ivk inputs st ?node) (\<lambda>t. Ok (release_buffers plan ?node t)))
      (and_then (run_node T K S plan ivk inputs st' ?node) Ok)"
    by (rule rel_outcome_and_then [OF run_node_agree [OF assms(3) reads]]) (auto simp: release)
  moreover have "and_then m Ok = m" for m :: "('v, 'k, 's, ('v, 'k, 's) execution) exec"
    by (cases m) auto
  ultimately show ?thesis by (simp add: execute_node_def)
qed

lemma execute_nodes_agree:
  fixes K :: "('k, 'v) kernel_executor" and S :: "'s transactional_sink"
  assumes "executable plan"
  shows "rel_outcome alike_failure alike
           (try_fold (execute_node T K S plan ivk inputs) (new_execution plan ivk k s) (p_nodes plan))
           (try_fold (run_node T K S plan ivk inputs) (new_execution plan ivk k s) (p_nodes plan))"
proof -
  have "rel_outcome alike_failure (agree (readable_from plan (length (p_nodes plan))))
           (try_fold (execute_node T K S plan ivk inputs) (new_execution plan ivk k s) (p_nodes plan))
           (try_fold (run_node T K S plan ivk inputs) (new_execution plan ivk k s) (p_nodes plan))"
  proof (rule rel_outcome_try_fold_prefix [where R = "\<lambda>pre. agree (readable_from plan (length pre))"])
    show "agree (readable_from plan (length [])) (new_execution plan ivk k s) (new_execution plan ivk k s)"
      by (simp add: agree_iff new_execution_def bt_empty_def)
  next
    fix pre node rest and a a' :: "('v, 'k, 's) execution"
    assume split: "p_nodes plan = pre @ node # rest" and "agree (readable_from plan (length pre)) a a'"
    with execute_node_agree [OF assms, of "length pre" a a'] show "rel_outcome alike_failure
        (agree (readable_from plan (length (pre @ [node]))))
        (execute_node T K S plan ivk inputs a node) (run_node T K S plan ivk inputs a' node)"
      by simp
  qed
  then show ?thesis
    by (rule outcome.rel_mono_strong) (auto simp: agree_def)
qed

text \<open>The two-step chain of the samples.\<close>

lemma sample_chain_executable: "executable sample_chain"
  by (auto simp: executable_def sample_chain_def sample_plan_def sample_step_def sample_buffer_def
      less_Suc_eq numeral_2_eq_2 Let_def)

text \<open>
  C18. Dropping a buffer as soon as the step recorded as its last consumer has run cannot be observed:
  on an executable plan the executor returns the same result, or the same failure with the same
  receipt, and leaves the kernels and the sink in the same states, as an executor that keeps every
  buffer to the end.
\<close>

theorem execute_reclamation_unobservable:
  assumes "executable plan"
  shows "execute T K S (AuthorizedPlan plan) ivk inputs k s = execute_retaining T K S (AuthorizedPlan plan) ivk inputs k s"
proof -
  let ?run = "try_fold (execute_node T K S plan ivk inputs) (new_execution plan ivk k s) (p_nodes plan)"
  let ?ref = "try_fold (run_node T K S plan ivk inputs) (new_execution plan ivk k s) (p_nodes plan)"
  have "rel_outcome alike_failure alike ?run ?ref"
    by (rule execute_nodes_agree [OF assms])
  then show ?thesis
    by (cases ?run; cases ?ref; cases "admit_execution plan inputs")
      (auto simp: execute_def execute_retaining_def Let_def dest: alikeD)
qed

theorem execute_reclamation_unobservable_witness:
  "execute (\<lambda>_ _. ''key'') constant_kernel accepting_sink (AuthorizedPlan sample_chain) [] [] () () =
   execute_retaining (\<lambda>_ _. ''key'') constant_kernel accepting_sink (AuthorizedPlan sample_chain) [] [] () ()"
  by (rule execute_reclamation_unobservable [OF sample_chain_executable])

section \<open>Completion\<close>

text \<open>A kernel that answers every call with one value per output binding, and a sink that never fails.\<close>

definition reliable_kernel :: "('k, 'v) kernel_executor \<Rightarrow> compiled_node list \<Rightarrow> bool" where
  "reliable_kernel K nodes =
     (\<forall>k inputs. \<forall>node \<in> set nodes. \<exists>outputs k'. K k node inputs = (Ok \<lparr>ke_outputs = outputs, ke_gaps = []\<rparr>, k') \<and>
        length outputs = length (cn_output_bindings node))"

definition reliable_sink :: "'s transactional_sink \<Rightarrow> bool" where
  "reliable_sink S =
     (\<forall>s key. (\<exists>s'. tx_prepare S s key = (Ok (), s')) \<and> (\<exists>t s'. tx_commit S s key = (Ok t, s')))"

definition fully_supplied :: "compiled_plan \<Rightarrow> (port_ref, 'v) btree_map \<Rightarrow> bool" where
  "fully_supplied plan inputs = (bt_wf inputs \<and> set (bt_keys inputs) = set (p_invocation_ports plan))"

definition input_available :: "compiled_plan \<Rightarrow> (buffer_id, 'v) btree_map \<Rightarrow> input_binding \<Rightarrow> bool" where
  "input_available plan buffers binding =
     (case binding of
        InBuffer b \<Rightarrow> bt_get buffers b \<noteq> None
      | InInvocation j \<Rightarrow> unat j < length (p_invocation_ports plan)
      | InFeedback f \<Rightarrow> False
      | Absent \<Rightarrow> True)"

text \<open>The buffers and receipt after a step, as far as completion depends on them.\<close>

definition holds_outputs :: "compiled_node list \<Rightarrow> ('v, 'k, 's) execution \<Rightarrow> bool" where
  "holds_outputs pre st =
     (bt_wf (ex_buffers st) \<and> er_completed_nodes (ex_receipt st) = concat (map cn_semantic_nodes pre) \<and>
      (\<forall>node \<in> set pre. \<forall>b. OutBuffer b \<in> set (cn_output_bindings node) \<longrightarrow> bt_get (ex_buffers st) b \<noteq> None))"

lemma store_output_defined:
  assumes "bt_wf m" and "length bindings = length vs"
  shows "bt_get (fst (foldl store_output (m, ts) (zip bindings vs))) b \<noteq> None \<longleftrightarrow>
           bt_get m b \<noteq> None \<or> OutBuffer b \<in> set bindings"
  using assms(2,1)
proof (induction bindings vs arbitrary: m ts rule: list_induct2)
  case (Cons x xs y ys)
  show ?case
  proof (cases x)
    case (OutBuffer c)
    with Cons.IH [of "bt_insert c y m" ts] Cons.prems show ?thesis
      by (auto simp: store_output_def bt.wf_insert bt.lookup_insert)
  next
    case Terminal
    with Cons.IH [OF Cons.prems, of "ts @ [y]"] show ?thesis
      by (simp add: store_output_def)
  qed
qed simp

lemma gather_inputs_succeed:
  assumes "\<And>binding. binding \<in> set (cn_input_bindings node) \<Longrightarrow> input_available plan (ex_buffers st) binding"
    and "fully_supplied plan inputs"
  shows "succeeds (gather_inputs plan inputs S key node st) (\<lambda>_. True)"
proof -
  have "succeeds (try_map (gather_input plan inputs (ex_buffers st)) (cn_input_bindings node)) (\<lambda>_. True)"
  proof (rule succeeds_try_map)
    fix binding assume binding: "binding \<in> set (cn_input_bindings node)"
    show "succeeds (gather_input plan inputs (ex_buffers st) binding) (\<lambda>_. True)"
    proof (cases binding)
      case (InInvocation j)
      with assms(1) [OF binding] have "p_invocation_ports plan ! unat j \<in> set (bt_keys inputs)"
          and "unat j < length (p_invocation_ports plan)"
        using assms(2) by (auto simp: fully_supplied_def input_available_def)
      moreover from this(1) assms(2) have "bt_get inputs (p_invocation_ports plan ! unat j) \<noteq> None"
        using bt_contains_iff by (fastforce simp: fully_supplied_def bt_contains_def)
      ultimately show ?thesis
        by (auto simp: InInvocation index_def)
    qed (use assms(1) [OF binding] in \<open>auto simp: input_available_def\<close>)
  qed
  then show ?thesis by (auto simp: gather_inputs_def succeeds_iff outcome_simps)
qed

lemma attempt_kernel_reliable:
  assumes "K (ex_kernels st) node inputs = (Ok outputs, k)"
  shows "attempt_kernel K S key node inputs i 0 st =
           Ok (outputs, (update_attempt i (\<lambda>a. a\<lparr>ea_attempts := 1\<rparr>) st)\<lparr>ex_kernels := k\<rparr>)"
  using assms by (subst attempt_kernel.simps) (simp add: Let_def)

lemma commit_node_reliable:
  assumes "reliable_sink S"
  shows "succeeds (commit_node S key node st)
           (\<lambda>st'. ex_buffers st' = ex_buffers st \<and>
              er_completed_nodes (ex_receipt st') = er_completed_nodes (ex_receipt st))"
proof -
  from assms obtain t s where "tx_commit S (ex_sink st) key = (Ok t, s)"
    unfolding reliable_sink_def by blast
  then show ?thesis by (simp add: commit_node_def Let_def)
qed

lemma prepare_node_reliable:
  assumes "reliable_sink S"
  shows "succeeds (prepare_node S key node st)
           (\<lambda>st'. ex_buffers st' = ex_buffers st \<and> ex_kernels st' = ex_kernels st \<and> ex_receipt st' = ex_receipt st)"
proof -
  from assms obtain s where "tx_prepare S (ex_sink st) key = (Ok (), s)"
    unfolding reliable_sink_def by blast
  then show ?thesis by (simp add: prepare_node_def Let_def)
qed

lemma run_node_completes:
  assumes gather: "\<And>binding. binding \<in> set (cn_input_bindings node) \<Longrightarrow> input_available plan (ex_buffers st) binding"
    and "fully_supplied plan inputs" and K: "reliable_kernel K nodes" "node \<in> set nodes" and S: "reliable_sink S"
    and st: "holds_outputs pre st"
  shows "succeeds (run_node T K S plan ivk inputs st node) (holds_outputs (pre @ [node]))"
proof -
  define key where "key = idempotency_key T plan ivk (cn_id node) (cn_implementation_id node)"
  define i where "i = length (er_attempts (ex_receipt st))"
  have "succeeds (prepare_node S key node (push_attempt node st))
      (\<lambda>st'. ex_buffers st' = ex_buffers st \<and> er_completed_nodes (ex_receipt st') = er_completed_nodes (ex_receipt st))"
    by (rule succeeds_mono [OF prepare_node_reliable [OF S]]) (simp add: push_attempt_def)
  then obtain st1 where prepare: "prepare_node S key node (push_attempt node st) = Ok st1"
    and st1: "ex_buffers st1 = ex_buffers st" "er_completed_nodes (ex_receipt st1) = er_completed_nodes (ex_receipt st)"
    by (auto simp: succeeds_iff)
  have "succeeds (gather_inputs plan inputs S key node st1) (\<lambda>_. True)"
    using gather by (intro gather_inputs_succeed assms(2)) (simp add: st1(1))
  then obtain vs where gathered: "gather_inputs plan inputs S key node st1 = Ok vs"
    by (auto simp: succeeds_iff)
  from K obtain outputs k where call: "K (ex_kernels st1) node vs = (Ok \<lparr>ke_outputs = outputs, ke_gaps = []\<rparr>, k)"
    and arity: "length outputs = length (cn_output_bindings node)"
    unfolding reliable_kernel_def by blast
  define st2 where "st2 = (update_attempt i (\<lambda>a. a\<lparr>ea_attempts := 1\<rparr>) st1)\<lparr>ex_kernels := k\<rparr>"
  define st3 where "st3 = store_outputs i node \<lparr>ke_outputs = outputs, ke_gaps = []\<rparr> st2"
  have st2: "ex_buffers st2 = ex_buffers st" "er_completed_nodes (ex_receipt st2) = er_completed_nodes (ex_receipt st)"
    using st1 by (simp_all add: st2_def update_attempt_def Let_def)
  have st3: "ex_buffers st3 = fst (foldl store_output (ex_buffers st, []) (zip (cn_output_bindings node) outputs))"
    "er_completed_nodes (ex_receipt st3) = er_completed_nodes (ex_receipt st)"
    by (simp_all add: st3_def ex_buffers_store_outputs ex_store_outputs st2)
  obtain st4 where commit: "commit_node S key node st3 = Ok st4"
    and st4: "ex_buffers st4 = ex_buffers st3" "er_completed_nodes (ex_receipt st4) = er_completed_nodes (ex_receipt st3)"
    using commit_node_reliable [OF S, of key node st3] by (auto simp: succeeds_iff)
  have "check_outputs S key node \<lparr>ke_outputs = outputs, ke_gaps = []\<rparr> st2 = Ok ()"
    by (simp add: check_outputs_def guard_def arity)
  then have "run_node T K S plan ivk inputs st node = Ok (complete_node i node st4)"
    using prepare gathered commit attempt_kernel_reliable [of K st1, OF call, of S key i]
    by (simp add: run_node_def Let_def flip: key_def i_def st2_def st3_def)
  moreover have "holds_outputs (pre @ [node]) (complete_node i node st4)"
  proof -
    have complete: "ex_buffers (complete_node i node st4) = ex_buffers st4"
      "er_completed_nodes (ex_receipt (complete_node i node st4)) = er_completed_nodes (ex_receipt st4) @ cn_semantic_nodes node"
      by (simp_all add: complete_node_def update_attempt_def Let_def)
    from st have wf: "bt_wf (ex_buffers st)" by (simp add: holds_outputs_def)
    have "bt_get (ex_buffers st3) b \<noteq> None \<longleftrightarrow> bt_get (ex_buffers st) b \<noteq> None \<or> OutBuffer b \<in> set (cn_output_bindings node)" for b
      unfolding st3 by (rule store_output_defined [OF wf arity [symmetric]])
    with st show ?thesis
      unfolding holds_outputs_def complete st4 by (simp add: st3 store_output_wf wf)
  qed
  ultimately show ?thesis by simp
qed

lemma admit_execution_Ok:
  assumes "sorted (p_invocation_ports plan)" and "p_feedback plan = []"
    and "\<forall>node \<in> set (p_nodes plan). sc_scope (cn_state node) = Stateless" and "fully_supplied plan inputs"
  shows "admit_execution plan inputs = Ok ()"
proof -
  have "List.find (\<lambda>port. \<not> binary_search_ok (p_invocation_ports plan) port) (bt_keys inputs) = None"
    using assms(1,4) by (auto simp: find_None_iff binary_search_ok_iff fully_supplied_def)
  moreover have "List.find (\<lambda>port. \<not> bt_contains inputs port) (p_invocation_ports plan) = None"
    using assms(4) by (auto simp: find_None_iff fully_supplied_def bt_contains_iff)
  ultimately show ?thesis
    using assms(2,3) by (auto simp: admit_execution_def guard_def)
qed

text \<open>
  C16. An executable, stateless plan runs to completion: given exactly its invocation inputs, kernels
  that answer with one value per output binding and a sink that accepts, the executor returns a
  result, every semantic node is reported completed, in order, and no step stops on a missing buffer,
  a missing input or a panic.
\<close>

theorem execute_completes:
  fixes K :: "('k, 'v) kernel_executor" and S :: "'s transactional_sink"
  assumes "executable plan" and "p_feedback plan = []"
    and "\<forall>node \<in> set (p_nodes plan). sc_scope (cn_state node) = Stateless"
    and "fully_supplied plan inputs" and "reliable_kernel K (p_nodes plan)" and "reliable_sink S"
  shows "\<exists>result k' s'. execute T K S (AuthorizedPlan plan) ivk inputs k s = Ok (result, k', s') \<and>
           er_completed_nodes (xr_receipt result) = concat (map cn_semantic_nodes (p_nodes plan))"
proof -
  let ?nodes = "p_nodes plan"
  have "succeeds (try_fold (run_node T K S plan ivk inputs) (new_execution plan ivk k s) ?nodes) (holds_outputs ?nodes)"
  proof (rule succeeds_try_fold_prefix)
    show "holds_outputs [] (new_execution plan ivk k s)"
      by (simp add: holds_outputs_def new_execution_def bt_empty_def)
  next
    fix pre node rest and st :: "('v, 'k, 's) execution"
    assume split: "?nodes = pre @ node # rest" and st: "holds_outputs pre st"
    have node: "?nodes ! length pre = node" "length pre < length ?nodes" using split by simp_all
    show "succeeds (run_node T K S plan ivk inputs st node) (holds_outputs (pre @ [node]))"
    proof (rule run_node_completes [OF _ assms(4,5) _ assms(6) st])
      show "node \<in> set ?nodes" using split by simp
      fix binding assume binding: "binding \<in> set (cn_input_bindings node)"
      show "input_available plan (ex_buffers st) binding"
      proof (cases binding)
        case (InBuffer b)
        with binding node have "reads_buffer plan (length pre) b" by (simp add: reads_buffer_def)
        note reads = executable_reads [OF assms(1) this]
        from reads(2) split have "?nodes ! unat (bp_producer (p_buffers plan ! unat b)) \<in> set pre"
          by (metis nth_append nth_mem)
        with reads(4) st InBuffer show ?thesis by (auto simp: holds_outputs_def input_available_def)
      next
        case (InInvocation j)
        with assms(1) node binding show ?thesis by (force simp: executable_def input_available_def)
      next
        case (InFeedback f)
        with assms(1,2) node binding show ?thesis by (force simp: executable_def input_available_def)
      qed (simp add: input_available_def)
    qed
  qed
  then obtain st where run: "try_fold (run_node T K S plan ivk inputs) (new_execution plan ivk k s) ?nodes = Ok st"
    and st: "holds_outputs ?nodes st"
    by (auto simp: succeeds_iff)
  have "admit_execution plan inputs = Ok ()"
    using assms(1-4) by (intro admit_execution_Ok) (auto simp: executable_def)
  moreover have "rel_outcome alike_failure alike
      (try_fold (execute_node T K S plan ivk inputs) (new_execution plan ivk k s) ?nodes) (Ok st)"
    using execute_nodes_agree [OF assms(1), of T K S ivk inputs k s] run by simp
  then obtain st' where "try_fold (execute_node T K S plan ivk inputs) (new_execution plan ivk k s) ?nodes = Ok st'"
    and "alike st' st"
    by (cases "try_fold (execute_node T K S plan ivk inputs) (new_execution plan ivk k s) ?nodes") auto
  ultimately show ?thesis
    using st by (simp add: execute_def Let_def holds_outputs_def alike_iff)
qed

theorem execute_completes_witness:
  "\<exists>result k' s'. execute (\<lambda>_ _. ''key'') constant_kernel accepting_sink (AuthorizedPlan sample_chain) [] [] () () =
       Ok (result, k', s') \<and>
     er_completed_nodes (xr_receipt result) = concat (map cn_semantic_nodes (p_nodes sample_chain))"
  by (rule execute_completes [OF sample_chain_executable])
    (simp_all add: sample_chain_def sample_plan_def sample_step_def stateless_def fully_supplied_def bt_keys_def
      reliable_kernel_def reliable_sink_def constant_kernel_def accepting_sink_def)

end
