(* ===== verification/Mcu.thy ===== *)
theory Mcu
  imports Execute_Liveness
begin

text \<open>
  The allocation-free firmware executor, \<open>crates/blut-graph-core/src/mcu.rs\<close>: the arena sizes a plan
  needs and the executor that runs a plan over caller-owned arenas. The arenas are lists whose
  lengths never change. The kernel is a trait of the firmware and a parameter here; it is given the
  slice of the output workspace and returns the slice it leaves behind.

  The lemmas show that the arena requirements are exact, and that the firmware executor and the
  reference executor compute the same values and fail at the same step, so that on arenas of the
  required size the only error left is a fault reported by a kernel.
\<close>

section \<open>Arena requirements\<close>

definition MAX_STATIC_STEP_INPUTS :: usize where
  "MAX_STATIC_STEP_INPUTS = 32"

record arena_requirements =
  ar_byte_arena :: u64
  ar_value_slots :: usize
  ar_invocation_slots :: usize
  ar_max_step_inputs :: usize
  ar_max_step_outputs :: usize
  ar_attempt_slots :: usize
  ar_terminal_slots :: usize

datatype mcu_plan_error =
    McuWrongRealm realm
  | UnsupportedEffect step_id effect
  | UnboundedPartialOutput step_id
  | HostResource step_id
  | StatefulPlan
  | HierarchicalPlan step_id
  | SizeOverflow

definition step_terminals :: "compiled_node \<Rightarrow> usize" where
  "step_terminals step = length (filter (\<lambda>binding. binding = Terminal) (cn_output_bindings step))"

definition mcu_step ::
    "usize \<times> usize \<times> usize \<Rightarrow> compiled_node \<Rightarrow> (mcu_plan_error, usize \<times> usize \<times> usize) outcome" where
  "mcu_step sizes step =
     (let (max_step_inputs, max_step_outputs, terminal_slots) = sizes in
      and_then (guard (cn_effect step \<notin> {Pure, Idempotent}) (UnsupportedEffect (cn_id step) (cn_effect step))) (\<lambda>_.
      and_then (guard (cn_partiality step \<noteq> Atomic) (UnboundedPartialOutput (cn_id step))) (\<lambda>_.
      and_then (guard (re_threads (cn_resources step) \<noteq> 1 \<or> re_device (cn_resources step) \<noteq> None)
        (HostResource (cn_id step))) (\<lambda>_.
      and_then (guard (sc_scope (cn_state step) \<noteq> Stateless) StatefulPlan) (\<lambda>_.
      and_then (guard (cn_subgraph_path step \<noteq> []) (HierarchicalPlan (cn_id step))) (\<lambda>_.
      and_then (ok_or (usize_checked_add terminal_slots (step_terminals step)) SizeOverflow) (\<lambda>terminal_slots.
        Ok (max max_step_inputs (length (cn_input_bindings step)),
            max max_step_outputs (length (cn_output_bindings step)), terminal_slots))))))))"

definition mcu_arena_requirements :: "compiled_plan \<Rightarrow> (mcu_plan_error, arena_requirements) outcome" where
  "mcu_arena_requirements plan =
     and_then (guard (p_realm plan \<noteq> Realm_McuAot) (McuWrongRealm (p_realm plan))) (\<lambda>_.
     and_then (guard (p_persistent_state_bytes plan \<noteq> 0 \<or> p_feedback plan \<noteq> [] \<or> p_session plan \<noteq> None) StatefulPlan) (\<lambda>_.
     and_then (try_fold mcu_step (0, 0, 0) (p_nodes plan)) (\<lambda>(max_step_inputs, max_step_outputs, terminal_slots).
       Ok \<lparr>ar_byte_arena = p_peak_bytes plan, ar_value_slots = length (p_buffers plan),
           ar_invocation_slots = length (p_invocation_ports plan), ar_max_step_inputs = max_step_inputs,
           ar_max_step_outputs = max_step_outputs, ar_attempt_slots = length (p_nodes plan),
           ar_terminal_slots = terminal_slots\<rparr>)))"

section \<open>The firmware executor\<close>

datatype static_execution_error =
    StaticWrongRealm realm
  | NotFirmwareSubset mcu_plan_error
  | ArenaTooSmall
  | FanInTooWide step_id
  | NonDenseBuffers
  | StaticMissingBuffer step_id
  | StaticMissingInvocation step_id
  | StaticOutputArity step_id
  | KernelFault step_id

record static_receipt =
  sr_invocation_id :: bytes
  sr_graph_id :: graph_id
  sr_plan_id :: plan_id
  sr_realm :: realm
  sr_completed_steps :: u32
  sr_terminal_values :: usize
  sr_last_step :: "node_id option"

record 'v static_arenas =
  sa_values :: "'v option list"
  sa_terminals :: "'v option list"
  sa_output_scratch :: "'v list"
  sa_invocation :: "'v option list"

type_synonym ('k, 'v) static_kernel =
  "'k \<Rightarrow> compiled_node \<Rightarrow> 'v option list \<Rightarrow> 'v list \<Rightarrow> (static_execution_error, unit) outcome \<times> 'v list \<times> 'k"

text \<open>The arenas, the kernel state and the local variables of the loop.\<close>

record ('v, 'k) static_run =
  st_arenas :: "'v static_arenas"
  st_kernel :: 'k
  st_terminal_cursor :: usize
  st_completed_steps :: u32
  st_last_step :: "node_id option"

fun static_gather ::
    "'v static_arenas \<Rightarrow> compiled_node \<Rightarrow> input_binding \<Rightarrow> (static_execution_error, 'v option) outcome" where
  "static_gather arenas step Absent = Ok None"
| "static_gather arenas step (InBuffer b) =
     and_then (ok_or (Option.bind (get (sa_values arenas) (unat b)) id) (StaticMissingBuffer (cn_id step)))
       (\<lambda>v. Ok (Some v))"
| "static_gather arenas step (InInvocation port) =
     and_then (ok_or (Option.bind (get (sa_invocation arenas) (unat port)) id) (StaticMissingInvocation (cn_id step)))
       (\<lambda>v. Ok (Some v))"
| "static_gather arenas step (InFeedback _) = Err (NotFirmwareSubset StatefulPlan)"

definition static_write ::
    "compiled_node \<Rightarrow> 'v static_arenas \<times> usize \<Rightarrow> nat \<times> output_binding \<Rightarrow>
     (static_execution_error, 'v static_arenas \<times> usize) outcome" where
  "static_write step state entry =
     (let (arenas, terminal_cursor) = state; (i, binding) = entry in
      and_then (ok_or (get (sa_output_scratch arenas) i) (StaticOutputArity (cn_id step))) (\<lambda>produced.
        case binding of
          OutBuffer b \<Rightarrow>
            if unat b < length (sa_values arenas)
            then Ok (arenas\<lparr>sa_values := (sa_values arenas)[unat b := Some produced]\<rparr>, terminal_cursor)
            else Err (StaticMissingBuffer (cn_id step))
        | Terminal \<Rightarrow>
            if terminal_cursor < length (sa_terminals arenas)
            then Ok (arenas\<lparr>sa_terminals := (sa_terminals arenas)[terminal_cursor := Some produced]\<rparr>,
                     terminal_cursor + 1)
            else Err ArenaTooSmall))"

definition static_release ::
    "compiled_plan \<Rightarrow> compiled_node \<Rightarrow> 'v option list \<Rightarrow> input_binding \<Rightarrow> 'v option list" where
  "static_release plan step vals binding =
     (case binding of
        InBuffer b \<Rightarrow>
          (case get (p_buffers plan) (unat b) of
             Some plan_buffer \<Rightarrow>
               if bp_last_consumer plan_buffer = cn_id step \<and> unat b < length vals
               then vals[unat b := None] else vals
           | None \<Rightarrow> vals)
      | _ \<Rightarrow> vals)"

definition static_step ::
    "('k, 'v) static_kernel \<Rightarrow> compiled_plan \<Rightarrow> ('v, 'k) static_run \<Rightarrow> compiled_node \<Rightarrow>
     (static_execution_error \<times> 'k, ('v, 'k) static_run) outcome" where
  "static_step K plan st step =
     (let arenas = st_arenas st; input_count = length (cn_input_bindings step);
          output_count = length (cn_output_bindings step) in
      and_then (map_err (\<lambda>e. (e, st_kernel st))
        (try_map (static_gather arenas step) (take MAX_STATIC_STEP_INPUTS (cn_input_bindings step)))) (\<lambda>gathered.
      if input_count > MAX_STATIC_STEP_INPUTS \<or> output_count > length (sa_output_scratch arenas) then Panic
      else let (r, outputs, k) = K (st_kernel st) step gathered (take output_count (sa_output_scratch arenas));
               arenas = arenas\<lparr>sa_output_scratch := outputs @ drop output_count (sa_output_scratch arenas)\<rparr>
           in and_then (map_err (\<lambda>_. (KernelFault (cn_id step), k)) r) (\<lambda>_.
              and_then (map_err (\<lambda>e. (e, k))
                (try_fold (static_write step) (arenas, st_terminal_cursor st)
                   (zip [0..<output_count] (cn_output_bindings step)))) (\<lambda>(arenas, terminal_cursor).
              if st_completed_steps st + 1 = 0 then Panic
              else Ok \<lparr>st_arenas = arenas\<lparr>sa_values :=
                          foldl (static_release plan step) (sa_values arenas) (cn_input_bindings step)\<rparr>,
                       st_kernel = k, st_terminal_cursor = terminal_cursor,
                       st_completed_steps = st_completed_steps st + 1,
                       st_last_step = option_or (last_opt (cn_semantic_nodes step)) (st_last_step st)\<rparr>))))"

definition static_admit ::
    "compiled_plan \<Rightarrow> arena_requirements \<Rightarrow> 'v static_arenas \<Rightarrow> (static_execution_error, unit) outcome" where
  "static_admit plan requirements arenas =
     and_then (guard (p_realm plan \<noteq> Realm_McuAot) (StaticWrongRealm (p_realm plan))) (\<lambda>_.
     and_then (map_err NotFirmwareSubset (mcu_arena_requirements plan)) (\<lambda>checked.
     and_then (guard (checked \<noteq> requirements) (NotFirmwareSubset SizeOverflow)) (\<lambda>_.
     and_then (guard (length (sa_values arenas) < ar_value_slots requirements \<or>
                      length (sa_terminals arenas) < ar_terminal_slots requirements \<or>
                      length (sa_output_scratch arenas) < ar_max_step_outputs requirements \<or>
                      length (sa_invocation arenas) < ar_invocation_slots requirements) ArenaTooSmall) (\<lambda>_.
     and_then (guard (ar_max_step_inputs requirements > MAX_STATIC_STEP_INPUTS)
       (FanInTooWide (case List.find (\<lambda>step. length (cn_input_bindings step) > MAX_STATIC_STEP_INPUTS) (p_nodes plan) of
                        Some step \<Rightarrow> cn_id step | None \<Rightarrow> 0))) (\<lambda>_.
     guard (\<exists>(i, buffer) \<in> set (zip [0..<length (p_buffers plan)] (p_buffers plan)). unat (bp_id buffer) \<noteq> i)
       NonDenseBuffers)))))"

text \<open>
  \<open>StaticExecutor::execute\<close>; the arenas and the kernel are mutated in place, so their final states are
  returned with the receipt, and the kernel's also with an error.
\<close>

definition static_execute ::
    "('k, 'v) static_kernel \<Rightarrow> authorized_plan \<Rightarrow> arena_requirements \<Rightarrow> bytes \<Rightarrow> 'v static_arenas \<Rightarrow> 'k \<Rightarrow>
     (static_execution_error \<times> 'k, static_receipt \<times> 'v static_arenas \<times> 'k) outcome" where
  "static_execute K authorized requirements invocation_id arenas k =
     (let plan = as_plan authorized in
      and_then (map_err (\<lambda>e. (e, k)) (static_admit plan requirements arenas)) (\<lambda>_.
      let vals = map (\<lambda>_. None) (take (ar_value_slots requirements) (sa_values arenas)) @
                 drop (ar_value_slots requirements) (sa_values arenas);
          st = \<lparr>st_arenas = arenas\<lparr>sa_values := vals\<rparr>, st_kernel = k, st_terminal_cursor = 0,
                st_completed_steps = 0, st_last_step = None\<rparr>
      in and_then (try_fold (static_step K plan) st (p_nodes plan)) (\<lambda>st.
           Ok (\<lparr>sr_invocation_id = invocation_id, sr_graph_id = p_graph_id plan, sr_plan_id = p_plan_id plan,
                sr_realm = p_realm plan, sr_completed_steps = st_completed_steps st,
                sr_terminal_values = st_terminal_cursor st, sr_last_step = st_last_step st\<rparr>,
               st_arenas st, st_kernel st))))"

section \<open>The requirements are exact\<close>

definition firmware_step :: "compiled_node \<Rightarrow> bool" where
  "firmware_step step =
     (cn_effect step \<in> {Pure, Idempotent} \<and> cn_partiality step = Atomic \<and> re_threads (cn_resources step) = 1 \<and>
      re_device (cn_resources step) = None \<and> sc_scope (cn_state step) = Stateless \<and> cn_subgraph_path step = [])"

lemma mcu_step_Ok_iff:
  "mcu_step (mi, mo, ts) step = Ok sizes \<longleftrightarrow>
     firmware_step step \<and> ts + step_terminals step < 2 ^ 64 \<and>
     sizes = (max mi (length (cn_input_bindings step)), max mo (length (cn_output_bindings step)), ts + step_terminals step)"
  by (auto simp: mcu_step_def Let_def outcome_simps firmware_step_def usize_checked_add_def split: if_splits)

lemma mcu_steps_Ok:
  "try_fold mcu_step (mi, mo, ts) nodes = Ok (mi', mo', ts') \<Longrightarrow>
     (\<forall>step \<in> set nodes. firmware_step step) \<and>
     mi' = Max (insert mi (length ` cn_input_bindings ` set nodes)) \<and>
     mo' = Max (insert mo (length ` cn_output_bindings ` set nodes)) \<and>
     ts' = ts + sum_list (map step_terminals nodes)"
proof (induction nodes arbitrary: mi mo ts)
  case (Cons step nodes)
  then obtain sizes where "mcu_step (mi, mo, ts) step = Ok sizes"
    and rest: "try_fold mcu_step sizes nodes = Ok (mi', mo', ts')"
    by (auto simp: outcome_simps)
  then have "firmware_step step" and sizes: "sizes = (max mi (length (cn_input_bindings step)),
      max mo (length (cn_output_bindings step)), ts + step_terminals step)"
    by (auto simp: mcu_step_Ok_iff)
  moreover have "Max (insert (max m l) (f ` set nodes)) = max m (Max (insert l (f ` set nodes)))"
    for m l and f :: "compiled_node \<Rightarrow> nat"
    by (cases "set nodes = {}") (simp_all add: max.assoc)
  ultimately show ?case
    using Cons.IH [OF rest [unfolded sizes]] by (auto simp: image_image)
qed simp

lemma mcu_steps_defined:
  "(\<forall>step \<in> set nodes. firmware_step step) \<Longrightarrow> ts + sum_list (map step_terminals nodes) < 2 ^ 64 \<Longrightarrow>
     \<exists>sizes. try_fold mcu_step (mi, mo, ts) nodes = Ok sizes"
proof (induction nodes arbitrary: mi mo ts)
  case (Cons step nodes)
  then have "mcu_step (mi, mo, ts) step = Ok (max mi (length (cn_input_bindings step)),
      max mo (length (cn_output_bindings step)), ts + step_terminals step)"
    by (simp add: mcu_step_Ok_iff)
  with Cons.IH [of "ts + step_terminals step"] Cons.prems show ?case by (simp add: add.assoc)
qed simp

lemma mcu_steps_bounded:
  "try_fold mcu_step (mi, mo, ts) nodes = Ok (mi', mo', ts') \<Longrightarrow> ts < 2 ^ 64 \<Longrightarrow> ts' < 2 ^ 64"
proof (induction nodes arbitrary: mi mo ts)
  case (Cons step nodes)
  then show ?case by (fastforce simp: outcome_simps mcu_step_Ok_iff)
qed simp

text \<open>
  C27. The arena requirements of a plan are exact. They are returned for precisely the plans in the
  firmware subset (the microcontroller realm, no feedback, session or persistent state, and only
  pure or idempotent, atomic, single-threaded, stateless, flat steps whose terminal outputs can be
  counted), and then name one slot per buffer, invocation port and step, the widest input and output
  arity of any step, and the total number of terminal outputs.
\<close>

theorem mcu_arena_requirements_exact:
  "mcu_arena_requirements plan = Ok req \<longleftrightarrow>
     p_realm plan = Realm_McuAot \<and> p_persistent_state_bytes plan = 0 \<and> p_feedback plan = [] \<and> p_session plan = None \<and>
     (\<forall>step \<in> set (p_nodes plan). firmware_step step) \<and> sum_list (map step_terminals (p_nodes plan)) < 2 ^ 64 \<and>
     req = \<lparr>ar_byte_arena = p_peak_bytes plan, ar_value_slots = length (p_buffers plan),
            ar_invocation_slots = length (p_invocation_ports plan),
            ar_max_step_inputs = Max (insert 0 (length ` cn_input_bindings ` set (p_nodes plan))),
            ar_max_step_outputs = Max (insert 0 (length ` cn_output_bindings ` set (p_nodes plan))),
            ar_attempt_slots = length (p_nodes plan),
            ar_terminal_slots = sum_list (map step_terminals (p_nodes plan))\<rparr>" (is "?lhs \<longleftrightarrow> ?rhs")
proof
  assume ?lhs
  then obtain mi mo ts where fold: "try_fold mcu_step (0, 0, 0) (p_nodes plan) = Ok (mi, mo, ts)"
    and "p_realm plan = Realm_McuAot" "p_persistent_state_bytes plan = 0" "p_feedback plan = []" "p_session plan = None"
    and "req = \<lparr>ar_byte_arena = p_peak_bytes plan, ar_value_slots = length (p_buffers plan),
           ar_invocation_slots = length (p_invocation_ports plan), ar_max_step_inputs = mi,
           ar_max_step_outputs = mo, ar_attempt_slots = length (p_nodes plan), ar_terminal_slots = ts\<rparr>"
    by (auto simp: mcu_arena_requirements_def outcome_simps)
  with mcu_steps_Ok [OF fold] mcu_steps_bounded [OF fold] show ?rhs by simp
next
  assume rhs: ?rhs
  then obtain mi mo ts where fold: "try_fold mcu_step (0, 0, 0) (p_nodes plan) = Ok (mi, mo, ts)"
    using mcu_steps_defined [of "p_nodes plan" 0 0 0] by auto
  with rhs mcu_steps_Ok [OF fold] show ?lhs
    by (simp add: mcu_arena_requirements_def guard_def)
qed

lemma mcu_arena_requirements_Ok:
  assumes "mcu_arena_requirements plan = Ok req"
  shows "p_realm plan = Realm_McuAot" and "p_feedback plan = []"
    and "\<forall>step \<in> set (p_nodes plan). firmware_step step"
    and "ar_value_slots req = length (p_buffers plan)" and "ar_invocation_slots req = length (p_invocation_ports plan)"
    and "ar_max_step_inputs req = Max (insert 0 (length ` cn_input_bindings ` set (p_nodes plan)))"
    and "ar_max_step_outputs req = Max (insert 0 (length ` cn_output_bindings ` set (p_nodes plan)))"
    and "ar_terminal_slots req = sum_list (map step_terminals (p_nodes plan))"
proof -
  from assms obtain mi mo ts where fold: "try_fold mcu_step (0, 0, 0) (p_nodes plan) = Ok (mi, mo, ts)"
    and "p_realm plan = Realm_McuAot" "p_feedback plan = []"
    and req: "req = \<lparr>ar_byte_arena = p_peak_bytes plan, ar_value_slots = length (p_buffers plan),
           ar_invocation_slots = length (p_invocation_ports plan), ar_max_step_inputs = mi,
           ar_max_step_outputs = mo, ar_attempt_slots = length (p_nodes plan), ar_terminal_slots = ts\<rparr>"
    by (auto simp: mcu_arena_requirements_def outcome_simps)
  with mcu_steps_Ok [OF fold]
  show "p_realm plan = Realm_McuAot" and "p_feedback plan = []"
    and "\<forall>step \<in> set (p_nodes plan). firmware_step step"
    and "ar_value_slots req = length (p_buffers plan)" and "ar_invocation_slots req = length (p_invocation_ports plan)"
    and "ar_max_step_inputs req = Max (insert 0 (length ` cn_input_bindings ` set (p_nodes plan)))"
    and "ar_max_step_outputs req = Max (insert 0 (length ` cn_output_bindings ` set (p_nodes plan)))"
    and "ar_terminal_slots req = sum_list (map step_terminals (p_nodes plan))"
    by simp_all
qed

lemma step_fits:
  assumes "mcu_arena_requirements plan = Ok req" and "step \<in> set (p_nodes plan)"
  shows "length (cn_input_bindings step) \<le> ar_max_step_inputs req"
    and "length (cn_output_bindings step) \<le> ar_max_step_outputs req"
  using assms(2) unfolding mcu_arena_requirements_Ok [OF assms(1)] by (auto intro!: Max_ge)

section \<open>The firmware executor against the reference executor\<close>

text \<open>
  What a static kernel promises: it writes every output value, so that neither its answer nor what it
  leaves in the slice depends on what was there before, and the slice keeps its length.
\<close>

definition overwrites :: "('k, 'v) static_kernel \<Rightarrow> bool" where
  "overwrites K =
     (\<forall>k step inputs slots slots'. length slots = length slots' \<longrightarrow>
        (case (K k step inputs slots, K k step inputs slots') of
           ((r, outputs, k1), (r', outputs', k2)) \<Rightarrow>
             r = r' \<and> k1 = k2 \<and> length outputs = length slots \<and> (r = Ok () \<longrightarrow> outputs = outputs')))"

text \<open>The same kernel presented to the reference executor; a fault is a failure that is not retryable.\<close>

definition hosted :: "('k, 'v) static_kernel \<Rightarrow> 'v \<Rightarrow> ('k, 'v) kernel_executor" where
  "hosted K fill k step inputs =
     (let (r, outputs, k') = K k step inputs (replicate (length (cn_output_bindings step)) fill)
      in (case r of
            Ok _ \<Rightarrow> Ok \<lparr>ke_outputs = outputs, ke_gaps = []\<rparr>
          | Err _ \<Rightarrow> Err (ExKernelFailed (cn_kernel step)
              \<lparr>sf_domain = ''firmware'', sf_code = ''fault'', sf_message = [], sf_retryable = False, sf_evidence = []\<rparr>)
          | Panic \<Rightarrow> Panic, k'))"

definition step_terminal_values :: "compiled_node \<Rightarrow> 'v list \<Rightarrow> 'v list" where
  "step_terminal_values step outputs =
     map snd (filter (\<lambda>(binding, v). binding = Terminal) (zip (cn_output_bindings step) outputs))"

lemma length_step_terminal_values:
  "length outputs = length (cn_output_bindings step) \<Longrightarrow> length (step_terminal_values step outputs) = step_terminals step"
proof -
  have "length (filter (\<lambda>(binding, v). binding = Terminal) (zip bs vs)) = length (filter (\<lambda>b. b = Terminal) bs)"
    if "length bs = length vs" for bs and vs :: "'a list"
    using that by (induction bs vs rule: list_induct2) auto
  then show "length outputs = length (cn_output_bindings step) \<Longrightarrow> length (step_terminal_values step outputs) = step_terminals step"
    by (simp add: step_terminal_values_def step_terminals_def)
qed

text \<open>One step of the reference executor on a firmware step whose inputs are available.\<close>

lemma hosted_step:
  fixes K :: "('k, 'v) static_kernel" and S :: "'s transactional_sink"
  assumes "firmware_step step" and len: "length outputs = length (cn_output_bindings step)"
    and gather: "try_map (gather_input plan inputs (ex_buffers st)) (cn_input_bindings step) = Ok vs"
    and call: "K (ex_kernels st) step vs (replicate (length (cn_output_bindings step)) fill) = (r, outputs, k)"
  shows "r = Ok () \<Longrightarrow> \<exists>st'. execute_node T (hosted K fill) S plan ivk inputs st step = Ok st' \<and>
      ex_kernels st' = k \<and> ex_sink st' = ex_sink st \<and>
      ex_buffers st' = foldl (release_buffer plan step)
        (fst (foldl store_output (ex_buffers st, []) (zip (cn_output_bindings step) outputs))) (cn_input_bindings step) \<and>
      ex_terminal_values st' =
        (case last_opt (cn_semantic_nodes step) of
           Some terminal \<Rightarrow> if step_terminal_values step outputs \<noteq> []
                           then bt_insert terminal (step_terminal_values step outputs) (ex_terminal_values st)
                           else ex_terminal_values st
         | None \<Rightarrow> ex_terminal_values st)"
    and "r = Err e \<Longrightarrow> \<exists>error st'. execute_node T (hosted K fill) S plan ivk inputs st step = Err (error, st') \<and>
      ex_kernels st' = k \<and> ex_sink st' = ex_sink st \<and> ea_step (last (er_attempts (ex_receipt st'))) = cn_id step"
    and "r = Panic \<Longrightarrow> execute_node T (hosted K fill) S plan ivk inputs st step = Panic"
proof -
  define key where "key = idempotency_key T plan ivk (cn_id step) (cn_implementation_id step)"
  define i where "i = length (er_attempts (ex_receipt st))"
  define st1 where "st1 = push_attempt step st"
  define st2 where "st2 = (update_attempt i (\<lambda>a. a\<lparr>ea_attempts := 1\<rparr>) st1)\<lparr>ex_kernels := k\<rparr>"
  have effect: "cn_effect step \<noteq> Transactional" using assms(1) by (auto simp: firmware_step_def)
  have st1: "ex_kernels st1 = ex_kernels st" "ex_buffers st1 = ex_buffers st" "ex_sink st1 = ex_sink st"
    "ex_terminal_values st1 = ex_terminal_values st"
    by (simp_all add: st1_def push_attempt_def)
  have st2: "ex_kernels st2 = k" "ex_buffers st2 = ex_buffers st" "ex_sink st2 = ex_sink st"
    "ex_terminal_values st2 = ex_terminal_values st"
    by (simp_all add: st2_def update_attempt_def Let_def st1)
  have prepared: "prepare_node S key step st1 = Ok st1" and aborted: "abort_node S key step t = t"
    and committed: "commit_node S key step t = Ok t" for t :: "('v, 'k, 's) execution"
    using effect by (simp_all add: prepare_node_def abort_node_def commit_node_def)
  have gathered: "gather_inputs plan inputs S key step st1 = Ok vs"
    by (simp add: gather_inputs_def st1 gather)
  have host: "execute_node T (hosted K fill) S plan ivk inputs st step =
      and_then (attempt_kernel (hosted K fill) S key step vs i 0 st1) (\<lambda>(outputs, st2).
        and_then (check_outputs S key step outputs st2) (\<lambda>_.
          Ok (release_buffers plan step (complete_node i step (store_outputs i step outputs st2)))))"
    by (cases "attempt_kernel (hosted K fill) S key step vs i 0 st1")
      (auto simp: execute_node_def run_node_def Let_def prepared gathered committed and_then_assoc
        simp flip: key_def i_def st1_def intro!: and_then_cong split: prod.splits)
  show "\<exists>st'. execute_node T (hosted K fill) S plan ivk inputs st step = Ok st' \<and>
      ex_kernels st' = k \<and> ex_sink st' = ex_sink st \<and>
      ex_buffers st' = foldl (release_buffer plan step)
        (fst (foldl store_output (ex_buffers st, []) (zip (cn_output_bindings step) outputs))) (cn_input_bindings step) \<and>
      ex_terminal_values st' =
        (case last_opt (cn_semantic_nodes step) of
           Some terminal \<Rightarrow> if step_terminal_values step outputs \<noteq> []
                           then bt_insert terminal (step_terminal_values step outputs) (ex_terminal_values st)
                           else ex_terminal_values st
         | None \<Rightarrow> ex_terminal_values st)" if "r = Ok ()"
  proof -
    let ?out = "\<lparr>ke_outputs = outputs, ke_gaps = []\<rparr>"
    have "hosted K fill (ex_kernels st1) step vs = (Ok ?out, k)"
      using call that by (simp add: hosted_def st1)
    from attempt_kernel_reliable [of "hosted K fill" st1, OF this, of S key i]
    have "attempt_kernel (hosted K fill) S key step vs i 0 st1 = Ok (?out, st2)"
      by (simp add: st2_def)
    moreover have "check_outputs S key step ?out st2 = Ok ()"
      using len by (simp add: check_outputs_def guard_def)
    ultimately have "execute_node T (hosted K fill) S plan ivk inputs st step =
        Ok (release_buffers plan step (complete_node i step (store_outputs i step ?out st2)))"
      by (simp add: host)
    then show ?thesis
      by (simp add: release_buffers_def complete_node_def update_attempt_def Let_def ex_store_outputs
          ex_buffers_store_outputs ex_terminal_values_store_outputs st2 step_terminal_values_def split: option.splits)
  qed
  show "\<exists>error st'. execute_node T (hosted K fill) S plan ivk inputs st step = Err (error, st') \<and>
      ex_kernels st' = k \<and> ex_sink st' = ex_sink st \<and> ea_step (last (er_attempts (ex_receipt st'))) = cn_id step"
    if "r = Err e"
  proof -
    have "\<exists>error. attempt_kernel (hosted K fill) S key step vs i 0 st1 = Err (error, st2)"
      using call that
      by (subst attempt_kernel.simps) (simp add: hosted_def st1 aborted Let_def st2_def split: option.splits)
    moreover have "ea_step (last (er_attempts (ex_receipt st2))) = cn_id step"
      by (simp add: st2_def st1_def push_attempt_def update_attempt_def Let_def i_def)
    ultimately show ?thesis by (auto simp: host st2)
  qed
  show "execute_node T (hosted K fill) S plan ivk inputs st step = Panic" if "r = Panic"
    using call that
    by (simp add: host, subst attempt_kernel.simps) (simp add: hosted_def st1 Let_def)
qed

text \<open>The write-back loop in closed form.\<close>

definition write_value :: "'v option list \<Rightarrow> output_binding \<times> 'v \<Rightarrow> 'v option list" where
  "write_value vals bound =
     (case bound of (OutBuffer b, v) \<Rightarrow> vals[unat b := Some v] | (Terminal, v) \<Rightarrow> vals)"

definition terminal_outputs :: "(output_binding \<times> 'v) list \<Rightarrow> 'v list" where
  "terminal_outputs bound = map snd (filter (\<lambda>(binding, v). binding = Terminal) bound)"

lemma terminal_outputs_simps [simp]:
  "terminal_outputs [] = []"
  "terminal_outputs ((Terminal, v) # bound) = v # terminal_outputs bound"
  "terminal_outputs ((OutBuffer b, v) # bound) = terminal_outputs bound"
  by (simp_all add: terminal_outputs_def)

lemma write_value_simps [simp]:
  "write_value vals (OutBuffer b, v) = vals[unat b := Some v]"
  "write_value vals (Terminal, v) = vals"
  by (simp_all add: write_value_def)

lemma length_write_values [simp]: "length (foldl write_value vals bound) = length vals"
  by (induction bound arbitrary: vals) (auto simp: write_value_def split: output_binding.splits)

lemma static_write_fold:
  assumes "length vs = length bindings" and "sa_output_scratch arenas = pre @ vs @ post" and "i = length pre"
    and "\<And>b. OutBuffer b \<in> set bindings \<Longrightarrow> unat b < length (sa_values arenas)"
    and "cursor + length (terminal_outputs (zip bindings vs)) \<le> length (sa_terminals arenas)"
  shows "try_fold (static_write step) (arenas, cursor) (zip [i..<i + length bindings] bindings) =
     Ok (arenas\<lparr>sa_values := foldl write_value (sa_values arenas) (zip bindings vs),
                sa_terminals := take cursor (sa_terminals arenas) @ map Some (terminal_outputs (zip bindings vs)) @
                  drop (cursor + length (terminal_outputs (zip bindings vs))) (sa_terminals arenas)\<rparr>,
         cursor + length (terminal_outputs (zip bindings vs)))"
  using assms
proof (induction vs bindings arbitrary: arenas cursor i pre rule: list_induct2)
  case Nil
  then show ?case by simp
next
  case (Cons v vs binding bindings)
  have range: "[i..<i + length (binding # bindings)] = i # [Suc i..<Suc i + length bindings]"
    by (simp add: upt_rec)
  have produced: "get (sa_output_scratch arenas) i = Some v"
    by (simp add: get_def Cons.prems(1,2) nth_append)
  have IH: "try_fold (static_write step) (arenas', cursor') (zip [Suc i..<Suc i + length bindings] bindings) =
     Ok (arenas'\<lparr>sa_values := foldl write_value (sa_values arenas') (zip bindings vs),
                sa_terminals := take cursor' (sa_terminals arenas') @ map Some (terminal_outputs (zip bindings vs)) @
                  drop (cursor' + length (terminal_outputs (zip bindings vs))) (sa_terminals arenas')\<rparr>,
         cursor' + length (terminal_outputs (zip bindings vs)))"
    if "sa_output_scratch arenas' = sa_output_scratch arenas" "length (sa_values arenas') = length (sa_values arenas)"
      "cursor' + length (terminal_outputs (zip bindings vs)) \<le> length (sa_terminals arenas')" for arenas' cursor'
    using that Cons.prems(1,2,3) by (intro Cons.IH [where pre = "pre @ [v]"]) auto
  show ?case
  proof (cases binding)
    case (OutBuffer b)
    then have "unat b < length (sa_values arenas)" using Cons.prems(3) by simp
    then have "static_write step (arenas, cursor) (i, binding) =
        Ok (arenas\<lparr>sa_values := (sa_values arenas)[unat b := Some v]\<rparr>, cursor)"
      by (simp add: static_write_def produced OutBuffer)
    then show ?thesis
      unfolding range using IH [of "arenas\<lparr>sa_values := (sa_values arenas)[unat b := Some v]\<rparr>" cursor] Cons.prems(4)
      by (simp add: OutBuffer)
  next
    case Terminal
    then have room: "cursor < length (sa_terminals arenas)" using Cons.prems(4) by simp
    then have "static_write step (arenas, cursor) (i, binding) =
        Ok (arenas\<lparr>sa_terminals := (sa_terminals arenas)[cursor := Some v]\<rparr>, cursor + 1)"
      by (simp add: static_write_def produced Terminal)
    then show ?thesis
      unfolding range using IH [of "arenas\<lparr>sa_terminals := (sa_terminals arenas)[cursor := Some v]\<rparr>" "cursor + 1"]
        Cons.prems(4) room
      by (simp add: Terminal take_Suc_conv_app_nth)
  qed
qed

text \<open>The value arena and the reference executor's buffer map hold the same values.\<close>

definition arena_holds :: "nat \<Rightarrow> 'v option list \<Rightarrow> (buffer_id, 'v) btree_map \<Rightarrow> bool" where
  "arena_holds slots vals buffers =
     (slots \<le> length vals \<and> bt_wf buffers \<and>
      (\<forall>b. bt_get buffers b = (if unat b < slots then vals ! unat b else None)))"

lemma arena_holds_write:
  "arena_holds slots vals buffers \<Longrightarrow> (\<And>b v. (OutBuffer b, v) \<in> set bound \<Longrightarrow> unat b < slots) \<Longrightarrow>
     arena_holds slots (foldl write_value vals bound) (fst (foldl store_output (buffers, ts) bound))"
proof (induction bound arbitrary: vals buffers ts)
  case (Cons x bound)
  obtain binding v where x: "x = (binding, v)" by fastforce
  have range: "unat c < slots" if "(OutBuffer c, w) \<in> set bound" for c w
    using Cons.prems(2) [of c w] that by simp
  show ?case
  proof (cases binding)
    case (OutBuffer b)
    with Cons.prems(2) [of b v] x have "unat b < slots" by simp
    with Cons.prems(1) have "arena_holds slots (vals[unat b := Some v]) (bt_insert b v buffers)"
      by (auto simp: arena_holds_def bt.wf_insert bt.lookup_insert nth_list_update word_unat_eq_iff)
    from Cons.IH [OF this, where ts = ts] range show ?thesis
      by (simp add: x OutBuffer store_output_def)
  next
    case Terminal
    with Cons.IH [OF Cons.prems(1), where ts = "ts @ [v]"] range show ?thesis
      by (simp add: x store_output_def)
  qed
qed simp

lemma arena_holds_release:
  "arena_holds (length (p_buffers plan)) vals buffers \<Longrightarrow>
     arena_holds (length (p_buffers plan)) (foldl (static_release plan step) vals bindings)
       (foldl (release_buffer plan step) buffers bindings)"
proof (induction bindings arbitrary: vals buffers)
  case (Cons binding bindings)
  have "arena_holds (length (p_buffers plan)) (static_release plan step vals binding) (release_buffer plan step buffers binding)"
    using Cons.prems
    by (cases binding)
      (auto simp: static_release_def release_buffer_def get_def arena_holds_def bt_get_remove nth_list_update word_unat_eq_iff)
  from Cons.IH [OF this] show ?case by simp
qed simp

lemma length_static_release [simp]: "length (foldl (static_release plan step) vals bindings) = length vals"
  by (induction bindings arbitrary: vals)
    (auto simp: static_release_def split: input_binding.splits option.splits)

text \<open>What a decoded plan guarantees to the firmware executor besides being executable.\<close>

definition firmware_ready :: "compiled_plan \<Rightarrow> bool" where
  "firmware_ready plan =
     ((\<forall>i < length (p_buffers plan). unat (bp_id (p_buffers plan ! i)) = i) \<and>
      (\<forall>step \<in> set (p_nodes plan). (\<forall>b. OutBuffer b \<in> set (cn_output_bindings step) \<longrightarrow> unat b < length (p_buffers plan)) \<and>
         (Terminal \<in> set (cn_output_bindings step) \<longrightarrow> cn_semantic_nodes step \<noteq> [])) \<and>
      distinct (concat (map cn_semantic_nodes (p_nodes plan))) \<and> length (p_nodes plan) < 2 ^ 32)"

text \<open>Every buffer that is still to be read and has been produced is present.\<close>

definition live_from :: "compiled_plan \<Rightarrow> nat \<Rightarrow> (buffer_id, 'v) btree_map \<Rightarrow> bool" where
  "live_from plan i buffers =
     (\<forall>b. readable_from plan i b \<longrightarrow> unat (bp_producer (p_buffers plan ! unat b)) < i \<longrightarrow> bt_get buffers b \<noteq> None)"

definition node_terminals :: "(node_id, 'v list) btree_map \<Rightarrow> compiled_node \<Rightarrow> 'v list" where
  "node_terminals terminal_values step =
     (case Option.bind (last_opt (cn_semantic_nodes step)) (bt_get terminal_values) of Some vs \<Rightarrow> vs | None \<Rightarrow> [])"

definition simulates ::
    "compiled_plan \<Rightarrow> (port_ref, 'v) btree_map \<Rightarrow> arena_requirements \<Rightarrow> 's \<Rightarrow> compiled_node list \<Rightarrow>
     ('v, 'k) static_run \<Rightarrow> ('v, 'k, 's) execution \<Rightarrow> bool" where
  "simulates plan inputs req s pre run st =
     (st_kernel run = ex_kernels st \<and> ex_sink st = s \<and>
      arena_holds (length (p_buffers plan)) (sa_values (st_arenas run)) (ex_buffers st) \<and>
      (\<forall>j < length (p_invocation_ports plan).
         get (sa_invocation (st_arenas run)) j = Some (bt_get inputs (p_invocation_ports plan ! j))) \<and>
      ar_max_step_outputs req \<le> length (sa_output_scratch (st_arenas run)) \<and>
      ar_terminal_slots req \<le> length (sa_terminals (st_arenas run)) \<and>
      st_terminal_cursor run = sum_list (map step_terminals pre) \<and>
      take (st_terminal_cursor run) (sa_terminals (st_arenas run)) =
        map Some (concat (map (node_terminals (ex_terminal_values st)) pre)) \<and>
      bt_wf (ex_terminal_values st) \<and>
      (\<forall>t. bt_get (ex_terminal_values st) t \<noteq> None \<longrightarrow> t \<in> set (concat (map cn_semantic_nodes pre))) \<and>
      unat (st_completed_steps run) = length pre \<and>
      st_last_step run = last_opt (concat (map cn_semantic_nodes pre)) \<and>
      live_from plan (length pre) (ex_buffers st))"

lemma last_opt_append: "last_opt (xs @ ys) = option_or (last_opt ys) (last_opt xs)"
  by (simp add: last_opt_def)

lemma live_from_step:
  assumes "executable plan" and "i < length (p_nodes plan)" and "live_from plan i buffers" and "bt_wf buffers"
    and "length outputs = length (cn_output_bindings (p_nodes plan ! i))"
  shows "live_from plan (Suc i) (foldl (release_buffer plan (p_nodes plan ! i))
           (fst (foldl store_output (buffers, []) (zip (cn_output_bindings (p_nodes plan ! i)) outputs)))
           (cn_input_bindings (p_nodes plan ! i)))"
  unfolding live_from_def
proof (intro allI impI)
  let ?node = "p_nodes plan ! i"
  fix b
  assume later: "readable_from plan (Suc i) b" and produced: "unat (bp_producer (p_buffers plan ! unat b)) < Suc i"
  have "bt_get buffers b \<noteq> None \<or> OutBuffer b \<in> set (cn_output_bindings ?node)"
  proof (cases "unat (bp_producer (p_buffers plan ! unat b)) = i")
    case True
    from later obtain j where "reads_buffer plan j b" by (auto simp: readable_from_def)
    from executable_reads(4) [OF assms(1) this] True show ?thesis by simp
  next
    case False
    with produced have "unat (bp_producer (p_buffers plan ! unat b)) < i" by simp
    moreover from later have "readable_from plan i b" by (meson Suc_leD readable_from_def)
    ultimately show ?thesis using assms(3) by (simp add: live_from_def)
  qed
  then have "bt_get (fst (foldl store_output (buffers, []) (zip (cn_output_bindings ?node) outputs))) b \<noteq> None"
    by (subst store_output_defined [OF assms(4) assms(5) [symmetric]])
  moreover from later released_unreadable [OF assms(1,2), of b] have "\<not> releases plan ?node b" by blast
  ultimately show "bt_get (foldl (release_buffer plan ?node)
      (fst (foldl store_output (buffers, []) (zip (cn_output_bindings ?node) outputs))) (cn_input_bindings ?node)) b \<noteq> None"
    by (simp add: release_fold releases_def)
qed

lemma live_input_available:
  assumes "executable plan" and "i < length (p_nodes plan)" and "live_from plan i buffers" and "p_feedback plan = []"
    and "binding \<in> set (cn_input_bindings (p_nodes plan ! i))"
  shows "input_available plan buffers binding"
proof (cases binding)
  case (InBuffer b)
  with assms(2,5) have reads: "reads_buffer plan i b" by (simp add: reads_buffer_def)
  then have "readable_from plan i b" by (auto simp: readable_from_def)
  with executable_reads(2) [OF assms(1) reads] assms(3) InBuffer show ?thesis
    by (simp add: live_from_def input_available_def)
next
  case (InInvocation j)
  with assms(1,2,5) show ?thesis by (force simp: executable_def input_available_def)
next
  case (InFeedback f)
  with assms(1,2,4,5) show ?thesis by (force simp: executable_def)
qed (simp add: input_available_def)

text \<open>An available input is gathered by both executors, with the same value.\<close>

lemma gather_both:
  assumes "arena_holds (length (p_buffers plan)) (sa_values arenas) buffers"
    and "\<And>j. j < length (p_invocation_ports plan) \<Longrightarrow>
       get (sa_invocation arenas) j = Some (bt_get inputs (p_invocation_ports plan ! j))"
    and "fully_supplied plan inputs" and "input_available plan buffers binding"
  shows "\<exists>v. static_gather arenas step binding = Ok v \<and> gather_input plan inputs buffers binding = Ok v"
proof (cases binding)
  case (InBuffer b)
  with assms(4) obtain v where v: "bt_get buffers b = Some v" by (auto simp: input_available_def)
  with assms(1) have "unat b < length (p_buffers plan)" "sa_values arenas ! unat b = Some v"
      "length (p_buffers plan) \<le> length (sa_values arenas)"
    by (auto simp: arena_holds_def split: if_splits)
  with v InBuffer show ?thesis by (simp add: get_def)
next
  case (InInvocation j)
  with assms(4) have j: "unat j < length (p_invocation_ports plan)" by (simp add: input_available_def)
  then have "p_invocation_ports plan ! unat j \<in> set (bt_keys inputs)"
    using assms(3) by (auto simp: fully_supplied_def)
  then obtain v where "bt_get inputs (p_invocation_ports plan ! unat j) = Some v"
    using assms(3) bt_contains_iff [of inputs] by (fastforce simp: fully_supplied_def bt_contains_def)
  with assms(2) [OF j] j InInvocation show ?thesis by (simp add: index_def)
qed (use assms(4) in \<open>simp_all add: input_available_def\<close>)

lemma gather_all_both:
  assumes "\<And>binding. binding \<in> set bindings \<Longrightarrow> \<exists>v. f binding = Ok v \<and> g binding = Ok v"
  shows "\<exists>vs. try_map f bindings = Ok vs \<and> try_map g bindings = Ok vs"
  using assms
proof (induction bindings)
  case (Cons b bs)
  then obtain v vs where "f b = Ok v" "g b = Ok v" "try_map f bs = Ok vs" "try_map g bs = Ok vs"
    by (metis list.set_intros)
  then show ?case by simp
qed simp

lemma node_terminals_other:
  assumes "bt_wf tv" and "last_opt (cn_semantic_nodes step) = Some t" and "t \<notin> set (concat (map cn_semantic_nodes pre))"
  shows "map (node_terminals (bt_insert t vs tv)) pre = map (node_terminals tv) pre"
proof (rule map_cong [OF refl])
  fix other assume "other \<in> set pre"
  then have "last_opt (cn_semantic_nodes other) \<noteq> Some t"
    using assms(3) by (auto simp: last_opt_def split: if_splits)
  then show "node_terminals (bt_insert t vs tv) other = node_terminals tv other"
    using assms(1) by (cases "last_opt (cn_semantic_nodes other)") (auto simp: node_terminals_def bt.lookup_insert)
qed

text \<open>Terminal values after a step: the arena prefix grows by exactly what the reference executor records.\<close>

lemma terminals_step:
  assumes "bt_wf tv" and keys: "\<And>t. bt_get tv t \<noteq> None \<Longrightarrow> t \<in> set (concat (map cn_semantic_nodes pre))"
    and distinct: "distinct (concat (map cn_semantic_nodes (pre @ [step])))"
    and produced: "vs \<noteq> [] \<Longrightarrow> cn_semantic_nodes step \<noteq> []"
    and tv': "tv' = (case last_opt (cn_semantic_nodes step) of
        Some terminal \<Rightarrow> if vs \<noteq> [] then bt_insert terminal vs tv else tv | None \<Rightarrow> tv)"
  shows "concat (map (node_terminals tv') (pre @ [step])) = concat (map (node_terminals tv) pre) @ vs"
    and "bt_wf tv'" and "bt_get tv' t \<noteq> None \<Longrightarrow> t \<in> set (concat (map cn_semantic_nodes (pre @ [step])))"
proof -
  have fresh: "t \<notin> set (concat (map cn_semantic_nodes pre))" if "last_opt (cn_semantic_nodes step) = Some t" for t
    using distinct that by (auto simp: last_opt_Some_iff)
  have none: "bt_get tv t = None" if "last_opt (cn_semantic_nodes step) = Some t" for t
    using fresh [OF that] keys by blast
  show "concat (map (node_terminals tv') (pre @ [step])) = concat (map (node_terminals tv) pre) @ vs"
  proof (cases "last_opt (cn_semantic_nodes step)")
    case None
    then have "vs = []" using produced by (auto simp: last_opt_def split: if_splits)
    with None show ?thesis by (simp add: tv' node_terminals_def)
  next
    case (Some t)
    have "node_terminals tv' step = vs"
      using Some none [OF Some] assms(1) by (simp add: tv' node_terminals_def bt.lookup_insert)
    moreover have "map (node_terminals tv') pre = map (node_terminals tv) pre"
      using node_terminals_other [OF assms(1) Some fresh [OF Some]] Some by (simp add: tv')
    ultimately show ?thesis by (simp del: map_eq_conv)
  qed
  show "bt_wf tv'"
    using assms(1) by (simp add: tv' bt.wf_insert split: option.splits)
  show "t \<in> set (concat (map cn_semantic_nodes (pre @ [step])))" if "bt_get tv' t \<noteq> None"
  proof -
    have "bt_get tv t \<noteq> None \<or> last_opt (cn_semantic_nodes step) = Some t"
      using that assms(1) by (auto simp: tv' bt.lookup_insert split: option.splits if_splits)
    with keys show ?thesis by (auto simp: last_opt_Some_iff)
  qed
qed

abbreviation same_fault ::
    "'s \<Rightarrow> static_execution_error \<times> 'k \<Rightarrow> execution_error \<times> ('v, 'k, 's) execution \<Rightarrow> bool" where
  "same_fault s x y \<equiv>
     snd x = ex_kernels (snd y) \<and> ex_sink (snd y) = s \<and>
     fst x = KernelFault (ea_step (last (er_attempts (ex_receipt (snd y)))))"

lemma static_step_simulates:
  fixes K :: "('k, 'v) static_kernel" and S :: "'s transactional_sink"
  assumes exec: "executable plan" and ready: "firmware_ready plan" and req: "mcu_arena_requirements plan = Ok req"
    and fan_in: "ar_max_step_inputs req \<le> MAX_STATIC_STEP_INPUTS" and K: "overwrites K"
    and supplied: "fully_supplied plan inputs"
    and split: "p_nodes plan = pre @ step # rest" and sim: "simulates plan inputs req s pre run st"
  shows "rel_outcome (same_fault s) (simulates plan inputs req s (pre @ [step]))
           (static_step K plan run step) (execute_node T (hosted K fill) S plan ivk inputs st step)"
proof -
  have i: "length pre < length (p_nodes plan)" "p_nodes plan ! length pre = step" "step \<in> set (p_nodes plan)"
    by (simp_all add: split)
  note need = mcu_arena_requirements_Ok [OF req]
  note fits = step_fits [OF req i(3)]
  define arenas where "arenas = st_arenas run"
  define n where "n = length (cn_output_bindings step)"
  have holds: "arena_holds (length (p_buffers plan)) (sa_values arenas) (ex_buffers st)"
    and live: "live_from plan (length pre) (ex_buffers st)"
    and invocation: "\<And>j. j < length (p_invocation_ports plan) \<Longrightarrow>
       get (sa_invocation arenas) j = Some (bt_get inputs (p_invocation_ports plan ! j))"
    and scratch: "n \<le> length (sa_output_scratch arenas)"
    using sim fits by (auto simp: simulates_def arenas_def n_def)
  have "\<exists>vs. try_map (static_gather arenas step) (cn_input_bindings step) = Ok vs \<and>
      try_map (gather_input plan inputs (ex_buffers st)) (cn_input_bindings step) = Ok vs"
    using live_input_available [OF exec i(1) live need(2)] i(2)
    by (intro gather_all_both gather_both [OF holds invocation supplied]) auto
  then obtain vs where static_vs: "try_map (static_gather arenas step) (cn_input_bindings step) = Ok vs"
    and host_vs: "try_map (gather_input plan inputs (ex_buffers st)) (cn_input_bindings step) = Ok vs"
    by blast
  obtain r outputs k where host_call: "K (ex_kernels st) step vs (replicate n fill) = (r, outputs, k)"
    by (metis prod_cases3)
  obtain r' outputs' k' where static_call: "K (ex_kernels st) step vs (take n (sa_output_scratch arenas)) = (r', outputs', k')"
    by (metis prod_cases3)
  have same: "r' = r" "k' = k" "length outputs' = n" "length outputs = n" "r = Ok () \<Longrightarrow> outputs' = outputs"
    using K [unfolded overwrites_def, rule_format, of "replicate n fill" "take n (sa_output_scratch arenas)" "ex_kernels st" step vs]
      K [unfolded overwrites_def, rule_format, of "take n (sa_output_scratch arenas)" "replicate n fill" "ex_kernels st" step vs]
      scratch host_call static_call by auto
  note host = hosted_step [of step outputs plan inputs st vs K fill, OF need(3) [rule_format, OF i(3)] same(4) [unfolded n_def] host_vs
      host_call [unfolded n_def], where T = T and S = S and ivk = ivk]
  define arenas' where "arenas' = arenas\<lparr>sa_output_scratch := outputs' @ drop n (sa_output_scratch arenas)\<rparr>"
  have static: "static_step K plan run step =
      and_then (map_err (\<lambda>_. (KernelFault (cn_id step), k)) r) (\<lambda>_.
      and_then (map_err (\<lambda>e. (e, k))
        (try_fold (static_write step) (arenas', st_terminal_cursor run) (zip [0..<n] (cn_output_bindings step))))
        (\<lambda>(arenas, terminal_cursor).
          if st_completed_steps run + 1 = 0 then Panic
          else Ok \<lparr>st_arenas = arenas\<lparr>sa_values :=
                      foldl (static_release plan step) (sa_values arenas) (cn_input_bindings step)\<rparr>,
                   st_kernel = k, st_terminal_cursor = terminal_cursor,
                   st_completed_steps = st_completed_steps run + 1,
                   st_last_step = option_or (last_opt (cn_semantic_nodes step)) (st_last_step run)\<rparr>))"
  proof -
    have "st_kernel run = ex_kernels st" using sim by (simp add: simulates_def)
    moreover have "length (cn_input_bindings step) \<le> MAX_STATIC_STEP_INPUTS" using fits fan_in by simp
    ultimately show ?thesis
      using static_vs static_call scratch same(1,2)
      by (simp add: static_step_def Let_def arenas'_def not_less flip: arenas_def n_def)
  qed
  show ?thesis
  proof (cases r)
    case Panic
    then show ?thesis using host(3) same by (simp add: static n_def)
  next
    case (Err e)
    with host(2) [of e] same obtain error st' where
      "execute_node T (hosted K fill) S plan ivk inputs st step = Err (error, st')"
      "ex_kernels st' = k" "ex_sink st' = ex_sink st" "ea_step (last (er_attempts (ex_receipt st'))) = cn_id step"
      by (auto simp: n_def)
    moreover have "ex_sink st = s" using sim by (simp add: simulates_def)
    ultimately show ?thesis by (simp add: static Err)
  next
    case (Ok u)
    then have out: "outputs' = outputs" using same(5) by simp
    define tvals where "tvals = step_terminal_values step outputs"
    have tvals: "terminal_outputs (zip (cn_output_bindings step) outputs) = tvals" "length tvals = step_terminals step"
      using length_step_terminal_values [of outputs step] same(4)
      by (simp_all add: tvals_def step_terminal_values_def terminal_outputs_def n_def)
    from Ok have "r = Ok ()" by simp
    from host(1) [OF this, folded tvals_def] obtain st' where run': "execute_node T (hosted K fill) S plan ivk inputs st step = Ok st'"
      and st': "ex_kernels st' = k" "ex_sink st' = ex_sink st"
        "ex_buffers st' = foldl (release_buffer plan step)
          (fst (foldl store_output (ex_buffers st, []) (zip (cn_output_bindings step) outputs))) (cn_input_bindings step)"
        "ex_terminal_values st' = (case last_opt (cn_semantic_nodes step) of
           Some terminal \<Rightarrow> if tvals \<noteq> [] then bt_insert terminal tvals (ex_terminal_values st)
                           else ex_terminal_values st
         | None \<Rightarrow> ex_terminal_values st)"
      by blast
    define c where "c = st_terminal_cursor run"
    have c: "c = sum_list (map step_terminals pre)" using sim by (simp add: simulates_def c_def)
    have room: "c + length tvals \<le> length (sa_terminals arenas)"
      using sim need(8) by (simp add: simulates_def c tvals split arenas_def)
    have in_range: "\<And>b. OutBuffer b \<in> set (cn_output_bindings step) \<Longrightarrow> unat b < length (p_buffers plan)"
      using ready i(3) by (auto simp: firmware_ready_def)
    have wide: "length (p_buffers plan) \<le> length (sa_values arenas)" using holds by (simp add: arena_holds_def)
    have "try_fold (static_write step) (arenas', c) (zip [0..<0 + length (cn_output_bindings step)] (cn_output_bindings step)) =
       Ok (arenas'\<lparr>sa_values := foldl write_value (sa_values arenas') (zip (cn_output_bindings step) outputs),
                  sa_terminals := take c (sa_terminals arenas') @ map Some (terminal_outputs (zip (cn_output_bindings step) outputs)) @
                    drop (c + length (terminal_outputs (zip (cn_output_bindings step) outputs))) (sa_terminals arenas')\<rparr>,
           c + length (terminal_outputs (zip (cn_output_bindings step) outputs)))"
      using same(4) room in_range wide
      by (intro static_write_fold [where pre = "[]" and post = "drop n (sa_output_scratch arenas)"])
        (auto simp: arenas'_def out n_def tvals dest: in_range intro: less_le_trans)
    then have written: "try_fold (static_write step) (arenas', c) (zip [0..<n] (cn_output_bindings step)) =
       Ok (arenas'\<lparr>sa_values := foldl write_value (sa_values arenas) (zip (cn_output_bindings step) outputs),
                  sa_terminals := take c (sa_terminals arenas) @ map Some tvals @ drop (c + length tvals) (sa_terminals arenas)\<rparr>,
           c + length tvals)"
      by (simp add: tvals(1) n_def arenas'_def)
    have steps: "unat (st_completed_steps run) = length pre" using sim by (simp add: simulates_def)
    have "length (pre @ [step]) < 2 ^ 32" using ready by (simp add: firmware_ready_def split)
    then have small: "unat (st_completed_steps run) + 1 < 2 ^ 32" using steps by simp
    have count: "st_completed_steps run + 1 \<noteq> 0" "unat (st_completed_steps run + 1) = length (pre @ [step])"
    proof -
      have "unat (st_completed_steps run + 1) = unat (st_completed_steps run) + 1"
        using small by (subst unat_word_ariths) simp
      then show "unat (st_completed_steps run + 1) = length (pre @ [step])" using steps by simp
      then show "st_completed_steps run + 1 \<noteq> 0" by (auto simp: unat_eq_0)
    qed
    define vals where "vals = foldl (static_release plan step)
      (foldl write_value (sa_values arenas) (zip (cn_output_bindings step) outputs)) (cn_input_bindings step)"
    define arenas'' where "arenas'' = arenas\<lparr>sa_output_scratch := outputs @ drop n (sa_output_scratch arenas),
        sa_values := vals, sa_terminals := take c (sa_terminals arenas) @ map Some tvals @ drop (c + length tvals) (sa_terminals arenas)\<rparr>"
    define run2 where "run2 = \<lparr>st_arenas = arenas'', st_kernel = k, st_terminal_cursor = c + length tvals,
        st_completed_steps = st_completed_steps run + 1,
        st_last_step = option_or (last_opt (cn_semantic_nodes step)) (st_last_step run)\<rparr>"
    have result: "static_step K plan run step = Ok run2"
      using count(1) written by (simp add: static Ok c_def arenas''_def arenas'_def vals_def out run2_def)
    have values_hold: "arena_holds (length (p_buffers plan)) vals (ex_buffers st')"
      unfolding vals_def st'(3)
      by (intro arena_holds_release arena_holds_write [OF holds]) (auto dest!: set_zip_leftD intro: in_range)
    have wf: "bt_wf (ex_buffers st)" using holds by (simp add: arena_holds_def)
    have live': "live_from plan (Suc (length pre)) (ex_buffers st')"
      using live_from_step [OF exec i(1) live wf, of outputs] same(4) by (simp add: i(2) st'(3) n_def)
    have distinct: "distinct (concat (map cn_semantic_nodes (pre @ [step])))"
      using ready by (auto simp: firmware_ready_def split)
    have "cn_semantic_nodes step \<noteq> []" if "tvals \<noteq> []"
    proof -
      from that have "Terminal \<in> set (cn_output_bindings step)"
        by (auto simp: tvals_def step_terminal_values_def filter_empty_conv dest: set_zip_leftD)
      with ready i(3) show ?thesis by (auto simp: firmware_ready_def)
    qed
    note terminals = terminals_step [OF _ _ distinct this st'(4)]
    have tv: "bt_wf (ex_terminal_values st)"
      "\<And>t. bt_get (ex_terminal_values st) t \<noteq> None \<Longrightarrow> t \<in> set (concat (map cn_semantic_nodes pre))"
      using sim by (simp_all add: simulates_def)
    have prefix: "take c (sa_terminals arenas) = map Some (concat (map (node_terminals (ex_terminal_values st)) pre))"
      using sim by (auto simp: simulates_def c_def arenas_def)
    have grown: "take (c + length tvals) (sa_terminals arenas'') = take c (sa_terminals arenas) @ map Some tvals"
      using room by (simp add: arenas''_def)
    have "simulates plan inputs req s (pre @ [step]) run2 st'"
      unfolding simulates_def
    proof (intro conjI)
      show "take (st_terminal_cursor run2) (sa_terminals (st_arenas run2)) =
          map Some (concat (map (node_terminals (ex_terminal_values st')) (pre @ [step])))"
        using grown terminals(1) [OF tv] prefix by (simp add: run2_def)
      show "\<forall>t. bt_get (ex_terminal_values st') t \<noteq> None \<longrightarrow> t \<in> set (concat (map cn_semantic_nodes (pre @ [step])))"
        using terminals(3) [OF tv] by blast
    qed (use sim st' values_hold live' scratch room tvals(2) count(2) terminals(2) [OF tv] same(4) in
        \<open>simp_all add: simulates_def run2_def arenas''_def arenas_def c last_opt_append\<close>)
    with run' result show ?thesis by simp
  qed
qed

lemma static_admit_Ok:
  assumes "firmware_ready plan" and "mcu_arena_requirements plan = Ok req"
    and "ar_max_step_inputs req \<le> MAX_STATIC_STEP_INPUTS"
    and "ar_value_slots req \<le> length (sa_values arenas)" and "ar_terminal_slots req \<le> length (sa_terminals arenas)"
    and "ar_max_step_outputs req \<le> length (sa_output_scratch arenas)"
    and "ar_invocation_slots req \<le> length (sa_invocation arenas)"
  shows "static_admit plan req arenas = Ok ()"
proof -
  have "\<forall>(i, buffer) \<in> set (zip [0..<length (p_buffers plan)] (p_buffers plan)). unat (bp_id buffer) = i"
    using assms(1) by (auto simp: firmware_ready_def set_zip)
  then have "\<not> (\<exists>(i, buffer) \<in> set (zip [0..<length (p_buffers plan)] (p_buffers plan)). unat (bp_id buffer) \<noteq> i)"
    by auto
  then show ?thesis
    using assms(2-) mcu_arena_requirements_Ok(1) [OF assms(2)]
    by (simp add: static_admit_def guard_def)
qed

text \<open>
  C1. On an authorized firmware plan and arenas of the required sizes, the allocation-free executor
  and the reference executor are equivalent, for every static kernel that writes its outputs. They
  succeed together, and then the terminal arena holds exactly the terminal values of the reference
  run, in plan order, the receipt counts every step, and the kernels end in the same state; or they
  stop at the same step because the kernel reported a fault there. The firmware executor therefore
  never runs out of arena and never misses a buffer or an input, and neither touches the sink.
\<close>

theorem static_execute_refines_execute:
  fixes K :: "('k, 'v) static_kernel" and S :: "'s transactional_sink"
  assumes exec: "executable plan" and ready: "firmware_ready plan" and req: "mcu_arena_requirements plan = Ok req"
    and fan_in: "ar_max_step_inputs req \<le> MAX_STATIC_STEP_INPUTS" and K: "overwrites K"
    and supplied: "fully_supplied plan inputs"
    and invocation: "\<forall>j < length (p_invocation_ports plan).
       get (sa_invocation arenas) j = Some (bt_get inputs (p_invocation_ports plan ! j))"
    and sizes: "ar_value_slots req \<le> length (sa_values arenas)" "ar_terminal_slots req \<le> length (sa_terminals arenas)"
      "ar_max_step_outputs req \<le> length (sa_output_scratch arenas)"
      "ar_invocation_slots req \<le> length (sa_invocation arenas)"
  shows "case (static_execute K (AuthorizedPlan plan) req ivk arenas k,
               execute T (hosted K fill) S (AuthorizedPlan plan) ivk inputs k s) of
     (Ok (receipt, arenas', k1), Ok (result, k2, s2)) \<Rightarrow>
       k1 = k2 \<and> s2 = s \<and>
       unat (sr_completed_steps receipt) = length (p_nodes plan) \<and>
       sr_terminal_values receipt = ar_terminal_slots req \<and>
       sr_last_step receipt = last_opt (concat (map cn_semantic_nodes (p_nodes plan))) \<and>
       take (ar_terminal_slots req) (sa_terminals arenas') =
         map Some (concat (map (node_terminals (xr_terminal_values result)) (p_nodes plan)))
   | (Err (e, k1), Err (failure, k2, s2)) \<Rightarrow>
       k1 = k2 \<and> s2 = s \<and> e = KernelFault (ea_step (last (er_attempts (xf_receipt failure))))
   | (Panic, Panic) \<Rightarrow> True
   | _ \<Rightarrow> False"
proof -
  note need = mcu_arena_requirements_Ok [OF req]
  define vals where "vals = map (\<lambda>_. None :: 'v option) (take (ar_value_slots req) (sa_values arenas)) @
    drop (ar_value_slots req) (sa_values arenas)"
  define run where "run = \<lparr>st_arenas = arenas\<lparr>sa_values := vals\<rparr>, st_kernel = k, st_terminal_cursor = 0,
    st_completed_steps = 0, st_last_step = None\<rparr>"
  have "simulates plan inputs req s [] run (new_execution plan ivk k s)"
    using sizes invocation need(4)
    by (auto simp: simulates_def run_def new_execution_def vals_def arena_holds_def bt_empty_def bt_get_def
        live_from_def last_opt_def nth_append)
  then have "rel_outcome (same_fault s) (simulates plan inputs req s (p_nodes plan))
      (try_fold (static_step K plan) run (p_nodes plan))
      (try_fold (execute_node T (hosted K fill) S plan ivk inputs) (new_execution plan ivk k s) (p_nodes plan))"
    by (rule rel_outcome_try_fold_prefix)
      (rule static_step_simulates [OF exec ready req fan_in K supplied])
  moreover have "static_admit plan req arenas = Ok ()"
    by (rule static_admit_Ok [OF ready req fan_in sizes])
  then have "static_execute K (AuthorizedPlan plan) req ivk arenas k =
      and_then (try_fold (static_step K plan) run (p_nodes plan)) (\<lambda>st.
           Ok (\<lparr>sr_invocation_id = ivk, sr_graph_id = p_graph_id plan, sr_plan_id = p_plan_id plan,
                sr_realm = p_realm plan, sr_completed_steps = st_completed_steps st,
                sr_terminal_values = st_terminal_cursor st, sr_last_step = st_last_step st\<rparr>,
               st_arenas st, st_kernel st))"
    by (simp add: static_execute_def Let_def run_def vals_def)
  moreover have "admit_execution plan inputs = Ok ()"
    using exec need(2,3) supplied by (intro admit_execution_Ok) (auto simp: executable_def firmware_step_def)
  ultimately show ?thesis
    by (cases "try_fold (static_step K plan) run (p_nodes plan)";
        cases "try_fold (execute_node T (hosted K fill) S plan ivk inputs) (new_execution plan ivk k s) (p_nodes plan)")
      (auto simp: execute_def Let_def simulates_def need(8) split: prod.splits)
qed

definition sample_static_kernel :: "(unit, nat) static_kernel" where
  "sample_static_kernel k step inputs slots = (Ok (), replicate (length slots) 7, k)"

definition sample_firmware :: compiled_plan where
  "sample_firmware = sample_chain\<lparr>p_realm := Realm_McuAot\<rparr>"

definition sample_requirements :: arena_requirements where
  "sample_requirements =
     \<lparr>ar_byte_arena = 80, ar_value_slots = 1, ar_invocation_slots = 0, ar_max_step_inputs = 1,
      ar_max_step_outputs = 1, ar_attempt_slots = 2, ar_terminal_slots = 1\<rparr>"

definition sample_arenas :: "nat static_arenas" where
  "sample_arenas =
     \<lparr>sa_values = [Some 3], sa_terminals = [None], sa_output_scratch = [0], sa_invocation = []\<rparr>"

lemma sample_firmware_executable: "executable sample_firmware"
  by (auto simp: executable_def sample_firmware_def sample_chain_def sample_plan_def sample_step_def sample_buffer_def
      less_Suc_eq numeral_2_eq_2 Let_def)

lemma sample_firmware_ready: "firmware_ready sample_firmware"
  by (auto simp: firmware_ready_def sample_firmware_def sample_chain_def sample_plan_def sample_step_def sample_buffer_def)

lemma sample_firmware_requirements: "mcu_arena_requirements sample_firmware = Ok sample_requirements"
  by (simp add: sample_firmware_def sample_chain_def sample_plan_def sample_step_def
      mcu_arena_requirements_def mcu_step_def step_terminals_def usize_checked_add_def guard_def stateless_def
      resource_bounded_def sample_requirements_def)

theorem mcu_arena_requirements_exact_witness:
  "mcu_arena_requirements sample_firmware = Ok sample_requirements"
  by (subst mcu_arena_requirements_exact)
    (auto simp: sample_firmware_def sample_chain_def sample_plan_def sample_step_def sample_requirements_def
      firmware_step_def step_terminals_def stateless_def resource_bounded_def)

lemma sample_static_kernel_overwrites: "overwrites sample_static_kernel"
  by (simp add: overwrites_def sample_static_kernel_def)

theorem static_execute_refines_execute_witness:
  "case (static_execute sample_static_kernel (AuthorizedPlan sample_firmware) sample_requirements [] sample_arenas (),
         execute (\<lambda>_ _. ''key'') (hosted sample_static_kernel 0) accepting_sink (AuthorizedPlan sample_firmware) [] [] () ()) of
     (Ok (receipt, arenas', k1), Ok (result, k2, s2)) \<Rightarrow>
       k1 = k2 \<and> s2 = () \<and>
       unat (sr_completed_steps receipt) = length (p_nodes sample_firmware) \<and>
       sr_terminal_values receipt = ar_terminal_slots sample_requirements \<and>
       sr_last_step receipt = last_opt (concat (map cn_semantic_nodes (p_nodes sample_firmware))) \<and>
       take (ar_terminal_slots sample_requirements) (sa_terminals arenas') =
         map Some (concat (map (node_terminals (xr_terminal_values result)) (p_nodes sample_firmware)))
   | (Err (e, k1), Err (failure, k2, s2)) \<Rightarrow>
       k1 = k2 \<and> s2 = () \<and> e = KernelFault (ea_step (last (er_attempts (xf_receipt failure))))
   | (Panic, Panic) \<Rightarrow> True
   | _ \<Rightarrow> False"
  by (rule static_execute_refines_execute [OF sample_firmware_executable sample_firmware_ready
      sample_firmware_requirements _ sample_static_kernel_overwrites])
    (simp_all add: sample_requirements_def MAX_STATIC_STEP_INPUTS_def sample_arenas_def fully_supplied_def bt_keys_def
      sample_firmware_def sample_chain_def sample_plan_def)

end
