(* ===== verification/Buffers.thy ===== *)
theory Buffers
  imports Wire
begin

text \<open>
  The physical buffers of a lowered plan, from \<open>crates/blut-graph-core/src/compile.rs\<close>: allocating a
  buffer (\<open>push_buffer\<close>), binding it to the ports of the steps (\<open>set_input\<close>, \<open>set_invocation\<close>,
  \<open>set_output\<close>), renumbering the buffers by lifetime (\<open>canonicalize_buffers\<close>), copying their layouts
  into the port contracts (\<open>synchronize_port_layouts\<close>) and sharing storage between buffers that are
  never live together (\<open>assign_aliases\<close>). The lemmas show that renumbering is a bijective renaming of
  the whole plan, and that sharing is what the decoder of untrusted plans accepts.
\<close>

section \<open>Allocation and binding\<close>

definition push_buffer ::
    "buffer_plan list \<Rightarrow> layout \<Rightarrow> u64 \<Rightarrow> step_id \<Rightarrow> step_id list \<Rightarrow> (compile_error, buffer_plan list \<times> buffer_id) outcome" where
  "push_buffer buffers l capacity_bytes producer consumers =
     (let consumers = sort_dedup consumers
      in and_then (expect (last_opt consumers)) (\<lambda>last_consumer.
         let i = word_of_nat (length buffers)
         in Ok (buffers @
              [\<lparr>bp_id = i, bp_layout = l, bp_capacity_bytes = capacity_bytes, bp_producer = producer,
                bp_consumers = consumers, bp_last_consumer = last_consumer, bp_aliases = None\<rparr>], i)))"

definition set_input ::
    "compiled_node list \<Rightarrow> step_id \<Rightarrow> usize \<Rightarrow> buffer_id \<Rightarrow> (compile_error, compiled_node list) outcome" where
  "set_input nodes step i buffer =
     (case get nodes (unat step) of
        None \<Rightarrow> Err ResourceOverflow
      | Some node \<Rightarrow>
          if i < length (cn_input_bindings node)
          then Ok (nodes[unat step := node\<lparr>cn_input_bindings := (cn_input_bindings node)[i := InBuffer buffer]\<rparr>])
          else Err ResourceOverflow)"

definition set_invocation ::
    "compiled_node list \<Rightarrow> step_id \<Rightarrow> usize \<Rightarrow> u32 \<Rightarrow> (compile_error, compiled_node list) outcome" where
  "set_invocation nodes step i invocation =
     (case get nodes (unat step) of
        None \<Rightarrow> Err ResourceOverflow
      | Some node \<Rightarrow>
          (case get (cn_input_bindings node) i of
             None \<Rightarrow> Err ResourceOverflow
           | Some binding \<Rightarrow>
               if binding \<noteq> Absent then Err ResourceOverflow
               else Ok (nodes[unat step := node\<lparr>cn_input_bindings := (cn_input_bindings node)[i := InInvocation invocation]\<rparr>])))"

definition set_output ::
    "compiled_node list \<Rightarrow> step_id \<Rightarrow> usize \<Rightarrow> buffer_id \<Rightarrow> (compile_error, compiled_node list) outcome" where
  "set_output nodes step i buffer =
     (case get nodes (unat step) of
        None \<Rightarrow> Err ResourceOverflow
      | Some node \<Rightarrow>
          if i < length (cn_output_bindings node)
          then Ok (nodes[unat step := node\<lparr>cn_output_bindings := (cn_output_bindings node)[i := OutBuffer buffer]\<rparr>])
          else Err ResourceOverflow)"

section \<open>Renumbering\<close>

definition buffer_key :: "buffer_plan \<Rightarrow> step_id \<times> step_id \<times> buffer_id" where
  "buffer_key buffer = (bp_producer buffer, bp_last_consumer buffer, bp_id buffer)"

definition buffer_order :: "buffer_plan list \<Rightarrow> nat list" where
  "buffer_order buffers = sort_key (\<lambda>i. buffer_key (buffers ! i)) [0..<length buffers]"

definition buffer_remap :: "buffer_plan list \<Rightarrow> (buffer_id, buffer_id) btree_map" where
  "buffer_remap buffers =
     bt_collect (map (\<lambda>(new, old). (bp_id (buffers ! old), word_of_nat new)) (enumerate_list (buffer_order buffers)))"

fun remap_input :: "(buffer_id, buffer_id) btree_map \<Rightarrow> input_binding \<Rightarrow> (compile_error, input_binding) outcome" where
  "remap_input remap (InBuffer buffer) = and_then (expect (bt_get remap buffer)) (\<lambda>new. Ok (InBuffer new))"
| "remap_input remap binding = Ok binding"

fun remap_output :: "(buffer_id, buffer_id) btree_map \<Rightarrow> output_binding \<Rightarrow> (compile_error, output_binding) outcome" where
  "remap_output remap (OutBuffer buffer) = and_then (expect (bt_get remap buffer)) (\<lambda>new. Ok (OutBuffer new))"
| "remap_output remap Terminal = Ok Terminal"

definition remap_node :: "(buffer_id, buffer_id) btree_map \<Rightarrow> compiled_node \<Rightarrow> (compile_error, compiled_node) outcome" where
  "remap_node remap node =
     and_then (try_map (remap_input remap) (cn_input_bindings node)) (\<lambda>inputs.
     and_then (try_map (remap_output remap) (cn_output_bindings node)) (\<lambda>outputs.
     Ok (node\<lparr>cn_input_bindings := inputs, cn_output_bindings := outputs\<rparr>)))"

definition canonicalize_buffers ::
    "compiled_node list \<Rightarrow> buffer_plan list \<Rightarrow> (compile_error, compiled_node list \<times> buffer_plan list) outcome" where
  "canonicalize_buffers nodes buffers =
     and_then (try_map (remap_node (buffer_remap buffers)) nodes) (\<lambda>nodes'.
     Ok (nodes', map (\<lambda>(new, old). (buffers ! old)\<lparr>bp_id := word_of_nat new, bp_aliases := None\<rparr>)
                   (enumerate_list (buffer_order buffers))))"

section \<open>Layouts of the ports\<close>

definition sync_input ::
    "buffer_plan list \<Rightarrow> compiled_port_contract \<times> input_binding \<Rightarrow> (compile_error, compiled_port_contract) outcome" where
  "sync_input buffers port =
     (case snd port of
        InBuffer b \<Rightarrow> and_then (index buffers (unat b)) (\<lambda>buffer. Ok ((fst port)\<lparr>cp_layout := bp_layout buffer\<rparr>))
      | _ \<Rightarrow> Ok (fst port))"

definition sync_output ::
    "buffer_plan list \<Rightarrow> compiled_port_contract \<times> output_binding \<Rightarrow> (compile_error, compiled_port_contract) outcome" where
  "sync_output buffers port =
     (case snd port of
        OutBuffer b \<Rightarrow> and_then (index buffers (unat b)) (\<lambda>buffer. Ok ((fst port)\<lparr>cp_layout := bp_layout buffer\<rparr>))
      | Terminal \<Rightarrow> Ok (fst port))"

definition sync_node :: "buffer_plan list \<Rightarrow> compiled_node \<Rightarrow> (compile_error, compiled_node) outcome" where
  "sync_node buffers node =
     and_then (try_map (sync_input buffers) (zip (cn_input_contracts node) (cn_input_bindings node))) (\<lambda>inputs.
     and_then (try_map (sync_output buffers) (zip (cn_output_contracts node) (cn_output_bindings node))) (\<lambda>outputs.
     Ok (node\<lparr>cn_input_contracts := inputs @ drop (length (cn_input_bindings node)) (cn_input_contracts node),
              cn_output_contracts := outputs @ drop (length (cn_output_bindings node)) (cn_output_contracts node)\<rparr>)))"

definition synchronize_port_layouts ::
    "compiled_node list \<Rightarrow> buffer_plan list \<Rightarrow> (compile_error, compiled_node list) outcome" where
  "synchronize_port_layouts nodes buffers = try_map (sync_node buffers) nodes"

section \<open>Storage sharing\<close>

record slot =
  slot_root :: buffer_id
  slot_layout :: layout
  slot_capacity_bytes :: u64
  slot_available_after :: step_id

definition slot_candidate :: "slot list \<Rightarrow> buffer_plan \<Rightarrow> (nat \<times> slot) option" where
  "slot_candidate slots buffer =
     min_by_key (\<lambda>(_, slot). (slot_capacity_bytes slot, slot_root slot))
       (filter (\<lambda>(_, slot). slot_layout slot = bp_layout buffer \<and> slot_capacity_bytes slot \<ge> bp_capacity_bytes buffer)
         (filter (\<lambda>(_, slot). slot_available_after slot < bp_producer buffer) (enumerate_list slots)))"

definition assign_alias :: "slot list \<times> buffer_plan list \<Rightarrow> buffer_plan \<Rightarrow> slot list \<times> buffer_plan list" where
  "assign_alias state buffer =
     (case slot_candidate (fst state) buffer of
        Some (i, slot) \<Rightarrow>
          ((fst state)[i := slot\<lparr>slot_available_after := bp_last_consumer buffer\<rparr>],
           snd state @ [buffer\<lparr>bp_aliases := Some (slot_root slot)\<rparr>])
      | None \<Rightarrow>
          (fst state @
             [\<lparr>slot_root = bp_id buffer, slot_layout = bp_layout buffer, slot_capacity_bytes = bp_capacity_bytes buffer,
               slot_available_after = bp_last_consumer buffer\<rparr>],
           snd state @ [buffer]))"

definition assign_aliases :: "buffer_plan list \<Rightarrow> buffer_plan list" where
  "assign_aliases buffers = snd (foldl assign_alias ([], []) buffers)"

section \<open>Sharing is safe\<close>

text \<open>
  The state of the sharing loop. Each slot stands for the storage of an earlier buffer that owns it,
  and the buffers placed in it so far were live one after the other, the last until
  \<open>slot_available_after\<close>.
\<close>

definition dense_buffers :: "buffer_plan list \<Rightarrow> bool" where
  "dense_buffers buffers \<longleftrightarrow> (\<forall>i < length buffers. unat (bp_id (buffers ! i)) = i)"

definition placed_in :: "buffer_id \<Rightarrow> buffer_plan list \<Rightarrow> buffer_plan list" where
  "placed_in r buffers = filter (\<lambda>b. storage_root b = r) buffers"

definition in_turn :: "buffer_plan list \<Rightarrow> bool" where
  "in_turn = sorted_wrt (\<lambda>a b. bp_last_consumer a < bp_producer b)"

definition slot_ok :: "buffer_plan list \<Rightarrow> slot \<Rightarrow> bool" where
  "slot_ok buffers slot \<longleftrightarrow>
     unat (slot_root slot) < length buffers \<and>
     (let owner = buffers ! unat (slot_root slot)
      in bp_id owner = slot_root slot \<and> bp_aliases owner = None \<and> slot_layout slot = bp_layout owner \<and>
         slot_capacity_bytes slot = bp_capacity_bytes owner) \<and>
     in_turn (placed_in (slot_root slot) buffers) \<and>
     (\<forall>b \<in> set (placed_in (slot_root slot) buffers). bp_last_consumer b \<le> slot_available_after slot)"

definition alias_ok :: "buffer_plan list \<Rightarrow> buffer_plan \<Rightarrow> bool" where
  "alias_ok buffers b \<longleftrightarrow>
     (\<forall>a. bp_aliases b = Some a \<longrightarrow> unat a < length buffers \<and> a < bp_id b \<and>
        (let owner = buffers ! unat a
         in bp_aliases owner = None \<and> bp_layout owner = bp_layout b \<and> bp_capacity_bytes b \<le> bp_capacity_bytes owner))"

definition sharing_state :: "buffer_plan list \<Rightarrow> slot list \<times> buffer_plan list \<Rightarrow> bool" where
  "sharing_state pre state \<longleftrightarrow>
     list_all2 (\<lambda>b b'. \<exists>a. b' = b\<lparr>bp_aliases := a\<rparr>) pre (snd state) \<and>
     distinct (map slot_root (fst state)) \<and> (\<forall>slot \<in> set (fst state). slot_ok (snd state) slot) \<and>
     (\<forall>b \<in> set (snd state). storage_root b \<in> slot_root ` set (fst state) \<and> alias_ok (snd state) b)"

lemma slot_candidate_SomeD:
  assumes "slot_candidate slots buffer = Some (i, slot)"
  shows "i < length slots" "slot = slots ! i" "slot_available_after slot < bp_producer buffer"
    "slot_layout slot = bp_layout buffer" "bp_capacity_bytes buffer \<le> slot_capacity_bytes slot"
  using assms [unfolded slot_candidate_def, THEN min_by_key_SomeD] by (auto simp: set_enumerate_list)

lemma placed_in_snoc: "placed_in r (buffers @ [b]) = placed_in r buffers @ (if storage_root b = r then [b] else [])"
  by (simp add: placed_in_def)

lemma alias_ok_snoc: "alias_ok buffers b \<Longrightarrow> alias_ok (buffers @ [c]) b"
  by (auto simp: alias_ok_def nth_append)

lemma slot_ok_snoc_other:
  "slot_ok buffers slot \<Longrightarrow> storage_root b \<noteq> slot_root slot \<Longrightarrow> slot_ok (buffers @ [b]) slot"
  by (simp add: slot_ok_def nth_append placed_in_snoc)

lemma slot_ok_snoc_placed:
  assumes "slot_ok buffers slot" and "storage_root b = slot_root slot" and "slot_available_after slot < bp_producer b"
    and "bp_producer b < bp_last_consumer b"
  shows "slot_ok (buffers @ [b]) (slot\<lparr>slot_available_after := bp_last_consumer b\<rparr>)"
proof -
  have before: "bp_last_consumer c < bp_producer b" if "c \<in> set (placed_in (slot_root slot) buffers)" for c
    using assms(1,3) that by (auto simp: slot_ok_def)
  then have "bp_last_consumer c \<le> bp_last_consumer b" if "c \<in> set (placed_in (slot_root slot) buffers)" for c
    using that assms(4) by force
  with assms before show ?thesis
    by (auto simp: slot_ok_def nth_append placed_in_snoc in_turn_def sorted_wrt_append)
qed

lemma sharing_state_reuse:
  assumes state: "sharing_state pre (slots, out)" and cand: "slot_candidate slots b = Some (i, slot)"
    and b: "unat (bp_id b) = length pre" "bp_producer b < bp_last_consumer b"
  shows "sharing_state (pre @ [b])
    (slots[i := slot\<lparr>slot_available_after := bp_last_consumer b\<rparr>], out @ [b\<lparr>bp_aliases := Some (slot_root slot)\<rparr>])"
proof -
  let ?b = "b\<lparr>bp_aliases := Some (slot_root slot)\<rparr>" and ?slot = "slot\<lparr>slot_available_after := bp_last_consumer b\<rparr>"
  note c = slot_candidate_SomeD [OF cand]
  have len: "length out = length pre" using state by (auto simp: sharing_state_def list_all2_lengthD)
  have slot: "slot_ok out slot" "slot \<in> set slots" using state c by (auto simp: sharing_state_def)
  then have root: "unat (slot_root slot) < length out" by (simp add: slot_ok_def)
  have roots: "map slot_root (slots[i := ?slot]) = map slot_root slots"
    using c by (simp add: map_update list_update_same_conv)
  have "slot_ok (out @ [?b]) s" if "s \<in> set (slots[i := ?slot])" for s
  proof (cases "s = ?slot")
    case True
    then show ?thesis using slot_ok_snoc_placed [OF slot(1), of ?b] c b by (simp add: storage_root_def)
  next
    case False
    from that obtain j where j: "j < length slots" "s = slots[i := ?slot] ! j" by (auto simp: in_set_conv_nth)
    with False have "j \<noteq> i" by auto
    with j have s: "s = slots ! j" by simp
    have "distinct (map slot_root slots)" using state by (simp add: sharing_state_def)
    then have "slot_root s \<noteq> slot_root slot"
      using \<open>j \<noteq> i\<close> j(1) c(1,2) s by (auto simp: distinct_conv_nth)
    moreover have "slot_ok out s" using state s j(1) by (auto simp: sharing_state_def)
    ultimately show ?thesis by (intro slot_ok_snoc_other) (auto simp: storage_root_def)
  qed
  moreover have "alias_ok (out @ [?b]) ?b"
  proof -
    have "slot_root slot < bp_id b" using root len b(1) by (simp add: word_less_nat_alt)
    with slot(1) c root show ?thesis by (auto simp: alias_ok_def slot_ok_def Let_def nth_append)
  qed
  moreover have "storage_root x \<in> slot_root ` set (slots[i := ?slot])" if "x \<in> set (out @ [?b])" for x
  proof -
    have "slot_root ` set (slots[i := ?slot]) = slot_root ` set slots" using roots by (metis set_map)
    with that state slot(2) show ?thesis by (auto simp: sharing_state_def storage_root_def)
  qed
  moreover have "list_all2 (\<lambda>b b'. \<exists>a. b' = b\<lparr>bp_aliases := a\<rparr>) (pre @ [b]) (out @ [?b])"
    using state by (auto simp: sharing_state_def intro!: list_all2_appendI)
  ultimately show ?thesis
    using state roots by (auto simp: sharing_state_def intro: alias_ok_snoc)
qed

lemma sharing_state_fresh:
  assumes state: "sharing_state pre (slots, out)"
    and b: "unat (bp_id b) = length pre" "bp_aliases b = None"
  defines "slot \<equiv> \<lparr>slot_root = bp_id b, slot_layout = bp_layout b, slot_capacity_bytes = bp_capacity_bytes b,
    slot_available_after = bp_last_consumer b\<rparr>"
  shows "sharing_state (pre @ [b]) (slots @ [slot], out @ [b])"
proof -
  have len: "length out = length pre" using state by (auto simp: sharing_state_def list_all2_lengthD)
  have low: "unat (slot_root s) < length pre" if "s \<in> set slots" for s
    using state that len by (auto simp: sharing_state_def slot_ok_def)
  then have fresh: "bp_id b \<notin> slot_root ` set slots"
    using b(1) by force
  have root: "storage_root b = bp_id b" using b(2) by (simp add: storage_root_def)
  have "storage_root x \<noteq> bp_id b" if "x \<in> set out" for x
  proof -
    have "storage_root x \<in> slot_root ` set slots" using state that by (simp add: sharing_state_def)
    with fresh show ?thesis by metis
  qed
  then have "placed_in (bp_id b) out = []" by (simp add: placed_in_def filter_empty_conv)
  then have "slot_ok (out @ [b]) slot"
    using b len root by (simp add: slot_ok_def slot_def nth_append placed_in_snoc in_turn_def)
  moreover have "slot_ok (out @ [b]) s" if "s \<in> set slots" for s
    using state that fresh root by (intro slot_ok_snoc_other) (auto simp: sharing_state_def)
  moreover have "alias_ok (out @ [b]) b" using b(2) by (simp add: alias_ok_def)
  moreover have "list_all2 (\<lambda>b b'. \<exists>a. b' = b\<lparr>bp_aliases := a\<rparr>) (pre @ [b]) (out @ [b])"
    using state by (auto simp: sharing_state_def intro!: list_all2_appendI exI [of _ "bp_aliases b"])
  ultimately show ?thesis
    using state fresh root by (auto simp: sharing_state_def slot_def intro: alias_ok_snoc)
qed

lemma assign_aliases_sharing:
  assumes "dense_buffers buffers" and "\<forall>b \<in> set buffers. bp_aliases b = None \<and> bp_producer b < bp_last_consumer b"
  shows "sharing_state buffers (foldl assign_alias ([], []) buffers)"
  using assms
proof (induction buffers rule: rev_induct)
  case Nil
  then show ?case by (simp add: sharing_state_def)
next
  case (snoc b buffers)
  have "dense_buffers buffers" and b: "unat (bp_id b) = length buffers"
    using snoc.prems(1) by (auto simp: dense_buffers_def nth_append split: if_splits)
  then have IH: "sharing_state buffers (foldl assign_alias ([], []) buffers)"
    using snoc by simp
  obtain slots out where state: "foldl assign_alias ([], []) buffers = (slots, out)" by fastforce
  then have step: "foldl assign_alias ([], []) (buffers @ [b]) = assign_alias (slots, out) b" by simp
  show ?case
    unfolding step using sharing_state_reuse [OF IH [unfolded state] _ b] sharing_state_fresh [OF IH [unfolded state] b] snoc.prems(2)
    by (auto simp: assign_alias_def split: option.splits)
qed

lemma in_turn_intervals:
  assumes "in_turn bs" and "\<forall>b \<in> set bs. bp_producer b < bp_last_consumer b"
  defines "ivs \<equiv> map (\<lambda>b. (bp_producer b, bp_last_consumer b)) bs"
  shows "\<forall>(a, b) \<in> set (windows2 (sort ivs)). snd a < fst b"
proof -
  have "sorted_wrt (\<lambda>a b. snd a < fst b) ivs"
    using assms(1) by (simp add: ivs_def in_turn_def sorted_wrt_map)
  moreover have "\<forall>x \<in> set ivs. fst x < snd x"
    using assms(2) by (auto simp: ivs_def)
  ultimately have "sorted ivs \<and> (\<forall>(a, b) \<in> set (windows2 ivs). snd a < fst b)"
  proof (induction ivs rule: windows2.induct)
    case (1 x y zs)
    have "x \<le> z" if "z \<in> set (y # zs)" for z
      using "1.prems" that by (cases x; cases z) (fastforce simp: less_eq_prod_def)
    with 1 show ?case by simp
  qed auto
  then show ?thesis by (simp add: sorted_sort_id)
qed

text \<open>The decoder's test on shared storage passes.\<close>

lemma assign_aliases_checked:
  assumes "dense_buffers buffers" and "\<forall>b \<in> set buffers. bp_aliases b = None \<and> bp_producer b < bp_last_consumer b"
    and "p_buffers plan = assign_aliases buffers"
  shows "check_aliases plan = Ok ()"
proof -
  obtain slots out where fold: "foldl assign_alias ([], []) buffers = (slots, out)" by fastforce
  then have out: "p_buffers plan = out" using assms(3) by (simp add: assign_aliases_def)
  have state: "sharing_state buffers (slots, out)" using assign_aliases_sharing [OF assms(1,2)] fold by simp
  have ordered: "\<forall>b \<in> set out. bp_producer b < bp_last_consumer b"
    using state assms(2) by (fastforce simp: sharing_state_def list_all2_conv_all_nth in_set_conv_nth)
  have "\<forall>(a, b) \<in> set (windows2 (sort ivs)). snd a < fst b" if "ivs \<in> set (bt_values (alias_intervals plan))" for ivs
  proof -
    have "bt_wf (fold (\<lambda>buffer. bt_push (storage_root buffer) (bp_producer buffer, bp_last_consumer buffer)) bs m)"
      if "bt_wf m" for bs and m :: "(buffer_id, (step_id \<times> step_id) list) btree_map"
      using that by (induction bs arbitrary: m) simp_all
    then have "bt_wf (alias_intervals plan)" by (simp add: alias_intervals_def bt_empty_def)
    with that obtain r where r: "bt_get (alias_intervals plan) r = Some ivs"
      by (auto simp: bt_values_def bt_get_def bt_wf_def strict_sorted_iff)
    then have ivs: "ivs = map (\<lambda>b. (bp_producer b, bp_last_consumer b)) (placed_in r out)" and "placed_in r out \<noteq> []"
      unfolding alias_intervals_def out
      by (auto simp: alias_intervals_get bt_empty_def placed_in_def split: if_splits) (auto simp: bt_get_def)
    then obtain b where "b \<in> set out" "storage_root b = r"
      by (auto simp: placed_in_def filter_empty_conv)
    then have "r \<in> slot_root ` set slots" using state by (auto simp: sharing_state_def)
    then obtain slot where "slot \<in> set slots" "slot_root slot = r" by blast
    then have "in_turn (placed_in r out)" using state by (auto simp: sharing_state_def slot_ok_def)
    then show ?thesis
      unfolding ivs by (rule in_turn_intervals) (use ordered in \<open>auto simp: placed_in_def\<close>)
  qed
  then show ?thesis by (fastforce simp: check_aliases_def guard_def)
qed

section \<open>Renumbering is a renaming\<close>

fun rename_input :: "(buffer_id \<Rightarrow> buffer_id) \<Rightarrow> input_binding \<Rightarrow> input_binding" where
  "rename_input \<rho> (InBuffer b) = InBuffer (\<rho> b)"
| "rename_input \<rho> binding = binding"

fun rename_output :: "(buffer_id \<Rightarrow> buffer_id) \<Rightarrow> output_binding \<Rightarrow> output_binding" where
  "rename_output \<rho> (OutBuffer b) = OutBuffer (\<rho> b)"
| "rename_output \<rho> Terminal = Terminal"

definition rename_node :: "(buffer_id \<Rightarrow> buffer_id) \<Rightarrow> compiled_node \<Rightarrow> compiled_node" where
  "rename_node \<rho> node =
     node\<lparr>cn_input_bindings := map (rename_input \<rho>) (cn_input_bindings node),
          cn_output_bindings := map (rename_output \<rho>) (cn_output_bindings node)\<rparr>"

definition bindings_below :: "nat \<Rightarrow> compiled_node \<Rightarrow> bool" where
  "bindings_below n node \<longleftrightarrow>
     (\<forall>b. InBuffer b \<in> set (cn_input_bindings node) \<longrightarrow> unat b < n) \<and>
     (\<forall>b. OutBuffer b \<in> set (cn_output_bindings node) \<longrightarrow> unat b < n)"

lemma try_map_Ok: "(\<And>x. x \<in> set xs \<Longrightarrow> f x = Ok (g x)) \<Longrightarrow> try_map f xs = Ok (map g xs)"
  by (induction xs) auto

lemma remap_node_Ok:
  assumes "\<And>b. unat b < n \<Longrightarrow> bt_get remap b = Some (\<rho> b)" and "bindings_below n node"
  shows "remap_node remap node = Ok (rename_node \<rho> node)"
proof -
  have "remap_input remap x = Ok (rename_input \<rho> x)" if "x \<in> set (cn_input_bindings node)" for x
    using assms that by (cases x) (auto simp: bindings_below_def)
  moreover have "remap_output remap x = Ok (rename_output \<rho> x)" if "x \<in> set (cn_output_bindings node)" for x
    using assms that by (cases x) (auto simp: bindings_below_def)
  ultimately show ?thesis
    by (simp add: remap_node_def rename_node_def try_map_Ok)
qed

lemma buffer_order_permutes: "mset (buffer_order buffers) = mset [0..<length buffers]" "length (buffer_order buffers) = length buffers"
  "set (buffer_order buffers) = {0..<length buffers}" "distinct (buffer_order buffers)"
proof -
  show m: "mset (buffer_order buffers) = mset [0..<length buffers]" by (simp add: buffer_order_def)
  then show "length (buffer_order buffers) = length buffers" "set (buffer_order buffers) = {0..<length buffers}"
    by (metis diff_zero length_upt size_mset, metis set_mset_mset set_upt)
  show "distinct (buffer_order buffers)" by (metis m distinct_upt mset_eq_imp_distinct_iff)
qed

definition new_number :: "buffer_plan list \<Rightarrow> buffer_id \<Rightarrow> nat" where
  "new_number buffers b = (THE i. i < length buffers \<and> buffer_order buffers ! i = unat b)"

lemma new_number:
  assumes "unat b < length buffers"
  shows "new_number buffers b < length buffers" "buffer_order buffers ! new_number buffers b = unat b"
    and "i < length buffers \<Longrightarrow> buffer_order buffers ! i = unat b \<Longrightarrow> new_number buffers b = i"
proof -
  have ex: "\<exists>!i. i < length buffers \<and> buffer_order buffers ! i = unat b"
    using assms buffer_order_permutes [of buffers] by (metis atLeastLessThan_iff distinct_Ex1 zero_le)
  from theI' [OF this] show "new_number buffers b < length buffers" "buffer_order buffers ! new_number buffers b = unat b"
    by (simp_all add: new_number_def)
  with ex show "i < length buffers \<Longrightarrow> buffer_order buffers ! i = unat b \<Longrightarrow> new_number buffers b = i" by metis
qed

lemma buffer_remap_get:
  assumes "dense_buffers buffers" and "unat b < length buffers"
  shows "bt_get (buffer_remap buffers) b = Some (word_of_nat (new_number buffers b))"
proof -
  let ?xs = "map (\<lambda>(new, old). (bp_id (buffers ! old), word_of_nat new)) (enumerate_list (buffer_order buffers)) :: (buffer_id \<times> buffer_id) list"
  note perm = buffer_order_permutes [of buffers]
  have fsts: "map fst ?xs = map (\<lambda>old. bp_id (buffers ! old)) (buffer_order buffers)"
    by (rule nth_equalityI) (simp_all add: enumerate_list_def)
  have "inj_on (\<lambda>old. bp_id (buffers ! old)) (set (buffer_order buffers))"
    using assms(1) by (intro inj_onI) (metis atLeastLessThan_iff dense_buffers_def perm(3))
  then have "distinct (map fst ?xs)" unfolding fsts using perm(4) by (simp add: distinct_map)
  moreover have "(b, word_of_nat (new_number buffers b)) \<in> set ?xs"
  proof -
    have "bp_id (buffers ! unat b) = b" using assms by (simp add: dense_buffers_def word_unat_eq_iff)
    moreover have "(new_number buffers b, unat b) \<in> set (enumerate_list (buffer_order buffers))"
      using new_number(1,2) [OF assms(2)] perm(2) by (simp add: set_enumerate_list)
    ultimately show ?thesis unfolding set_map by (intro image_eqI [where x = "(new_number buffers b, unat b)"]) auto
  qed
  ultimately show ?thesis
    unfolding buffer_remap_def by (simp add: bt_get_collect_distinct)
qed

text \<open>
  Renumbering a plan whose buffers are numbered by position renames every binding by one bijection
  and moves each buffer, otherwise unchanged, to the position of its new number.
\<close>

lemma canonicalize_buffers_renames:
  assumes dense: "dense_buffers buffers" and small: "length buffers \<le> 2 ^ 32"
    and below: "\<forall>node \<in> set nodes. bindings_below (length buffers) node"
  obtains \<rho> buffers' where "canonicalize_buffers nodes buffers = Ok (map (rename_node \<rho>) nodes, buffers')"
    and "dense_buffers buffers'" and "length buffers' = length buffers"
    and "\<And>b. unat b < length buffers \<Longrightarrow> unat (\<rho> b) < length buffers \<and>
           buffers' ! unat (\<rho> b) = (buffers ! unat b)\<lparr>bp_id := \<rho> b, bp_aliases := None\<rparr>"
    and "inj_on \<rho> {b. unat b < length buffers}"
    and "\<And>i. i < length buffers \<Longrightarrow> \<exists>b. unat b < length buffers \<and> unat (\<rho> b) = i"
proof -
  define \<rho> :: "buffer_id \<Rightarrow> buffer_id" where "\<rho> b = word_of_nat (new_number buffers b)" for b
  define buffers' where "buffers' = map (\<lambda>(new, old). (buffers ! old)\<lparr>bp_id := word_of_nat new, bp_aliases := None\<rparr>)
    (enumerate_list (buffer_order buffers))"
  note perm = buffer_order_permutes [of buffers]
  have num: "unat (\<rho> b) = new_number buffers b" if "unat b < length buffers" for b
    using new_number(1) [OF that] small by (simp add: \<rho>_def unat_of_nat take_bit_nat_eq_self)
  have nth: "buffers' ! i = (buffers ! (buffer_order buffers ! i))\<lparr>bp_id := word_of_nat i, bp_aliases := None\<rparr>"
    if "i < length buffers" for i
    using that perm(2) by (simp add: buffers'_def enumerate_list_def)
  have len: "length buffers' = length buffers" by (simp add: buffers'_def enumerate_list_def perm(2))
  have "remap_node (buffer_remap buffers) node = Ok (rename_node \<rho> node)" if "node \<in> set nodes" for node
    by (rule remap_node_Ok [where n = "length buffers"]) (use below that in \<open>auto simp: buffer_remap_get [OF dense] \<rho>_def\<close>)
  then have result: "canonicalize_buffers nodes buffers = Ok (map (rename_node \<rho>) nodes, buffers')"
    by (simp add: canonicalize_buffers_def try_map_Ok buffers'_def)
  have dense': "dense_buffers buffers'"
    using small by (simp add: dense_buffers_def len nth unat_of_nat take_bit_nat_eq_self)
  have moved: "unat (\<rho> b) < length buffers \<and> buffers' ! unat (\<rho> b) = (buffers ! unat b)\<lparr>bp_id := \<rho> b, bp_aliases := None\<rparr>"
    if "unat b < length buffers" for b
    using new_number(1,2) [OF that] by (simp add: num [OF that] nth) (simp add: \<rho>_def)
  have inj: "inj_on \<rho> {b. unat b < length buffers}"
    by (intro inj_onI) (metis mem_Collect_eq new_number(2) num word_unat_eq_iff)
  have onto: "\<exists>b. unat b < length buffers \<and> unat (\<rho> b) = i" if "i < length buffers" for i
  proof -
    have old: "buffer_order buffers ! i < length buffers" using perm that by (metis atLeastLessThan_iff nth_mem)
    define b :: buffer_id where "b = word_of_nat (buffer_order buffers ! i)"
    have b: "unat b = buffer_order buffers ! i" using old small by (simp add: b_def unat_of_nat take_bit_nat_eq_self)
    with old have range: "unat b < length buffers" by simp
    then have "unat (\<rho> b) = i" using new_number(3) [OF range that] b num [OF range] by simp
    with range show ?thesis by blast
  qed
  from that [OF result dense' len moved inj onto] show thesis .
qed

end
