(* ===== verification/Propagate.thy ===== *)
theory Propagate
  imports Topology
begin

text \<open>
  \<open>propagate_contracts\<close> of \<open>compile.rs\<close>: one forward pass over the topological order that carries
  proofs (met by intersection), policy labels (joined by union) and fidelity (the minimum) along
  the edges, and checks each node's requirements. The specification is by paths: what is known
  after a node is what holds after every path that reaches it.
\<close>

section \<open>The pass\<close>

record flow =
  fl_proofs :: "string set"
  fl_policy :: "string set"
  fl_fidelity :: u16

definition initial_flow :: "graph \<Rightarrow> flow" where
  "initial_flow g = \<lparr>fl_proofs = set (g_required_proofs g), fl_policy = set (g_policy g), fl_fidelity = 65535\<rparr>"

definition predecessor_map :: "edge list \<Rightarrow> (node_id, node_id list) btree_map" where
  "predecessor_map edges =
     map (\<lambda>(k, vs). (k, sort_dedup vs))
       (fold (\<lambda>e. bt_push (pr_node (edge_to e)) (pr_node (edge_from e))) edges bt_empty)"

definition has_successor :: "edge list \<Rightarrow> node_id set" where
  "has_successor edges = set (map (\<lambda>e. pr_node (edge_from e)) edges)"

definition join_flow :: "flow \<Rightarrow> flow \<Rightarrow> flow" where
  "join_flow s t =
     \<lparr>fl_proofs = fl_proofs s \<inter> fl_proofs t, fl_policy = fl_policy s \<union> fl_policy t,
      fl_fidelity = min (fl_fidelity s) (fl_fidelity t)\<rparr>"

type_synonym flows = "(node_id, flow) btree_map"

definition join_states :: "flows \<Rightarrow> node_id \<Rightarrow> node_id list \<Rightarrow> (compile_error, flow) outcome" where
  "join_states states first rest =
     and_then (expect (bt_get states first))
       (\<lambda>s. try_fold (\<lambda>joined p. and_then (expect (bt_get states p)) (\<lambda>t. Ok (join_flow joined t))) s rest)"

definition incoming_flow :: "graph \<Rightarrow> flows \<Rightarrow> node_id list \<Rightarrow> (compile_error, flow) outcome" where
  "incoming_flow g states preds =
     (case preds of [] \<Rightarrow> Ok (initial_flow g) | first # rest \<Rightarrow> join_states states first rest)"

definition check_requirements :: "node_id \<Rightarrow> node_descriptor \<Rightarrow> flow \<Rightarrow> (compile_error, unit) outcome" where
  "check_requirements i d state =
     (case List.find (\<lambda>r. r \<notin> fl_proofs state) (prf_requires (nd_proof d)) of
        Some r \<Rightarrow> Err (ProofMissing i r)
      | None \<Rightarrow>
          (case List.find (\<lambda>r. r \<notin> fl_policy state) (pol_requires (nd_policy d)) of
             Some r \<Rightarrow> Err (PolicyMissing i r)
           | None \<Rightarrow> guard (fl_fidelity state < fid_minimum_input (nd_fidelity d)) (FidelityInsufficient i)))"

definition transfer :: "node_descriptor \<Rightarrow> flow \<Rightarrow> flow" where
  "transfer d s =
     \<lparr>fl_proofs = (fl_proofs s - set (prf_invalidates (nd_proof d))) \<union> set (prf_provides (nd_proof d)),
      fl_policy = fl_policy s \<union> set (pol_adds (nd_policy d)),
      fl_fidelity = u16_saturating_sub (fl_fidelity s) (fid_maximum_loss (nd_fidelity d))\<rparr>"

type_synonym descriptor_map = "(node_id, node_descriptor) btree_map"

definition propagate_node ::
    "graph \<Rightarrow> descriptor_map \<Rightarrow> flows \<Rightarrow> node_id \<Rightarrow> (compile_error, flows) outcome" where
  "propagate_node g descriptors states i =
     and_then (expect (bt_get descriptors i)) (\<lambda>d.
     and_then (incoming_flow g states (successors_of (predecessor_map (g_edges g)) i)) (\<lambda>state.
     and_then (check_requirements i d state) (\<lambda>_.
     Ok (bt_insert i (transfer d state) states))))"

definition propagate_contracts ::
    "graph \<Rightarrow> node_id list \<Rightarrow> descriptor_map \<Rightarrow> (compile_error, string list \<times> string list \<times> u16) outcome" where
  "propagate_contracts g order descriptors =
     and_then (try_fold (propagate_node g descriptors) bt_empty order) (\<lambda>states.
     case filter (\<lambda>i. i \<notin> has_successor (g_edges g)) order of
       [] \<Rightarrow> Panic
     | first # terminals \<Rightarrow>
         and_then (join_states states first terminals) (\<lambda>r.
         if fl_fidelity r < g_minimum_fidelity g
         then and_then (expect (last_opt order)) (\<lambda>i. Err (FidelityInsufficient i))
         else Ok (sorted_list_of_set (fl_proofs r), sorted_list_of_set (fl_policy r), fl_fidelity r)))"

section \<open>Specification by paths\<close>

text \<open>
  A path of the graph from an entry node (one without predecessors); \<open>path_flow\<close> is what holds after
  executing the nodes of a path in sequence.
\<close>

inductive entry_path :: "graph \<Rightarrow> node_id list \<Rightarrow> bool" for g where
  entry: "v \<in> graph_node_ids g \<Longrightarrow> (\<And>u. (u, v) \<notin> node_dependencies g) \<Longrightarrow> entry_path g [v]"
| step: "entry_path g (path @ [u]) \<Longrightarrow> (u, v) \<in> node_dependencies g \<Longrightarrow> entry_path g (path @ [u, v])"

definition path_flow :: "graph \<Rightarrow> descriptor_map \<Rightarrow> node_id list \<Rightarrow> flow" where
  "path_flow g descriptors path =
     fold (\<lambda>i s. case bt_get descriptors i of Some d \<Rightarrow> transfer d s | None \<Rightarrow> s) path (initial_flow g)"

text \<open>\<open>s\<close> is the exact meet of a non-empty family of flows.\<close>

definition meet_of :: "flow \<Rightarrow> flow set \<Rightarrow> bool" where
  "meet_of s F \<longleftrightarrow> F \<noteq> {} \<and> fl_proofs s = \<Inter> (fl_proofs ` F) \<and> fl_policy s = \<Union> (fl_policy ` F) \<and>
     fl_fidelity s \<in> fl_fidelity ` F \<and> (\<forall>t\<in>F. fl_fidelity s \<le> fl_fidelity t)"

definition flows_into :: "graph \<Rightarrow> descriptor_map \<Rightarrow> node_id \<Rightarrow> flow set" where
  "flows_into g ds v = {path_flow g ds path |path. entry_path g (path @ [v])}"

definition flows_after :: "graph \<Rightarrow> descriptor_map \<Rightarrow> node_id \<Rightarrow> flow set" where
  "flows_after g ds v = {path_flow g ds (path @ [v]) |path. entry_path g (path @ [v])}"

lemma meet_of_singleton [simp]: "meet_of s {s}"
  by (simp add: meet_of_def)

lemma meet_of_join:
  assumes "meet_of s F" and "meet_of t H"
  shows "meet_of (join_flow s t) (F \<union> H)"
proof -
  have "fl_fidelity (join_flow s t) \<in> fl_fidelity ` (F \<union> H)"
    using assms by (auto simp: meet_of_def join_flow_def min_def)
  moreover have "\<forall>u\<in>F \<union> H. fl_fidelity (join_flow s t) \<le> fl_fidelity u"
    using assms by (auto simp: meet_of_def join_flow_def min_le_iff_disj)
  ultimately show ?thesis
    using assms by (auto simp: meet_of_def join_flow_def)
qed

lemma u16_saturating_sub_mono: "a \<le> b \<Longrightarrow> u16_saturating_sub a c \<le> u16_saturating_sub b c"
  by (simp add: word_le_nat_alt unat_u16_saturating_sub)

lemma meet_of_transfer:
  assumes "meet_of s F"
  shows "meet_of (transfer d s) (transfer d ` F)"
proof -
  obtain t where "t \<in> F" and "fl_fidelity s = fl_fidelity t"
    using assms by (auto simp: meet_of_def)
  then have "fl_fidelity (transfer d s) \<in> fl_fidelity ` transfer d ` F"
    by (auto simp: transfer_def image_image)
  moreover have "\<forall>u\<in>transfer d ` F. fl_fidelity (transfer d s) \<le> fl_fidelity u"
    using assms u16_saturating_sub_mono by (auto simp: meet_of_def transfer_def)
  moreover have "fl_proofs (transfer d s) = \<Inter> (fl_proofs ` transfer d ` F)"
    and "fl_policy (transfer d s) = \<Union> (fl_policy ` transfer d ` F)" and "transfer d ` F \<noteq> {}"
    using assms by (auto simp: meet_of_def transfer_def)
  ultimately show ?thesis by (simp add: meet_of_def)
qed

lemma meet_of_unique: "meet_of s F \<Longrightarrow> meet_of t F \<Longrightarrow> s = t"
  by (auto simp: meet_of_def intro!: flow.equality antisym)

definition requirements_met :: "node_descriptor \<Rightarrow> flow set \<Rightarrow> bool" where
  "requirements_met d F \<longleftrightarrow>
     (\<forall>f\<in>F. set (prf_requires (nd_proof d)) \<subseteq> fl_proofs f \<and> fid_minimum_input (nd_fidelity d) \<le> fl_fidelity f) \<and>
     set (pol_requires (nd_policy d)) \<subseteq> \<Union> (fl_policy ` F)"

lemma check_requirements_iff:
  assumes "meet_of s F"
  shows "check_requirements i d s = (Ok ()) \<longleftrightarrow> requirements_met d F"
proof -
  have "check_requirements i d s = (Ok ()) \<longleftrightarrow>
      set (prf_requires (nd_proof d)) \<subseteq> fl_proofs s \<and> set (pol_requires (nd_policy d)) \<subseteq> fl_policy s \<and>
      fid_minimum_input (nd_fidelity d) \<le> fl_fidelity s"
    by (auto simp: check_requirements_def guard_def not_less find_None_iff split: option.splits
        dest!: find_SomeD)
  moreover have "c \<le> fl_fidelity s \<longleftrightarrow> (\<forall>f\<in>F. c \<le> fl_fidelity f)" for c
    using assms by (auto simp: meet_of_def intro: order_trans)
  moreover have "X \<subseteq> fl_proofs s \<longleftrightarrow> (\<forall>f\<in>F. X \<subseteq> fl_proofs f)" for X
    using assms by (auto simp: meet_of_def)
  moreover have "fl_policy s = \<Union> (fl_policy ` F)"
    using assms by (simp add: meet_of_def)
  ultimately show ?thesis by (auto simp: requirements_met_def)
qed

lemma check_requirements_not_Panic: "check_requirements i d s \<noteq> Panic"
  by (simp add: check_requirements_def guard_def split: option.splits)

section \<open>Predecessors and paths\<close>

lemma successors_of_push_fold:
  assumes "bt_wf m"
  shows "successors_of (fold (\<lambda>e. bt_push (key e) (val e)) es m) k =
           successors_of m k @ map val (filter (\<lambda>e. key e = k) es)"
  using assms by (induction es arbitrary: m) (auto simp: successors_of_push)

lemma predecessor_map_set:
  "set (successors_of (predecessor_map es) v) = {u. (u, v) \<in> edge_pair ` set es}"
proof -
  have "successors_of (map (\<lambda>(k, vs). (k, sort_dedup vs)) m) k = sort_dedup (successors_of m k)" for m k
    by (simp add: successors_of_def bt_get_def map_of_map sort_dedup_def split: option.splits)
  then have "set (successors_of (predecessor_map es) v) =
      set (map (\<lambda>e. pr_node (edge_from e)) (filter (\<lambda>e. pr_node (edge_to e) = v) es))"
    by (simp add: predecessor_map_def successors_of_push_fold bt.wf_empty) (simp add: successors_of_def)
  then show ?thesis by (auto simp: edge_pair_def)
qed

lemma entry_path_snoc_iff:
  "entry_path g (path @ [v]) \<longleftrightarrow>
     (path = [] \<and> v \<in> graph_node_ids g \<and> (\<forall>u. (u, v) \<notin> node_dependencies g)) \<or>
     (\<exists>p u. path = p @ [u] \<and> entry_path g (p @ [u]) \<and> (u, v) \<in> node_dependencies g)"
proof
  assume "entry_path g (path @ [v])"
  then show "(path = [] \<and> v \<in> graph_node_ids g \<and> (\<forall>u. (u, v) \<notin> node_dependencies g)) \<or>
     (\<exists>p u. path = p @ [u] \<and> entry_path g (p @ [u]) \<and> (u, v) \<in> node_dependencies g)"
    by (cases rule: entry_path.cases) auto
next
  assume "(path = [] \<and> v \<in> graph_node_ids g \<and> (\<forall>u. (u, v) \<notin> node_dependencies g)) \<or>
     (\<exists>p u. path = p @ [u] \<and> entry_path g (p @ [u]) \<and> (u, v) \<in> node_dependencies g)"
  then show "entry_path g (path @ [v])"
  proof (elim disjE conjE exE)
    assume "path = []" and "v \<in> graph_node_ids g" and "\<forall>u. (u, v) \<notin> node_dependencies g"
    then show ?thesis using entry_path.entry [of v g] by simp
  next
    fix p u
    assume "path = p @ [u]" and "entry_path g (p @ [u])" and "(u, v) \<in> node_dependencies g"
    then show ?thesis using entry_path.step [of g p u v] by simp
  qed
qed

lemma flows_into_entry:
  assumes "v \<in> graph_node_ids g" and "\<And>u. (u, v) \<notin> node_dependencies g"
  shows "flows_into g ds v = {initial_flow g}"
  using assms by (auto simp: flows_into_def entry_path_snoc_iff [of g _ v] path_flow_def)

lemma flows_into_step:
  assumes "(u, v) \<in> node_dependencies g"
  shows "flows_into g ds v = (\<Union>u \<in> {u. (u, v) \<in> node_dependencies g}. flows_after g ds u)"
proof -
  have "entry_path g (path @ [v]) \<longleftrightarrow>
      (\<exists>p u. path = p @ [u] \<and> entry_path g (p @ [u]) \<and> (u, v) \<in> node_dependencies g)" for path
    using assms by (auto simp: entry_path_snoc_iff [of g path v])
  then show ?thesis by (auto simp: flows_into_def flows_after_def)
qed

lemma flows_after_transfer:
  "bt_get ds v = Some d \<Longrightarrow> flows_after g ds v = transfer d ` flows_into g ds v"
  by (auto simp: flows_after_def flows_into_def path_flow_def)

section \<open>The pass computes the meet over all paths\<close>

definition flows_ok :: "graph \<Rightarrow> descriptor_map \<Rightarrow> node_id set \<Rightarrow> flows \<Rightarrow> bool" where
  "flows_ok g ds D states \<longleftrightarrow>
     bt_wf states \<and> (\<forall>v\<in>D. \<exists>s. bt_get states v = Some s \<and> meet_of s (flows_after g ds v))"

lemma join_states_meet:
  assumes "flows_ok g ds D states" and "set (v # vs) \<subseteq> D"
  shows "\<exists>s. join_states states v vs = Ok s \<and> meet_of s (\<Union>u \<in> set (v # vs). flows_after g ds u)"
proof -
  let ?f = "\<lambda>joined p. and_then (expect (bt_get states p)) (\<lambda>t. Ok (join_flow joined t))"
  have fold: "\<exists>s'. try_fold ?f s vs = (Ok s' :: (compile_error, flow) outcome) \<and>
      meet_of s' (F \<union> (\<Union>u \<in> set vs. flows_after g ds u))"
    if "meet_of s F" and "set vs \<subseteq> D" for s F
    using that
  proof (induction vs arbitrary: s F)
    case (Cons w ws)
    obtain t where t: "bt_get states w = Some t" "meet_of t (flows_after g ds w)"
      using assms(1) Cons.prems(2) by (auto simp: flows_ok_def)
    with Cons.IH [OF meet_of_join [OF Cons.prems(1) t(2)]] Cons.prems(2) show ?case
      by (simp add: Un_assoc)
  qed simp
  obtain s where "bt_get states v = Some s" "meet_of s (flows_after g ds v)"
    using assms by (auto simp: flows_ok_def)
  with fold [of s "flows_after g ds v"] assms(2) show ?thesis
    by (simp add: join_states_def)
qed

lemma incoming_flow_meet:
  assumes ok: "flows_ok g ds D states" and "v \<in> graph_node_ids g"
    and preds: "\<And>u. (u, v) \<in> node_dependencies g \<Longrightarrow> u \<in> D"
  shows "\<exists>s. incoming_flow g states (successors_of (predecessor_map (g_edges g)) v) = Ok s \<and>
           meet_of s (flows_into g ds v)"
proof (cases "successors_of (predecessor_map (g_edges g)) v")
  case Nil
  then have "(u, v) \<notin> node_dependencies g" for u
    using predecessor_map_set [of "g_edges g" v] by (auto simp: node_dependencies_def)
  with Nil assms(2) show ?thesis
    by (simp add: incoming_flow_def flows_into_entry)
next
  case (Cons w ws)
  then have eq: "set (w # ws) = {u. (u, v) \<in> node_dependencies g}"
    using predecessor_map_set [of "g_edges g" v] by (simp add: node_dependencies_def)
  then have "set (w # ws) \<subseteq> D" and "(w, v) \<in> node_dependencies g"
    using preds by auto
  with join_states_meet [OF ok this(1)] show ?thesis
    by (simp add: Cons incoming_flow_def flows_into_step [of w] flip: eq)
qed

lemma propagate_node_flows:
  assumes ok: "flows_ok g ds D states" and "v \<in> graph_node_ids g" and d: "bt_get ds v = Some d"
    and preds: "\<And>u. (u, v) \<in> node_dependencies g \<Longrightarrow> u \<in> D"
  shows "if requirements_met d (flows_into g ds v)
         then \<exists>states'. propagate_node g ds states v = Ok states' \<and> flows_ok g ds (insert v D) states'
         else is_err (propagate_node g ds states v)"
proof -
  obtain s where inflow: "incoming_flow g states (successors_of (predecessor_map (g_edges g)) v) = Ok s"
    and s: "meet_of s (flows_into g ds v)"
    using incoming_flow_meet [OF ok assms(2) preds] by blast
  have "meet_of (transfer d s) (flows_after g ds v)"
    using meet_of_transfer [OF s, of d] by (simp add: flows_after_transfer [OF d])
  then have "flows_ok g ds (insert v D) (bt_insert v (transfer d s) states)"
    using ok by (auto simp: flows_ok_def bt_wf_insert bt_get_insert)
  moreover have "propagate_node g ds states v =
      and_then (check_requirements v d s) (\<lambda>_. Ok (bt_insert v (transfer d s) states))"
    by (simp add: propagate_node_def d inflow)
  ultimately show ?thesis
    using check_requirements_iff [OF s, of v d] check_requirements_not_Panic [of v d s]
    by (cases "check_requirements v d s") (simp_all add: is_err_def)
qed

lemma propagate_all:
  assumes topo: "topological_order g = Ok (pre @ vs)"
    and ds: "\<forall>v\<in>graph_node_ids g. \<exists>d. bt_get ds v = Some d"
    and "flows_ok g ds (set pre) states"
  shows "if \<forall>v\<in>set vs. requirements_met (the (bt_get ds v)) (flows_into g ds v)
         then \<exists>states'. try_fold (propagate_node g ds) states vs = Ok states' \<and> flows_ok g ds (set (pre @ vs)) states'
         else is_err (try_fold (propagate_node g ds) states vs)"
  using assms(1,3)
proof (induction vs arbitrary: pre states)
  case (Cons v vs)
  have v: "v \<in> graph_node_ids g"
    using topological_order_Ok_set [OF Cons.prems(1)] by auto
  with ds obtain d where d: "bt_get ds v = Some d" by blast
  have preds: "u \<in> set pre" if "(u, v) \<in> node_dependencies g" for u
    using topological_order_prefix [OF Cons.prems(1) that] .
  note step = propagate_node_flows [OF Cons.prems(2) v d preds]
  show ?case
  proof (cases "requirements_met d (flows_into g ds v)")
    case True
    with step obtain states' where "propagate_node g ds states v = Ok states'"
      and "flows_ok g ds (set (pre @ [v])) states'" by auto
    with Cons.IH [of "pre @ [v]" states'] Cons.prems(1) True d show ?thesis
      by (cases "\<forall>v\<in>set vs. requirements_met (the (bt_get ds v)) (flows_into g ds v)") auto
  next
    case False
    with step d show ?thesis by (cases "propagate_node g ds states v") (auto simp: is_err_def)
  qed
qed simp

definition exit_nodes :: "graph \<Rightarrow> node_id set" where
  "exit_nodes g = {v \<in> graph_node_ids g. \<forall>w. (v, w) \<notin> node_dependencies g}"

definition exit_flows :: "graph \<Rightarrow> descriptor_map \<Rightarrow> flow set" where
  "exit_flows g ds = (\<Union>v \<in> exit_nodes g. flows_after g ds v)"

lemma exit_nodes_order:
  assumes "topological_order g = Ok order"
  shows "set (filter (\<lambda>i. i \<notin> has_successor (g_edges g)) order) = exit_nodes g"
  using topological_order_Ok_set [OF assms]
  by (auto simp: has_successor_def exit_nodes_def node_dependencies_def edge_pair_def)

lemma exit_nodes_nonempty:
  assumes "topological_order g = Ok order" and "order \<noteq> []"
  shows "exit_nodes g \<noteq> {}"
proof -
  obtain pre v where order: "order = pre @ [v]" using assms(2) by (cases order rule: rev_cases) auto
  have "distinct order" and all: "set order = graph_node_ids g"
    using topological_order_Ok_set [OF assms(1)] by auto
  have "(v, w) \<notin> node_dependencies g" for w
  proof
    assume vw: "(v, w) \<in> node_dependencies g"
    then have "w \<in> set order"
      using assms(1) by (auto simp: all topological_order_Ok_iff dependencies_known_def Field_def)
    then obtain xs ys where split: "order = xs @ w # ys" by (auto simp: in_set_conv_decomp)
    with topological_order_prefix [of g xs w ys v] assms(1) vw have "v \<in> set xs" by simp
    moreover have "v = last (w # ys)"
      using order split last_appendR [of "w # ys" xs] last_snoc [of pre v] by simp
    then have "v \<in> set (w # ys)" using last_in_set [of "w # ys"] by simp
    ultimately show False using split \<open>distinct order\<close> by auto
  qed
  then show ?thesis using all order by (auto simp: exit_nodes_def)
qed

lemma propagate_contracts_cases:
  assumes topo: "topological_order g = Ok order" and "g_nodes g \<noteq> []"
    and ds: "\<forall>v\<in>graph_node_ids g. \<exists>d. bt_get ds v = Some d"
  shows "if \<forall>v\<in>graph_node_ids g. requirements_met (the (bt_get ds v)) (flows_into g ds v)
         then \<exists>r. meet_of r (exit_flows g ds) \<and>
           propagate_contracts g order ds =
             (if fl_fidelity r < g_minimum_fidelity g then Err (FidelityInsufficient (last order))
              else Ok (sorted_list_of_set (fl_proofs r), sorted_list_of_set (fl_policy r), fl_fidelity r))
         else is_err (propagate_contracts g order ds)"
proof -
  have all: "set order = graph_node_ids g" using topological_order_Ok_set [OF topo] by simp
  have ne: "order \<noteq> []"
  proof
    assume "order = []"
    with all assms(2) show False by (simp add: graph_node_ids_def)
  qed
  have "flows_ok g ds (set []) bt_empty" and "topological_order g = Ok ([] @ order)"
    using topo by (simp_all add: flows_ok_def bt.wf_empty)
  from propagate_all [OF this(2) ds this(1)]
  have pass: "if \<forall>v\<in>graph_node_ids g. requirements_met (the (bt_get ds v)) (flows_into g ds v)
      then \<exists>states. try_fold (propagate_node g ds) bt_empty order = Ok states \<and> flows_ok g ds (graph_node_ids g) states
      else is_err (try_fold (propagate_node g ds) bt_empty order)"
    unfolding append_Nil all .
  show ?thesis
  proof (cases "\<forall>v\<in>graph_node_ids g. requirements_met (the (bt_get ds v)) (flows_into g ds v)")
    case True
    with pass obtain states where st: "try_fold (propagate_node g ds) bt_empty order = Ok states"
      and ok: "flows_ok g ds (graph_node_ids g) states" by auto
    obtain v vs where exits: "filter (\<lambda>i. i \<notin> has_successor (g_edges g)) order = v # vs"
      using exit_nodes_order [OF topo] exit_nodes_nonempty [OF topo ne]
      by (cases "filter (\<lambda>i. i \<notin> has_successor (g_edges g)) order") auto
    then have ex: "set (v # vs) = exit_nodes g" using exit_nodes_order [OF topo] by simp
    then obtain r where "join_states states v vs = Ok r" and "meet_of r (exit_flows g ds)"
      using join_states_meet [OF ok, of v vs] by (auto simp: exit_nodes_def exit_flows_def)
    moreover have "propagate_contracts g order ds =
        (if fl_fidelity r < g_minimum_fidelity g then Err (FidelityInsufficient (last order))
         else Ok (sorted_list_of_set (fl_proofs r), sorted_list_of_set (fl_policy r), fl_fidelity r))"
      using calculation(1) ne by (simp add: propagate_contracts_def st exits last_opt_def)
    ultimately show ?thesis using True by auto
  next
    case False
    with pass show ?thesis
      by (cases "try_fold (propagate_node g ds) bt_empty order") (auto simp: propagate_contracts_def is_err_def)
  qed
qed

section \<open>Properties\<close>

text \<open>
  C4. Contract propagation is the meet over all paths. On a graph with a topological order and a
  descriptor for every node, it succeeds exactly when at every node each path into it establishes
  the required proofs and the minimum fidelity, each required policy label arrives over some path,
  and the worst path to an exit keeps the graph's minimum fidelity. The result is then exactly the
  proofs that hold after every complete path, the policy labels of any, and the least fidelity.
  Otherwise it is an error; it never panics.
\<close>

theorem propagate_contracts_meet_over_paths:
  assumes "topological_order g = Ok order" and "g_nodes g \<noteq> []"
    and "\<forall>v\<in>graph_node_ids g. \<exists>d. bt_get ds v = Some d"
  shows "(propagate_contracts g order ds = Ok (proofs, policy, fidelity) \<longleftrightarrow>
      (\<forall>v\<in>graph_node_ids g. requirements_met (the (bt_get ds v)) (flows_into g ds v)) \<and>
      (\<exists>r. meet_of r (exit_flows g ds) \<and> g_minimum_fidelity g \<le> fl_fidelity r \<and>
           proofs = sorted_list_of_set (fl_proofs r) \<and> policy = sorted_list_of_set (fl_policy r) \<and>
           fidelity = fl_fidelity r)) \<and>
    propagate_contracts g order ds \<noteq> Panic"
proof (cases "\<forall>v\<in>graph_node_ids g. requirements_met (the (bt_get ds v)) (flows_into g ds v)")
  case True
  with propagate_contracts_cases [OF assms] obtain r where r: "meet_of r (exit_flows g ds)"
    and eq: "propagate_contracts g order ds =
      (if fl_fidelity r < g_minimum_fidelity g then Err (FidelityInsufficient (last order))
       else Ok (sorted_list_of_set (fl_proofs r), sorted_list_of_set (fl_policy r), fl_fidelity r))"
    by auto
  have only: "meet_of s (exit_flows g ds) \<longleftrightarrow> s = r" for s
    using meet_of_unique [OF _ r] r by blast
  show ?thesis
    using True by (cases "fl_fidelity r < g_minimum_fidelity g") (auto simp: eq only)
next
  case False
  with propagate_contracts_cases [OF assms] have "is_err (propagate_contracts g order ds)" by simp
  with False show ?thesis
    by (cases "propagate_contracts g order ds") (simp_all add: is_err_def)
qed

definition sample_flow_descriptors :: descriptor_map where
  "sample_flow_descriptors =
     [(1, (sample_descriptor [] [])\<lparr>nd_proof := \<lparr>prf_requires = [], prf_provides = [''checked''], prf_invalidates = []\<rparr>\<rparr>),
      (2, (sample_descriptor [] [])\<lparr>nd_proof := \<lparr>prf_requires = [''checked''], prf_provides = [], prf_invalidates = []\<rparr>,
                                    nd_fidelity := \<lparr>fid_minimum_input = 9, fid_maximum_loss = 5\<rparr>\<rparr>)]"

theorem propagate_contracts_meet_over_paths_witness:
  "propagate_contracts (sample_graph [1, 2] [link 1 2]) [1, 2] sample_flow_descriptors = Ok ([''checked''], [], 65530) \<and>
   (\<exists>r. meet_of r (exit_flows (sample_graph [1, 2] [link 1 2]) sample_flow_descriptors) \<and> fl_fidelity r = 65530)"
proof -
  let ?g = "sample_graph [1, 2] [link 1 2]"
  have "topological_order ?g = Ok [1, 2]" by code_simp
  moreover have "g_nodes ?g \<noteq> []" by (simp add: sample_graph_def)
  moreover have "\<forall>v\<in>graph_node_ids ?g. \<exists>d. bt_get sample_flow_descriptors v = Some d"
    by (simp add: graph_node_ids_def sample_graph_def sample_instance_def sample_flow_descriptors_def bt_get_def)
  moreover have "propagate_contracts ?g [1, 2] sample_flow_descriptors = Ok ([''checked''], [], 65530)"
    by code_simp
  ultimately show ?thesis
    using propagate_contracts_meet_over_paths [of ?g "[1, 2]" sample_flow_descriptors "[''checked'']" "[]" 65530] by auto
qed

end
