(* ===== verification/Conversion.thy ===== *)
theory Conversion
  imports Contracts Samples
begin

text \<open>
  The search for layout conversions, \<open>conversion_path\<close> of \<open>crates/blut-graph-core/src/compile.rs\<close>: a
  depth-first search over registered conversion kernels, bounded in depth by the layouts already
  visited and in work by a budget shared by the whole lowering. The lemmas relate the loop over an
  explicit frontier to the tree of states it visits and show that the path returned is the best of
  all admissible paths, that no path is missed, and that the only error is an exhausted budget.
\<close>

section \<open>The search\<close>

record conversion_request =
  rq_target :: target
  rq_semantic_type :: string
  rq_max_bytes :: u64
  rq_from :: layout
  rq_targets :: "layout list"
  rq_target_max_bytes :: u64

definition conversion_kernels :: "kernel_registry \<Rightarrow> conversion_request \<Rightarrow> kernel_descriptor list" where
  "conversion_kernels reg request =
     sort_key (\<lambda>kern. (kd_implementation_id kern, kd_id kern))
       (filter (\<lambda>kern. kd_target kern = rq_target request \<and> kd_implements kern = [] \<and> kd_determinism kern = BitExact \<and>
           (case kd_conversion kern of
              None \<Rightarrow> False
            | Some conversion \<Rightarrow>
                cv_semantic_type conversion = rq_semantic_type request \<and>
                cv_from conversion \<in> set (kd_input_layouts kern) \<and> cv_to conversion \<in> set (kd_output_layouts kern)))
         (bt_values (reg_kernels reg)))"

text \<open>A state of the search: the layout and size reached, the kernels used, the layouts visited.\<close>

record search_state =
  se_layout :: layout
  se_capacity_bytes :: u64
  se_path :: "kernel_descriptor list"
  se_visited :: "layout list"

definition search_start :: "conversion_request \<Rightarrow> search_state" where
  "search_start request =
     \<lparr>se_layout = rq_from request, se_capacity_bytes = rq_max_bytes request, se_path = [],
      se_visited = [rq_from request]\<rparr>"

definition is_solution :: "conversion_request \<Rightarrow> search_state \<Rightarrow> bool" where
  "is_solution request st \<longleftrightarrow>
     se_layout st \<in> set (rq_targets request) \<and> se_capacity_bytes st \<le> rq_target_max_bytes request \<and> se_path st \<noteq> []"

definition applicable :: "search_state \<Rightarrow> layout_conversion \<Rightarrow> bool" where
  "applicable st conversion \<longleftrightarrow>
     cv_from conversion = se_layout st \<and> se_capacity_bytes st \<le> cv_max_input_bytes conversion \<and>
     cv_to conversion \<notin> set (se_visited st)"

definition search_next :: "search_state \<Rightarrow> kernel_descriptor \<Rightarrow> layout_conversion \<Rightarrow> search_state" where
  "search_next st kern conversion =
     \<lparr>se_layout = cv_to conversion, se_capacity_bytes = cv_max_output_bytes conversion,
      se_path = se_path st @ [kern], se_visited = se_visited st @ [cv_to conversion]\<rparr>"

definition push_conversion ::
    "search_state \<Rightarrow> search_state list \<Rightarrow> kernel_descriptor \<Rightarrow> (compile_error, search_state list) outcome" where
  "push_conversion st frontier kern =
     and_then (expect (kd_conversion kern)) (\<lambda>conversion.
     Ok (if applicable st conversion then frontier @ [search_next st kern conversion] else frontier))"

function conversion_loop ::
    "kernel_descriptor list \<Rightarrow> conversion_request \<Rightarrow> usize \<Rightarrow> search_state list \<Rightarrow> usize \<Rightarrow> kernel_descriptor list list \<Rightarrow>
     (compile_error, kernel_descriptor list list \<times> usize) outcome" where
  "conversion_loop kernels request max_states frontier searched solutions =
     (if frontier = [] then Ok (solutions, searched)
      else
        let st = last frontier; frontier = butlast frontier
        in and_then (ok_or (usize_checked_add searched 1) SearchLimitExceeded) (\<lambda>searched.
           if max_states < searched then Err SearchLimitExceeded
           else if is_solution request st
           then conversion_loop kernels request max_states frontier searched (solutions @ [se_path st])
           else if 5 \<le> length (se_visited st)
           then conversion_loop kernels request max_states frontier searched solutions
           else and_then (try_fold (push_conversion st) frontier (rev kernels)) (\<lambda>frontier.
             conversion_loop kernels request max_states frontier searched solutions)))"
  by pat_completeness auto
termination
  by (relation "measure (\<lambda>(_, _, max_states, _, searched, _). max_states - searched)")
    (auto simp: outcome_simps usize_checked_add_def split: if_splits)

declare conversion_loop.simps [simp del]

fun iter_max_or_0 :: "u64 list \<Rightarrow> u64" where
  "iter_max_or_0 [] = 0"
| "iter_max_or_0 (x # xs) = max x (iter_max_or_0 xs)"

definition path_score :: "kernel_descriptor list \<Rightarrow> usize \<times> u64 \<times> implementation_id list \<times> kernel_id list" where
  "path_score path =
     (length path,
      iter_max_or_0 (map (\<lambda>kern. u64_saturating_add (re_peak_bytes (kd_resources kern)) (re_scratch_bytes (kd_resources kern))) path),
      map kd_implementation_id path, map kd_id path)"

text \<open>The budget is threaded: the result carries the number of states searched so far.\<close>

definition conversion_path ::
    "kernel_registry \<Rightarrow> conversion_request \<Rightarrow> usize \<Rightarrow> usize \<Rightarrow> (compile_error, kernel_descriptor list option \<times> usize) outcome" where
  "conversion_path reg request max_states searched =
     and_then (conversion_loop (conversion_kernels reg request) request max_states [search_start request] searched [])
       (\<lambda>(solutions, searched). Ok (min_by_key path_score solutions, searched))"

section \<open>The tree of states\<close>

definition search_children :: "kernel_descriptor list \<Rightarrow> search_state \<Rightarrow> search_state list" where
  "search_children kernels st =
     List.map_filter (\<lambda>kern. case kd_conversion kern of
         Some conversion \<Rightarrow> if applicable st conversion then Some (search_next st kern conversion) else None
       | None \<Rightarrow> None) kernels"

definition is_leaf :: "conversion_request \<Rightarrow> search_state \<Rightarrow> bool" where
  "is_leaf request st \<longleftrightarrow> is_solution request st \<or> 5 \<le> length (se_visited st)"

lemma search_children_iff:
  "t \<in> set (search_children kernels st) \<longleftrightarrow>
     (\<exists>kern \<in> set kernels. \<exists>conversion. kd_conversion kern = Some conversion \<and> applicable st conversion \<and>
        t = search_next st kern conversion)"
  by (force simp: search_children_def List.map_filter_def split: option.splits if_splits)

function visits :: "kernel_descriptor list \<Rightarrow> conversion_request \<Rightarrow> search_state \<Rightarrow> search_state list" where
  "visits kernels request st =
     st # (if is_leaf request st then [] else concat (map (visits kernels request) (search_children kernels st)))"
  by pat_completeness auto
termination
  by (relation "measure (\<lambda>(_, _, st). 5 - length (se_visited st))")
    (auto simp: search_children_iff search_next_def is_leaf_def)

declare visits.simps [simp del]

definition convertible :: "kernel_descriptor list \<Rightarrow> bool" where
  "convertible kernels \<longleftrightarrow> (\<forall>kern \<in> set kernels. kd_conversion kern \<noteq> None)"

lemma convertible_conversion_kernels: "convertible (conversion_kernels reg request)"
  by (auto simp: convertible_def conversion_kernels_def split: option.splits)

lemma push_conversions:
  assumes "convertible kernels"
  shows "try_fold (push_conversion st) frontier (rev kernels) = Ok (frontier @ rev (search_children kernels st))"
  using assms
proof (induction kernels)
  case Nil
  then show ?case by (simp add: search_children_def List.map_filter_def)
next
  case (Cons kern kernels)
  then obtain conversion where c: "kd_conversion kern = Some conversion" and "convertible kernels"
    by (auto simp: convertible_def)
  then show ?case
    using Cons.IH by (simp add: try_fold_append push_conversion_def search_children_def map_filter_simps)
qed

text \<open>The loop visits the states of the tree in order, until the budget is spent.\<close>

lemma conversion_loop_visits:
  assumes "convertible kernels" and "max_states < 2 ^ 64" and "searched \<le> max_states"
  shows "conversion_loop kernels request max_states frontier searched solutions =
    (let vs = concat (map (visits kernels request) (rev frontier))
     in if searched + length vs \<le> max_states
        then Ok (solutions @ map se_path (filter (is_solution request) vs), searched + length vs)
        else Err SearchLimitExceeded)"
  using assms
proof (induction kernels request max_states frontier searched solutions rule: conversion_loop.induct)
  case (1 kernels request max_states frontier searched solutions)
  show ?case
  proof (cases "frontier = []")
    case True
    then show ?thesis using "1.prems" by (simp add: conversion_loop.simps)
  next
    case False
    define st where "st = last frontier"
    define rest where "rest = butlast frontier"
    define V where "V = visits kernels request"
    have frontier: "rev frontier = st # rev rest"
      using False by (simp add: st_def rest_def flip: rev_swap)
    show ?thesis
    proof (cases "searched + 1 \<le> max_states")
      case over: False
      have "conversion_loop kernels request max_states frontier searched solutions = Err SearchLimitExceeded"
        using False over by (subst conversion_loop.simps) (auto simp: usize_checked_add_def)
      moreover have "\<not> searched + length (concat (map V (rev frontier))) \<le> max_states"
        using over unfolding frontier by (simp add: V_def visits.simps [of kernels request st])
      ultimately show ?thesis by (simp add: V_def)
    next
      case room: True
      then have add: "usize_checked_add searched (Suc 0) = Some (Suc searched)"
        using "1.prems"(2) by (simp add: usize_checked_add_def)
      note IH = "1.IH" [OF False st_def rest_def, of "Suc searched"]
      show ?thesis
      proof (cases "is_leaf request st")
        case True
        have "V st = [st]" using True by (simp add: V_def visits.simps)
        moreover have "conversion_loop kernels request max_states frontier searched solutions =
            conversion_loop kernels request max_states rest (Suc searched)
              (solutions @ (if is_solution request st then [se_path st] else []))"
          using False room True
          by (subst conversion_loop.simps) (auto simp: add Let_def st_def [symmetric] rest_def [symmetric] is_leaf_def)
        ultimately show ?thesis
          using IH(1,2) True room "1.prems" add unfolding frontier
          by (auto simp: V_def [symmetric] Let_def is_leaf_def outcome_simps)
      next
        case inner: False
        then have cond: "\<not> is_solution request st" "\<not> 5 \<le> length (se_visited st)" by (auto simp: is_leaf_def)
        note pushed = push_conversions [OF "1.prems"(1), of st rest]
        have "V st = st # concat (map V (search_children kernels st))" using inner by (simp add: V_def visits.simps)
        moreover have "conversion_loop kernels request max_states frontier searched solutions =
            conversion_loop kernels request max_states (rest @ rev (search_children kernels st)) (Suc searched) solutions"
          using False room cond
          by (subst conversion_loop.simps) (auto simp: add Let_def st_def [symmetric] rest_def [symmetric] pushed)
        ultimately show ?thesis
          using IH(3) [OF _ _ cond pushed] room "1.prems" add cond unfolding frontier
          by (auto simp: V_def [symmetric] Let_def outcome_simps)
      qed
    qed
  qed
qed

section \<open>Admissible paths\<close>

text \<open>
  A chain of conversions from a layout and a size: each kernel converts from the layout reached and
  accepts the size reached.
\<close>

fun chain :: "kernel_descriptor list \<Rightarrow> layout \<Rightarrow> u64 \<Rightarrow> kernel_descriptor list \<Rightarrow> bool" where
  "chain kernels l bytes [] = True"
| "chain kernels l bytes (kern # path) =
     (kern \<in> set kernels \<and>
      (case kd_conversion kern of
         None \<Rightarrow> False
       | Some conversion \<Rightarrow> cv_from conversion = l \<and> bytes \<le> cv_max_input_bytes conversion \<and>
           chain kernels (cv_to conversion) (cv_max_output_bytes conversion) path))"

definition kernel_to :: "kernel_descriptor \<Rightarrow> layout" where
  "kernel_to kern = (case kd_conversion kern of Some conversion \<Rightarrow> cv_to conversion | None \<Rightarrow> 0)"

definition kernel_output_bytes :: "kernel_descriptor \<Rightarrow> u64" where
  "kernel_output_bytes kern = (case kd_conversion kern of Some conversion \<Rightarrow> cv_max_output_bytes conversion | None \<Rightarrow> 0)"

definition after_path :: "search_state \<Rightarrow> kernel_descriptor list \<Rightarrow> search_state" where
  "after_path st path =
     \<lparr>se_layout = (if path = [] then se_layout st else kernel_to (last path)),
      se_capacity_bytes = (if path = [] then se_capacity_bytes st else kernel_output_bytes (last path)),
      se_path = se_path st @ path, se_visited = se_visited st @ map kernel_to path\<rparr>"

lemma after_path_Nil [simp]: "after_path st [] = st"
  by (simp add: after_path_def)

lemma after_path_Cons:
  "kd_conversion kern = Some conversion \<Longrightarrow> after_path st (kern # path) = after_path (search_next st kern conversion) path"
  by (simp add: after_path_def search_next_def kernel_to_def kernel_output_bytes_def)

definition extends :: "kernel_descriptor list \<Rightarrow> search_state \<Rightarrow> kernel_descriptor list \<Rightarrow> bool" where
  "extends kernels st path \<longleftrightarrow>
     chain kernels (se_layout st) (se_capacity_bytes st) path \<and>
     distinct (map kernel_to path) \<and> kernel_to ` set path \<inter> set (se_visited st) = {} \<and>
     length (se_visited st) + length path \<le> 5"

lemma extends_Cons:
  assumes "kd_conversion kern = Some conversion" and "length (se_visited st) < 5"
  shows "extends kernels st (kern # path) \<longleftrightarrow>
    kern \<in> set kernels \<and> applicable st conversion \<and> extends kernels (search_next st kern conversion) path"
  using assms by (auto simp: extends_def applicable_def search_next_def kernel_to_def)

lemma visits_iff:
  assumes "length (se_visited st) \<le> 5"
  shows "t \<in> set (visits kernels request st) \<longleftrightarrow>
    (\<exists>path. extends kernels st path \<and> t = after_path st path \<and>
       (\<forall>pre post. path = pre @ post \<longrightarrow> post \<noteq> [] \<longrightarrow> \<not> is_solution request (after_path st pre)))"
  using assms
proof (induction kernels request st arbitrary: t rule: visits.induct)
  case (1 kernels request st)
  show ?case (is "_ \<longleftrightarrow> (\<exists>path. ?Q path)")
  proof
    assume t: "t \<in> set (visits kernels request st)"
    show "\<exists>path. ?Q path"
    proof (cases "t = st")
      case True
      then have "?Q []" using "1.prems" by (simp add: extends_def)
      then show ?thesis ..
    next
      case False
      with t have inner: "\<not> is_leaf request st"
        and "t \<in> set (concat (map (visits kernels request) (search_children kernels st)))"
        by (auto simp: visits.simps [of kernels request st] split: if_splits)
      then obtain s where s: "s \<in> set (search_children kernels st)" and ts: "t \<in> set (visits kernels request s)" by auto
      then obtain kern conversion where k: "kern \<in> set kernels" "kd_conversion kern = Some conversion"
        "applicable st conversion" "s = search_next st kern conversion"
        by (auto simp: search_children_iff)
      have len: "length (se_visited st) < 5" using inner by (simp add: is_leaf_def)
      then have "length (se_visited s) \<le> 5" using k(4) by (simp add: search_next_def)
      with "1.IH" [OF inner s] ts obtain path where path: "extends kernels s path" "t = after_path s path"
        "\<forall>pre post. path = pre @ post \<longrightarrow> post \<noteq> [] \<longrightarrow> \<not> is_solution request (after_path s pre)" by blast
      have "?Q (kern # path)"
      proof (intro conjI allI impI)
        show "extends kernels st (kern # path)" using extends_Cons [OF k(2) len] k path(1) by simp
        show "t = after_path st (kern # path)" using path(2) k by (simp add: after_path_Cons)
        fix pre post
        assume split: "kern # path = pre @ post" "post \<noteq> []"
        show "\<not> is_solution request (after_path st pre)"
        proof (cases pre)
          case Nil
          then show ?thesis using inner by (simp add: is_leaf_def)
        next
          case (Cons x pre')
          then have "pre = kern # pre'" "path = pre' @ post" using split by auto
          then show ?thesis using path(3) split(2) k by (simp add: after_path_Cons)
        qed
      qed
      then show ?thesis ..
    qed
  next
    assume "\<exists>path. ?Q path"
    then obtain path where path: "?Q path" ..
    show "t \<in> set (visits kernels request st)"
    proof (cases path)
      case Nil
      then show ?thesis using path by (simp add: visits.simps [of kernels request st])
    next
      case (Cons kern path')
      with path obtain conversion where k: "kd_conversion kern = Some conversion"
        by (auto simp: extends_def split: option.splits)
      have len: "length (se_visited st) < 5" using path Cons by (simp add: extends_def)
      have "\<not> is_solution request st" using path Cons by (metis after_path_Nil append_Nil list.discI)
      with len have inner: "\<not> is_leaf request st" by (simp add: is_leaf_def)
      let ?s = "search_next st kern conversion"
      have e: "kern \<in> set kernels" "applicable st conversion" "extends kernels ?s path'"
        using extends_Cons [OF k len] path Cons by auto
      then have s: "?s \<in> set (search_children kernels st)" using k by (auto simp: search_children_iff)
      have "\<not> is_solution request (after_path ?s pre)" if "path' = pre @ post" "post \<noteq> []" for pre post
        using path that Cons after_path_Cons [OF k, of st pre] by (metis append_Cons)
      moreover have "t = after_path ?s path'" using path Cons after_path_Cons [OF k] by simp
      moreover have "length (se_visited ?s) \<le> 5" using len by (simp add: search_next_def)
      ultimately have "t \<in> set (visits kernels request ?s)" using "1.IH" [OF inner s] e(3) by blast
      with s inner show ?thesis by (auto simp: visits.simps [of kernels request st])
    qed
  qed
qed

definition conversion_route :: "kernel_registry \<Rightarrow> conversion_request \<Rightarrow> kernel_descriptor list \<Rightarrow> bool" where
  "conversion_route reg request path \<longleftrightarrow>
     path \<noteq> [] \<and> chain (conversion_kernels reg request) (rq_from request) (rq_max_bytes request) path \<and>
     distinct (rq_from request # map kernel_to path) \<and> length path \<le> 4 \<and>
     kernel_to (last path) \<in> set (rq_targets request) \<and> kernel_output_bytes (last path) \<le> rq_target_max_bytes request"

lemma conversion_route_iff:
  "conversion_route reg request path \<longleftrightarrow>
     extends (conversion_kernels reg request) (search_start request) path \<and>
     is_solution request (after_path (search_start request) path)"
  by (cases "path = []")
    (auto simp: conversion_route_def extends_def search_start_def is_solution_def after_path_def image_iff)

lemma extends_prefix: "extends kernels st (pre @ post) \<Longrightarrow> extends kernels st pre"
proof -
  have "chain kernels l b (pre @ post) \<Longrightarrow> chain kernels l b pre" for l b
    by (induction pre arbitrary: l b) (auto split: option.splits)
  then show "extends kernels st (pre @ post) \<Longrightarrow> extends kernels st pre"
    by (auto simp: extends_def)
qed

text \<open>Every route has a first point at which it reaches the target; cut there, it is a state of the tree.\<close>

lemma conversion_route_shortened:
  assumes "conversion_route reg request path"
  obtains pre where "conversion_route reg request pre" and "path_score pre \<le> path_score path"
    and "after_path (search_start request) pre \<in> set (visits (conversion_kernels reg request) request (search_start request))"
proof -
  let ?K = "conversion_kernels reg request" and ?s = "search_start request"
  define P where "P n \<longleftrightarrow> n \<le> length path \<and> is_solution request (after_path ?s (take n path))" for n
  have ext: "extends ?K ?s path" and "P (length path)"
    using assms by (simp_all add: conversion_route_iff P_def)
  then have n: "P (LEAST n. P n)" "\<And>m. P m \<Longrightarrow> (LEAST n. P n) \<le> m" by (auto intro: LeastI Least_le)
  define pre where "pre = take (LEAST n. P n) path"
  have len: "length pre = (LEAST n. P n)" using n(1) by (simp add: pre_def P_def)
  have "path = pre @ drop (LEAST n. P n) path" by (simp add: pre_def)
  with ext have pre: "extends ?K ?s pre" by (metis extends_prefix)
  then have route: "conversion_route reg request pre"
    using n(1) by (simp add: conversion_route_iff pre_def P_def)
  have "\<not> is_solution request (after_path ?s a)" if "pre = a @ b" "b \<noteq> []" for a b
  proof
    assume "is_solution request (after_path ?s a)"
    moreover have short: "length a \<le> (LEAST n. P n)" using that(1) len by simp
    moreover have "a = take (length a) pre" using that(1) by simp
    then have "a = take (length a) path" unfolding pre_def using short by (simp add: min_absorb1)
    ultimately have "P (length a)" using n(1) by (simp add: P_def)
    then have "length pre \<le> length a" using n(2) len by simp
    with that show False by simp
  qed
  then have "after_path ?s pre \<in> set (visits ?K request ?s)"
    using pre by (subst visits_iff) (auto simp: search_start_def)
  moreover have "path_score pre \<le> path_score path"
  proof (cases "pre = path")
    case False
    then have "length pre < length path" using n(1) len unfolding pre_def P_def by (simp add: order_le_less)
    then show ?thesis by (simp add: path_score_def less_eq_prod_def)
  qed simp
  ultimately show thesis using that route by blast
qed

lemma se_path_after_start [simp]: "se_path (after_path (search_start request) path) = path"
  by (simp add: after_path_def search_start_def)

text \<open>
  C26. The conversion chosen for an edge is the best one. Within its budget the search returns the
  admissible path (at most four registered conversions, no layout visited twice, each kernel accepting
  the size it is given, ending in a layout and size the consumer accepts) that is least by length,
  workspace, implementations and kernel ids; it returns none exactly when there is none. It charges
  the budget one unit per state of the search tree. It never panics, and its only error is that the
  budget is spent, which happens exactly when the tree has more states than the budget has left.
\<close>

theorem conversion_path_optimal:
  assumes "max_states < 2 ^ 64" and "searched \<le> max_states"
  shows "conversion_path reg request max_states searched = Err SearchLimitExceeded \<and>
      max_states < searched + length (visits (conversion_kernels reg request) request (search_start request)) \<or>
    (\<exists>result n. conversion_path reg request max_states searched = Ok (result, n) \<and> searched < n \<and> n \<le> max_states \<and>
       n = searched + length (visits (conversion_kernels reg request) request (search_start request)) \<and>
       (case result of
          None \<Rightarrow> \<not> (\<exists>path. conversion_route reg request path)
        | Some best \<Rightarrow> conversion_route reg request best \<and>
            (\<forall>path. conversion_route reg request path \<longrightarrow> path_score best \<le> path_score path)))"
proof -
  let ?K = "conversion_kernels reg request" and ?s = "search_start request"
  define vs where "vs = visits ?K request ?s"
  define solutions where "solutions = map se_path (filter (is_solution request) vs)"
  have "conversion_loop ?K request max_states [?s] searched [] =
      (if searched + length vs \<le> max_states then Ok (solutions, searched + length vs) else Err SearchLimitExceeded)"
    unfolding solutions_def vs_def
    by (subst conversion_loop_visits [OF convertible_conversion_kernels assms]) (simp add: Let_def)
  then have loop: "conversion_path reg request max_states searched =
      (if searched + length vs \<le> max_states then Ok (min_by_key path_score solutions, searched + length vs)
       else Err SearchLimitExceeded)"
    by (simp add: conversion_path_def)
  have "0 < length vs" by (simp add: vs_def visits.simps)
  have sound: "conversion_route reg request path" if "path \<in> set solutions" for path
  proof -
    from that obtain t where "t \<in> set vs" "is_solution request t" "path = se_path t" by (auto simp: solutions_def)
    moreover from this(1) obtain p where "extends ?K ?s p" "t = after_path ?s p"
      unfolding vs_def by (subst (asm) visits_iff) (auto simp: search_start_def)
    ultimately show ?thesis by (simp add: conversion_route_iff)
  qed
  have complete: "\<exists>pre \<in> set solutions. path_score pre \<le> path_score path" if route: "conversion_route reg request path" for path
  proof -
    obtain pre where "conversion_route reg request pre" "path_score pre \<le> path_score path" "after_path ?s pre \<in> set vs"
      using conversion_route_shortened [OF route] unfolding vs_def by blast
    moreover from this have "after_path ?s pre \<in> set (filter (is_solution request) vs)"
      by (simp add: conversion_route_iff)
    then have "se_path (after_path ?s pre) \<in> set solutions"
      unfolding solutions_def set_map by (rule imageI)
    ultimately show ?thesis unfolding se_path_after_start by blast
  qed
  show ?thesis
  proof (cases "searched + length vs \<le> max_states")
    case True
    have "case min_by_key path_score solutions of
          None \<Rightarrow> \<not> (\<exists>path. conversion_route reg request path)
        | Some best \<Rightarrow> conversion_route reg request best \<and>
            (\<forall>path. conversion_route reg request path \<longrightarrow> path_score best \<le> path_score path)"
    proof (cases "min_by_key path_score solutions")
      case None
      then have "set solutions = {}" by simp
      then show ?thesis using complete None by auto
    next
      case (Some best)
      from min_by_key_SomeD [OF Some] have best: "best \<in> set solutions" "\<And>p. p \<in> set solutions \<Longrightarrow> path_score best \<le> path_score p"
        by auto
      have "path_score best \<le> path_score path" if "conversion_route reg request path" for path
        using complete [OF that] best(2) order_trans by blast
      with sound [OF best(1)] Some show ?thesis by simp
    qed
    with True loop \<open>0 < length vs\<close> show ?thesis by (auto simp: vs_def)
  next
    case False
    with loop show ?thesis by (simp add: vs_def)
  qed
qed

definition sample_conversion :: "kernel_id \<Rightarrow> layout \<Rightarrow> layout \<Rightarrow> kernel_descriptor" where
  "sample_conversion k l m =
     (sample_kernel k)
       \<lparr>kd_implements := [],
        kd_conversion := Some \<lparr>cv_semantic_type = ''samples'', cv_from = l, cv_to = m, cv_max_input_bytes = 64, cv_max_output_bytes = 64\<rparr>,
        kd_input_layouts := [l], kd_output_layouts := [m]\<rparr>"

definition conversion_registry :: kernel_registry where
  "conversion_registry =
     \<lparr>reg_descriptors = [],
      reg_kernels = [(1, sample_conversion 1 Layout_Canonical Layout_Packed), (2, sample_conversion 2 Layout_Packed Layout_TimeMajor)],
      reg_subgraphs = []\<rparr>"

definition sample_request :: conversion_request where
  "sample_request =
     \<lparr>rq_target = Target_Host, rq_semantic_type = ''samples'', rq_max_bytes = 64, rq_from = Layout_Canonical,
      rq_targets = [Layout_TimeMajor], rq_target_max_bytes = 64\<rparr>"

lemma sample_conversion_kernels:
  "conversion_kernels conversion_registry sample_request =
     [sample_conversion 1 Layout_Canonical Layout_Packed, sample_conversion 2 Layout_Packed Layout_TimeMajor]"
proof -
  have "replicate 32 (1 :: u8) \<le> replicate 32 2" by (simp add: numeral_eq_Suc)
  then show ?thesis
    by (simp add: conversion_kernels_def conversion_registry_def sample_request_def sample_conversion_def sample_kernel_def
        bt_values_def)
qed

theorem conversion_path_optimal_witness:
  "conversion_route conversion_registry sample_request
     [sample_conversion 1 Layout_Canonical Layout_Packed, sample_conversion 2 Layout_Packed Layout_TimeMajor]"
proof -
  let ?path = "[sample_conversion 1 Layout_Canonical Layout_Packed, sample_conversion 2 Layout_Packed Layout_TimeMajor]"
  have "conversion_path conversion_registry sample_request 100 0 = Ok (Some ?path, 3)"
    unfolding conversion_path_def sample_conversion_kernels
    by (simp add: conversion_loop.simps usize_checked_add_def is_solution_def search_start_def sample_request_def
        push_conversion_def applicable_def search_next_def sample_conversion_def sample_kernel_def
        Layout_Canonical_def Layout_Packed_def Layout_TimeMajor_def Let_def)
  with conversion_path_optimal [of 100 0 conversion_registry sample_request] show ?thesis by auto
qed

end
