(* ===== verification/Regions.thy ===== *)
theory Regions
  imports Propagate Conversion
begin

text \<open>
  Regions of a lowered graph, from \<open>crates/blut-graph-core/src/compile.rs\<close>: when a run of nodes may be
  fused (\<open>linear_fusion_is_safe\<close>), the step that executes a run (\<open>semantic_region\<close>), and the
  enumeration of all ways to cut the execution order into runs (\<open>build_semantic_region_candidates\<close>).
  The lemmas show that the enumeration is exactly the set of tilings of the order by the assigned
  kernels and the safe fused kernels, each listed once, and that every candidate executes every node
  once and in order.
\<close>

section \<open>Inputs of the lowering\<close>

record physical_lowering =
  pw_graph :: graph
  pw_order :: "node_id list"
  pw_descriptors :: descriptor_map
  pw_kernels :: "(node_id, kernel_descriptor) btree_map"
  pw_registry :: kernel_registry
  pw_target :: target

record physical_search_limits =
  ps_region_candidates :: usize
  ps_conversion_states :: usize
  ps_max_peak_bytes :: u64
  ps_max_steps :: usize
  ps_max_buffers :: usize

text \<open>\<open>map[&key]\<close>, which panics on a missing key, and \<open>&slice[a..b]\<close>.\<close>

definition entry_at :: "('k, 'v) btree_map \<Rightarrow> 'k \<Rightarrow> ('e, 'v) outcome" where
  "entry_at m k = expect (bt_get m k)"

definition slice_of :: "'a list \<Rightarrow> nat \<Rightarrow> nat \<Rightarrow> ('e, 'a list) outcome" where
  "slice_of xs a b = (if a \<le> b \<and> b \<le> length xs then Ok (take (b - a) (drop a xs)) else Panic)"

definition usize_saturating_add :: "usize \<Rightarrow> usize \<Rightarrow> usize" where
  "usize_saturating_add a b = min (a + b) (2 ^ 64 - 1)"

type_synonym instance_map = "(node_id, node_instance) btree_map"

definition instance_type :: "node_instance \<Rightarrow> node_type_ref" where
  "instance_type inst = \<lparr>ntr_type_name = ni_descriptor inst, ntr_version = ni_descriptor_version inst\<rparr>"

section \<open>The step of a region\<close>

definition port_contracts :: "layout list \<Rightarrow> port_descriptor list \<Rightarrow> (compile_error, compiled_port_contract list) outcome" where
  "port_contracts kernel_layouts ports =
     try_map (\<lambda>port. and_then (select_layout port kernel_layouts) (\<lambda>l. Ok (compiled_port_contract port l))) ports"

definition semantic_region ::
    "node_id list \<Rightarrow> kernel_descriptor \<Rightarrow> descriptor_map \<Rightarrow> instance_map \<Rightarrow> (compile_error, compiled_node) outcome" where
  "semantic_region ids kern descriptors instances =
     and_then (and_then (index ids 0) (entry_at descriptors)) (\<lambda>fst_desc.
     and_then (and_then (expect (last_opt ids)) (entry_at descriptors)) (\<lambda>lst_desc.
     and_then (try_map (entry_at instances) ids) (\<lambda>nodes.
     and_then (port_contracts (kd_input_layouts kern) (nd_inputs fst_desc)) (\<lambda>input_contracts.
     and_then (port_contracts (kd_output_layouts kern) (nd_outputs lst_desc)) (\<lambda>output_contracts.
     and_then (try_map (entry_at descriptors) ids) (\<lambda>ds.
     let fused = (1 < length ids)
     in Ok \<lparr>cn_id = 0, cn_semantic_nodes = ids, cn_semantic_types = map instance_type nodes,
            cn_semantic_configs = map ni_config nodes, cn_kernel = kd_id kern,
            cn_implementation_id = kd_implementation_id kern, cn_resources = kd_resources kern,
            cn_determinism = kd_determinism kern, cn_lowering = kd_lowering kern, cn_conversion = None,
            cn_input_ports = map pd_name (nd_inputs fst_desc), cn_output_ports = map pd_name (nd_outputs lst_desc),
            cn_input_contracts = input_contracts, cn_output_contracts = output_contracts,
            cn_input_bindings = replicate (length (nd_inputs fst_desc)) Absent,
            cn_output_bindings = replicate (length (nd_outputs lst_desc)) Terminal,
            cn_partiality = (if fused then Atomic else nd_partiality fst_desc),
            cn_failure = (if fused then \<lparr>fc_domains = failure_domain_union ds\<rparr> else nd_failure fst_desc),
            cn_effect = (if fused then Pure else nd_effect fst_desc),
            cn_retry_limit = (if fused then 0 else nd_retry_limit fst_desc),
            cn_state = (if fused then stateless else nd_state fst_desc),
            cn_subgraph_path = map sl_subgraph (List.map_filter nd_subgraph ds)\<rparr>))))))"

section \<open>Fusion\<close>

definition fusible :: "node_descriptor \<Rightarrow> bool" where
  "fusible d \<longleftrightarrow>
     \<not> (nd_effect d \<noteq> Pure \<or> nd_partiality d \<noteq> Atomic \<or> sc_scope (nd_state d) \<noteq> Stateless \<or> nd_retry_limit d \<noteq> 0 \<or>
        checkpointable (nd_state d) \<or> nd_subgraph d \<noteq> None)"

definition linear_pair :: "graph \<Rightarrow> descriptor_map \<Rightarrow> node_id \<times> node_id \<Rightarrow> (compile_error, bool) outcome" where
  "linear_pair g descriptors pair =
     (let outgoing = filter (\<lambda>e. pr_node (edge_from e) = fst pair) (g_edges g);
          incoming = filter (\<lambda>e. pr_node (edge_to e) = snd pair) (g_edges g)
      in and_then (entry_at descriptors (fst pair)) (\<lambda>from_desc.
         and_then (entry_at descriptors (snd pair)) (\<lambda>to_desc.
         Ok (case (nd_outputs from_desc, nd_inputs to_desc, outgoing, incoming) of
               ([output], [inp], [out_edge], [in_edge]) \<Rightarrow>
                 out_edge = in_edge \<and> pr_port (edge_from out_edge) = pd_name output \<and>
                 pr_port (edge_to in_edge) = pd_name inp
             | _ \<Rightarrow> False))))"

definition linear_fusion_is_safe :: "graph \<Rightarrow> node_id list \<Rightarrow> descriptor_map \<Rightarrow> (compile_error, bool) outcome" where
  "linear_fusion_is_safe g ids descriptors =
     (if \<exists>e \<in> set (g_feedback g). pr_node (fe_from e) \<in> set ids \<or> pr_node (fe_to e) \<in> set ids then Ok False
      else
        and_then (any_in (\<lambda>i. and_then (entry_at descriptors i) (\<lambda>d. Ok (\<not> fusible d))) ids) (\<lambda>unsafe.
        if unsafe then Ok False
        else and_then (any_in (\<lambda>pair. and_then (linear_pair g descriptors pair) (\<lambda>ok. Ok (\<not> ok))) (windows2 ids)) (\<lambda>broken.
        Ok (\<not> broken))))"

text \<open>The kernels that may execute the run of nodes starting at a position, best first.\<close>

definition fusion_applies ::
    "physical_lowering \<Rightarrow> instance_map \<Rightarrow> usize \<Rightarrow> kernel_descriptor \<Rightarrow> (compile_error, bool) outcome" where
  "fusion_applies ctx instances pos kern =
     (if kd_target kern = pw_target ctx \<and> 2 \<le> length (kd_implements kern) \<and>
         pos + length (kd_implements kern) \<le> length (pw_order ctx)
      then
        and_then (slice_of (pw_order ctx) pos (pos + length (kd_implements kern))) (\<lambda>ids.
        and_then (any_in (\<lambda>(implemented, i). and_then (entry_at instances i) (\<lambda>inst. Ok (implemented \<noteq> instance_type inst)))
            (zip (kd_implements kern) ids)) (\<lambda>different.
        if different then Ok False
        else and_then (any_in (\<lambda>i. and_then (entry_at (pw_descriptors ctx) i) (\<lambda>d. Ok (\<not> kd_determinism kern \<le> nd_determinism d))) ids)
          (\<lambda>weaker.
        if weaker then Ok False
        else and_then (and_then (index ids 0) (entry_at (pw_descriptors ctx))) (\<lambda>fst_desc.
        and_then (and_then (expect (last_opt ids)) (entry_at (pw_descriptors ctx))) (\<lambda>lst_desc.
        if \<not> fused_layouts_compatible fst_desc lst_desc kern then Ok False
        else linear_fusion_is_safe (pw_graph ctx) ids (pw_descriptors ctx))))))
      else Ok False)"

definition fusion_key :: "kernel_descriptor \<Rightarrow> int \<times> u64 \<times> u64 \<times> implementation_id \<times> kernel_id" where
  "fusion_key kern =
     (- int (length (kd_implements kern)), re_peak_bytes (kd_resources kern), re_scratch_bytes (kd_resources kern),
      kd_implementation_id kern, kd_id kern)"

definition fusion_alternatives ::
    "physical_lowering \<Rightarrow> instance_map \<Rightarrow> bool \<Rightarrow> usize \<Rightarrow> (compile_error, kernel_descriptor list) outcome" where
  "fusion_alternatives ctx instances fuse pos =
     (if fuse
      then and_then (try_fold (\<lambda>alternatives kern.
             and_then (fusion_applies ctx instances pos kern) (\<lambda>applies.
             Ok (if applies then alternatives @ [kern] else alternatives)))
           [] (bt_values (reg_kernels (pw_registry ctx)))) (\<lambda>alternatives. Ok (sort_key fusion_key alternatives))
      else Ok [])"

section \<open>Enumeration\<close>

type_synonym fused_choice = "usize \<times> kernel_descriptor"

text \<open>
  The regions of one candidate: the fused runs chosen, in order of position, and between them single
  nodes with their assigned kernels.
\<close>

function assemble_regions ::
    "physical_lowering \<Rightarrow> instance_map \<Rightarrow> usize \<Rightarrow> fused_choice list \<Rightarrow> (compile_error, compiled_node list) outcome" where
  "assemble_regions ctx instances cursor choices =
     (if cursor < length (pw_order ctx)
      then
        (case choices of
           (start, kern) # rest \<Rightarrow>
             if start = cursor
             then and_then (slice_of (pw_order ctx) cursor (cursor + length (kd_implements kern))) (\<lambda>ids.
                  and_then (semantic_region ids kern (pw_descriptors ctx) instances) (\<lambda>region.
                  and_then (assemble_regions ctx instances (cursor + length (kd_implements kern)) rest) (\<lambda>regions.
                  Ok (region # regions))))
             else and_then (entry_at (pw_kernels ctx) (pw_order ctx ! cursor)) (\<lambda>kern.
                  and_then (semantic_region [pw_order ctx ! cursor] kern (pw_descriptors ctx) instances) (\<lambda>region.
                  and_then (assemble_regions ctx instances (cursor + 1) choices) (\<lambda>regions.
                  Ok (region # regions))))
         | [] \<Rightarrow>
             and_then (entry_at (pw_kernels ctx) (pw_order ctx ! cursor)) (\<lambda>kern.
             and_then (semantic_region [pw_order ctx ! cursor] kern (pw_descriptors ctx) instances) (\<lambda>region.
             and_then (assemble_regions ctx instances (cursor + 1) choices) (\<lambda>regions.
             Ok (region # regions)))))
      else Ok [])"
  by pat_completeness auto
termination
  by (relation "measures [\<lambda>(_, _, _, choices). length choices, \<lambda>(ctx, _, cursor, _). length (pw_order ctx) - cursor]") auto

declare assemble_regions.simps [simp del]

definition push_alternative ::
    "usize \<Rightarrow> usize \<Rightarrow> usize \<Rightarrow> fused_choice list \<Rightarrow> (usize \<times> fused_choice list) list \<Rightarrow> kernel_descriptor \<Rightarrow>
     (compile_error, (usize \<times> fused_choice list) list) outcome" where
  "push_alternative max_candidates completed pos fused_choices pending kern =
     (let pending = pending @ [(pos + length (kd_implements kern), fused_choices @ [(pos, kern)])]
      in if max_candidates < usize_saturating_add (length pending) completed then Err SearchLimitExceeded else Ok pending)"

lemma push_alternatives_Ok:
  assumes "try_fold (push_alternative max_candidates completed pos fused) pending kerns = Ok pending'"
  shows "pending' = pending @ map (\<lambda>kern. (pos + length (kd_implements kern), fused @ [(pos, kern)])) kerns"
  using assms
  by (induction kerns arbitrary: pending) (fastforce simp: push_alternative_def Let_def outcome_simps split: if_splits)+

lemma fusion_applies_longer:
  "fusion_applies ctx instances pos kern = Ok True \<Longrightarrow>
     2 \<le> length (kd_implements kern) \<and> pos + length (kd_implements kern) \<le> length (pw_order ctx)"
  by (auto simp: fusion_applies_def split: if_splits)

lemma set_fusion_alternatives:
  assumes "fusion_alternatives ctx instances fuse pos = Ok alternatives"
  shows "set alternatives = (if fuse then {kern \<in> set (bt_values (reg_kernels (pw_registry ctx))).
    fusion_applies ctx instances pos kern = Ok True} else {})"
  using assms by (auto simp: fusion_alternatives_def outcome_simps dest: try_fold_filter split: if_splits)

lemma mult_replace:
  fixes m n :: "nat multiset"
  assumes "\<And>y. y \<in># n \<Longrightarrow> y < x"
  shows "(m + n, m + {#x#}) \<in> mult less_than"
  using assms by (intro one_step_implies_mult) auto

text \<open>
  A position beyond the order would be counted up until the addition overflows; it is not reached from
  position 0.
\<close>

function region_loop ::
    "physical_lowering \<Rightarrow> instance_map \<Rightarrow> bool \<Rightarrow> usize \<Rightarrow> (usize \<times> fused_choice list) list \<Rightarrow> compiled_node list list \<Rightarrow>
     (compile_error, compiled_node list list) outcome" where
  "region_loop ctx instances fuse max_candidates pending complete =
     (if pending = [] then Ok complete
      else
        let (pos, fused_choices) = last pending; pending = butlast pending
        in if pos = length (pw_order ctx)
           then and_then (assemble_regions ctx instances 0 fused_choices) (\<lambda>regions.
                if max_candidates < length (complete @ [regions]) then Err SearchLimitExceeded
                else region_loop ctx instances fuse max_candidates pending (complete @ [regions]))
           else if length (pw_order ctx) < pos then Panic
           else and_then (fusion_alternatives ctx instances fuse pos) (\<lambda>alternatives.
                and_then (try_fold (push_alternative max_candidates (length complete) pos fused_choices) pending (rev alternatives)) (\<lambda>pending.
                if max_candidates < usize_saturating_add (length (pending @ [(pos + 1, fused_choices)])) (length complete)
                then Err SearchLimitExceeded
                else region_loop ctx instances fuse max_candidates (pending @ [(pos + 1, fused_choices)]) complete)))"
  by pat_completeness auto
termination
proof (relation "inv_image (mult less_than)
    (\<lambda>(ctx, _, _, _, pending, _). mset (map (\<lambda>(pos, _). length (pw_order ctx) - pos) pending))", goal_cases)
  case 1
  show ?case by (simp add: wf_mult)
next
  case (2 ctx instances fuse max_candidates pending complete x pos fused rest regions)
  then have "pending = rest @ [(pos, fused)]" by (metis append_butlast_last_id)
  then show ?case using mult_replace [of "{#}"] by simp
next
  case (3 ctx instances fuse max_candidates pending complete x pos fused rest alternatives pending')
  let ?m = "\<lambda>(pos, _). length (pw_order ctx) - pos"
  have pending: "pending = rest @ [(pos, fused)]" using 3(1-4) by (metis append_butlast_last_id)
  define new where "new = map (\<lambda>kern. (pos + length (kd_implements kern), fused @ [(pos, kern)])) (rev alternatives) @ [(pos + 1, fused)]"
  have "?m x < ?m (pos, fused)" if "x \<in> set new" for x
    using that set_fusion_alternatives [OF 3(7)] fusion_applies_longer [of ctx instances pos] 3(5,6)
    by (fastforce simp: new_def split: if_splits)
  then have "(mset (map ?m rest) + mset (map ?m new), mset (map ?m rest) + {#?m (pos, fused)#}) \<in> mult less_than"
    by (intro mult_replace) auto
  moreover have "pending' @ [(pos + 1, fused)] = rest @ new"
    unfolding push_alternatives_Ok [OF 3(8)] new_def by simp
  ultimately show ?case unfolding pending by simp
qed

declare region_loop.simps [simp del]

definition instances_of :: "graph \<Rightarrow> instance_map" where
  "instances_of g = bt_collect (map (\<lambda>node. (ni_id node, node)) (g_nodes g))"

definition build_semantic_region_candidates ::
    "physical_lowering \<Rightarrow> bool \<Rightarrow> usize \<Rightarrow> (compile_error, compiled_node list list) outcome" where
  "build_semantic_region_candidates ctx fuse max_candidates =
     region_loop ctx (instances_of (pw_graph ctx)) fuse max_candidates [(0, [])] []"

section \<open>Tilings\<close>

text \<open>The ways to choose fused runs from a position on.\<close>

definition alternatives_at :: "physical_lowering \<Rightarrow> instance_map \<Rightarrow> bool \<Rightarrow> usize \<Rightarrow> kernel_descriptor list" where
  "alternatives_at ctx instances fuse pos =
     (case fusion_alternatives ctx instances fuse pos of Ok alternatives \<Rightarrow> alternatives | _ \<Rightarrow> [])"

lemma alternatives_at_longer:
  assumes "kern \<in> set (alternatives_at ctx instances fuse pos)"
  shows "2 \<le> length (kd_implements kern)" "pos + length (kd_implements kern) \<le> length (pw_order ctx)"
    "kern \<in> set (bt_values (reg_kernels (pw_registry ctx)))" "fusion_applies ctx instances pos kern = Ok True" fuse
  using assms set_fusion_alternatives [of ctx instances fuse pos] fusion_applies_longer [of ctx instances pos kern]
  by (auto simp: alternatives_at_def split: outcome.splits if_splits)

function tilings :: "physical_lowering \<Rightarrow> instance_map \<Rightarrow> bool \<Rightarrow> usize \<Rightarrow> fused_choice list list" where
  "tilings ctx instances fuse pos =
     (if length (pw_order ctx) \<le> pos then [[]]
      else tilings ctx instances fuse (pos + 1) @
           concat (map (\<lambda>kern. map ((#) (pos, kern)) (tilings ctx instances fuse (pos + length (kd_implements kern))))
             (alternatives_at ctx instances fuse pos)))"
  by pat_completeness auto
termination
  by (relation "measure (\<lambda>(ctx, _, _, pos). length (pw_order ctx) - pos)") (auto dest: alternatives_at_longer)

declare tilings.simps [simp del]

definition pending_tilings ::
    "physical_lowering \<Rightarrow> instance_map \<Rightarrow> bool \<Rightarrow> (usize \<times> fused_choice list) list \<Rightarrow> fused_choice list list" where
  "pending_tilings ctx instances fuse pending =
     concat (map (\<lambda>(pos, chosen). map ((@) chosen) (tilings ctx instances fuse pos)) (rev pending))"

lemma pending_tilings_simps [simp]:
  "pending_tilings ctx instances fuse [] = []"
  "pending_tilings ctx instances fuse (pending @ [(pos, chosen)]) =
     map ((@) chosen) (tilings ctx instances fuse pos) @ pending_tilings ctx instances fuse pending"
  by (simp_all add: pending_tilings_def)

lemma pending_tilings_push:
  "pending_tilings ctx instances fuse
     (pending @ map (\<lambda>kern. (pos + length (kd_implements kern), chosen @ [(pos, kern)])) (rev alternatives)) =
   concat (map (\<lambda>kern. map ((@) chosen) (map ((#) (pos, kern)) (tilings ctx instances fuse (pos + length (kd_implements kern))))) alternatives) @
   pending_tilings ctx instances fuse pending"
proof -
  have "(@) (chosen @ [c]) = (\<lambda>t. chosen @ c # t)" for c by auto
  then show ?thesis by (simp add: pending_tilings_def rev_map comp_def case_prod_unfold)
qed

lemma pending_tilings_expand:
  assumes "pos < length (pw_order ctx)" and "fusion_alternatives ctx instances fuse pos = Ok alternatives"
  shows "pending_tilings ctx instances fuse
     (pending @ map (\<lambda>kern. (pos + length (kd_implements kern), chosen @ [(pos, kern)])) (rev alternatives) @ [(pos + 1, chosen)]) =
    pending_tilings ctx instances fuse (pending @ [(pos, chosen)])"
proof -
  have "tilings ctx instances fuse pos = tilings ctx instances fuse (pos + 1) @
      concat (map (\<lambda>kern. map ((#) (pos, kern)) (tilings ctx instances fuse (pos + length (kd_implements kern)))) alternatives)"
    using assms by (subst tilings.simps) (simp add: alternatives_at_def)
  then show ?thesis
    using pending_tilings_push [of ctx instances fuse pending pos chosen alternatives]
    by (simp add: append_assoc [symmetric] map_concat comp_def del: append_assoc)
qed

text \<open>Induction over a run of the loop that succeeds.\<close>

lemma region_loop_Ok_induct [consumes 1, case_names Done Complete Expand]:
  assumes "region_loop ctx instances fuse max_candidates pending complete = Ok result"
    and "P [] result"
    and "\<And>rest chosen complete regions. assemble_regions ctx instances 0 chosen = Ok regions \<Longrightarrow>
      length (complete @ [regions]) \<le> max_candidates \<Longrightarrow> P rest (complete @ [regions]) \<Longrightarrow>
      P (rest @ [(length (pw_order ctx), chosen)]) complete"
    and "\<And>rest pos chosen complete alternatives. pos < length (pw_order ctx) \<Longrightarrow>
      fusion_alternatives ctx instances fuse pos = Ok alternatives \<Longrightarrow>
      P (rest @ map (\<lambda>kern. (pos + length (kd_implements kern), chosen @ [(pos, kern)])) (rev alternatives) @ [(pos + 1, chosen)]) complete \<Longrightarrow>
      P (rest @ [(pos, chosen)]) complete"
  shows "P pending complete"
  using assms
proof (induction ctx instances fuse max_candidates pending complete rule: region_loop.induct)
  case (1 ctx instances fuse max_candidates pending complete)
  note P = "1.prems"(2-4)
  show ?case
  proof (cases "pending = []")
    case True
    then show ?thesis using "1.prems"(1,2) by (simp add: region_loop.simps)
  next
    case False
    obtain pos chosen where lst: "last pending = (pos, chosen)" by fastforce
    define rest where "rest = butlast pending"
    have pending: "pending = rest @ [(pos, chosen)]" using False lst by (metis append_butlast_last_id rest_def)
    note unfolded = "1.prems"(1) [unfolded region_loop.simps [of ctx instances fuse max_candidates pending]]
    show ?thesis
    proof (cases "pos = length (pw_order ctx)")
      case True
      with unfolded False lst obtain regions where
        regions: "assemble_regions ctx instances 0 chosen = Ok regions"
        and next_loop: "\<not> max_candidates < length (complete @ [regions])"
          "region_loop ctx instances fuse max_candidates rest (complete @ [regions]) = Ok result"
        by (auto simp: Let_def outcome_simps rest_def [symmetric] split: if_splits)
      have "P rest (complete @ [regions])"
        by (rule "1.IH"(1) [OF False lst [symmetric] refl rest_def True regions next_loop]) (fact P)+
      then show ?thesis using P(2) [OF regions] next_loop(1) by (simp add: pending True)
    next
      case inner: False
      with unfolded False lst obtain alternatives pending' where
        not_past: "\<not> length (pw_order ctx) < pos"
        and alts: "fusion_alternatives ctx instances fuse pos = Ok alternatives"
        and pushed: "try_fold (push_alternative max_candidates (length complete) pos chosen) rest (rev alternatives) = Ok pending'"
        and limit: "\<not> max_candidates < usize_saturating_add (length (pending' @ [(pos + 1, chosen)])) (length complete)"
        and rest_loop: "region_loop ctx instances fuse max_candidates (pending' @ [(pos + 1, chosen)]) complete = Ok result"
        by (auto simp: Let_def outcome_simps rest_def [symmetric] split: if_splits)
      have "P (pending' @ [(pos + 1, chosen)]) complete"
        by (rule "1.IH"(2) [OF False lst [symmetric] refl rest_def inner not_past alts pushed limit rest_loop]) (fact P)+
      then show ?thesis
        using P(3) [OF _ alts, of rest chosen complete] not_past inner
        unfolding push_alternatives_Ok [OF pushed] by (simp add: pending)
    qed
  qed
qed

text \<open>The loop lists the candidates of the tilings in order.\<close>

lemma region_loop_tilings:
  assumes "region_loop ctx instances fuse max_candidates pending complete = Ok result"
  shows "\<exists>new. try_map (assemble_regions ctx instances 0) (pending_tilings ctx instances fuse pending) = Ok new \<and>
    result = complete @ new"
  using assms
proof (induction rule: region_loop_Ok_induct)
  case (Complete rest chosen complete regions)
  moreover have "tilings ctx instances fuse (length (pw_order ctx)) = [[]]" by (simp add: tilings.simps)
  ultimately show ?case by auto
next
  case (Expand rest pos chosen complete alternatives)
  then show ?case using pending_tilings_expand [OF Expand(1,2)] by simp
qed simp

lemma region_loop_bound:
  assumes "region_loop ctx instances fuse max_candidates pending complete = Ok result"
  shows "pending \<noteq> [] \<or> length complete \<le> max_candidates \<Longrightarrow> length result \<le> max_candidates"
  using assms by (induction rule: region_loop_Ok_induct) auto

lemma region_loop_alternatives:
  assumes "region_loop ctx instances fuse max_candidates pending complete = Ok result"
  shows "(p, chosen) \<in> set pending \<Longrightarrow> p \<le> q \<Longrightarrow> q < length (pw_order ctx) \<Longrightarrow>
    \<exists>ks. fusion_alternatives ctx instances fuse q = Ok ks"
  using assms
proof (induction arbitrary: p chosen rule: region_loop_Ok_induct)
  case (Expand rest pos chosen' complete alternatives)
  show ?case
  proof (cases "q = pos \<or> (p, chosen) \<in> set rest")
    case True
    then show ?thesis using Expand(2) Expand.IH [of p chosen] Expand.prems by auto
  next
    case False
    then have "p = pos" "pos < q" using Expand.prems by auto
    then show ?thesis using Expand.IH [of "pos + 1" chosen'] Expand.prems by simp
  qed
qed auto

section \<open>What a candidate is\<close>

definition fused_run :: "physical_lowering \<Rightarrow> instance_map \<Rightarrow> node_id list \<Rightarrow> kernel_descriptor \<Rightarrow> bool" where
  "fused_run ctx instances ids kern \<longleftrightarrow>
     2 \<le> length ids \<and> kern \<in> set (bt_values (reg_kernels (pw_registry ctx))) \<and> kd_target kern = pw_target ctx \<and>
     list_all2 (\<lambda>t i. \<exists>inst. bt_get instances i = Some inst \<and> t = instance_type inst) (kd_implements kern) ids \<and>
     (\<forall>i \<in> set ids. \<exists>d. bt_get (pw_descriptors ctx) i = Some d \<and> kd_determinism kern \<le> nd_determinism d \<and> fusible d) \<and>
     (\<exists>d e. bt_get (pw_descriptors ctx) (hd ids) = Some d \<and> bt_get (pw_descriptors ctx) (last ids) = Some e \<and>
        fused_layouts_compatible d e kern) \<and>
     (\<forall>e \<in> set (g_feedback (pw_graph ctx)). pr_node (fe_from e) \<notin> set ids \<and> pr_node (fe_to e) \<notin> set ids) \<and>
     (\<forall>pair \<in> set (windows2 ids). linear_pair (pw_graph ctx) (pw_descriptors ctx) pair = Ok True)"

definition region_of ::
    "physical_lowering \<Rightarrow> instance_map \<Rightarrow> node_id list \<Rightarrow> kernel_descriptor \<Rightarrow> compiled_node \<Rightarrow> bool" where
  "region_of ctx instances ids kern region \<longleftrightarrow>
     semantic_region ids kern (pw_descriptors ctx) instances = Ok region \<and>
     ((\<exists>i. ids = [i] \<and> bt_get (pw_kernels ctx) i = Some kern) \<or> fused_run ctx instances ids kern)"

lemma entry_at_Ok_iff [outcome_simps]: "entry_at m k = Ok v \<longleftrightarrow> bt_get m k = Some v"
  by (simp add: entry_at_def outcome_simps)

lemma linear_fusion_is_safe_True:
  assumes "linear_fusion_is_safe g ids descriptors = Ok True"
  shows "\<forall>e \<in> set (g_feedback g). pr_node (fe_from e) \<notin> set ids \<and> pr_node (fe_to e) \<notin> set ids"
    and "\<forall>i \<in> set ids. \<exists>d. bt_get descriptors i = Some d \<and> fusible d"
    and "\<forall>pair \<in> set (windows2 ids). linear_pair g descriptors pair = Ok True"
proof -
  note safe = assms [unfolded linear_fusion_is_safe_def]
  show "\<forall>e \<in> set (g_feedback g). pr_node (fe_from e) \<notin> set ids \<and> pr_node (fe_to e) \<notin> set ids"
    using safe by (auto split: if_splits)
  have "any_in (\<lambda>i. and_then (entry_at descriptors i) (\<lambda>d. Ok (\<not> fusible d))) ids = (Ok False :: (compile_error, bool) outcome)"
    "any_in (\<lambda>pair. and_then (linear_pair g descriptors pair) (\<lambda>ok. Ok (\<not> ok))) (windows2 ids) = Ok False"
    using safe by (auto simp: and_then_Ok_iff split: if_splits)
  then show "\<forall>i \<in> set ids. \<exists>d. bt_get descriptors i = Some d \<and> fusible d"
    and "\<forall>pair \<in> set (windows2 ids). linear_pair g descriptors pair = Ok True"
    by (auto simp: outcome_simps)
qed

lemma fusion_applies_run:
  assumes "fusion_applies ctx instances pos kern = Ok True" and "kern \<in> set (bt_values (reg_kernels (pw_registry ctx)))"
  shows "fused_run ctx instances (take (length (kd_implements kern)) (drop pos (pw_order ctx))) kern"
proof -
  define ids where "ids = take (length (kd_implements kern)) (drop pos (pw_order ctx))"
  have len: "2 \<le> length (kd_implements kern)" "pos + length (kd_implements kern) \<le> length (pw_order ctx)"
    "kd_target kern = pw_target ctx"
    using assms(1) by (auto simp: fusion_applies_def split: if_splits)
  then have ids: "length ids = length (kd_implements kern)" by (simp add: ids_def)
  then have "ids \<noteq> []" using len by auto
  have types: "any_in (\<lambda>(implemented, i). and_then (entry_at instances i) (\<lambda>inst. Ok (implemented \<noteq> instance_type inst)))
      (zip (kd_implements kern) ids) = (Ok False :: (compile_error, bool) outcome)"
    and weaker: "any_in (\<lambda>i. and_then (entry_at (pw_descriptors ctx) i) (\<lambda>d. Ok (\<not> kd_determinism kern \<le> nd_determinism d))) ids =
      (Ok False :: (compile_error, bool) outcome)"
    and layouts: "\<exists>d e. bt_get (pw_descriptors ctx) (ids ! 0) = Some d \<and> bt_get (pw_descriptors ctx) (last ids) = Some e \<and>
      fused_layouts_compatible d e kern"
    and safe: "linear_fusion_is_safe (pw_graph ctx) ids (pw_descriptors ctx) = Ok True"
    using assms(1) len
    by (auto simp: fusion_applies_def slice_of_def ids_def [symmetric] and_then_Ok_iff index_Ok_iff entry_at_Ok_iff
        expect_Ok_iff last_opt_Some_iff split: if_splits)
  have "list_all2 (\<lambda>t i. \<exists>inst. bt_get instances i = Some inst \<and> t = instance_type inst) (kd_implements kern) ids"
    using types ids by (auto simp: list_all2_iff outcome_simps)
  moreover have "\<exists>d. bt_get (pw_descriptors ctx) i = Some d \<and> kd_determinism kern \<le> nd_determinism d \<and> fusible d" if "i \<in> set ids" for i
    using weaker linear_fusion_is_safe_True(2) [OF safe] that by (fastforce simp: outcome_simps)
  ultimately show ?thesis
    unfolding fused_run_def ids_def [symmetric]
    using len ids layouts assms(2) linear_fusion_is_safe_True(1,3) [OF safe] \<open>ids \<noteq> []\<close> by (auto simp: hd_conv_nth)
qed

lemma tilings_start: "choices \<in> set (tilings ctx instances fuse pos) \<Longrightarrow> (start, kern) \<in> set choices \<Longrightarrow> pos \<le> start"
proof (induction ctx instances fuse pos arbitrary: choices rule: tilings.induct)
  case (1 ctx instances fuse pos)
  then show ?case
    by (fastforce simp: tilings.simps [of ctx instances fuse pos] split: if_splits dest: Suc_leD le_trans [rotated])
qed

lemma assemble_regions_Ok:
  assumes "choices \<in> set (tilings ctx instances fuse pos)" and "assemble_regions ctx instances pos choices = Ok regions"
  shows "concat (map cn_semantic_nodes regions) = drop pos (pw_order ctx) \<and>
    (\<forall>region \<in> set regions. \<exists>ids kern. region_of ctx instances ids kern region)"
  using assms
proof (induction ctx instances pos choices arbitrary: regions rule: assemble_regions.induct)
  case (1 ctx instances pos choices)
  show ?case
  proof (cases "pos < length (pw_order ctx)")
    case False
    then show ?thesis using "1.prems" by (simp add: assemble_regions.simps)
  next
    case lt: True
    have nodes: "cn_semantic_nodes region = ids" if "semantic_region ids kern ds is = Ok region" for region ids kern ds "is"
      using that by (auto simp: semantic_region_def outcome_simps Let_def)
    show ?thesis
    proof (cases "\<exists>kern rest. choices = (pos, kern) # rest")
      case True
      then obtain kern rest where c: "choices = (pos, kern) # rest" by blast
      have "(pos, kern) # rest \<notin> set (tilings ctx instances fuse (pos + 1))"
        using tilings_start [of _ ctx instances fuse "pos + 1" pos kern] by fastforce
      with "1.prems"(1) lt c have alt: "kern \<in> set (alternatives_at ctx instances fuse pos)"
        and rest: "rest \<in> set (tilings ctx instances fuse (pos + length (kd_implements kern)))"
        by (auto simp: tilings.simps [of ctx instances fuse pos])
      define ids where "ids = take (length (kd_implements kern)) (drop pos (pw_order ctx))"
      from "1.prems"(2) lt obtain region regions' where
        slice: "slice_of (pw_order ctx) pos (pos + length (kd_implements kern)) = (Ok ids :: (compile_error, node_id list) outcome)"
        and region: "semantic_region ids kern (pw_descriptors ctx) instances = Ok region"
        and more: "assemble_regions ctx instances (pos + length (kd_implements kern)) rest = Ok regions'"
        and regions: "regions = region # regions'"
        unfolding c by (auto simp: assemble_regions.simps [of ctx instances pos "(pos, kern) # rest"] outcome_simps slice_of_def ids_def
            split: if_splits)
      have "region_of ctx instances ids kern region"
        using region fusion_applies_run [OF alternatives_at_longer(4,3) [OF alt]] by (simp add: region_of_def ids_def)
      moreover have "drop pos (pw_order ctx) = ids @ drop (pos + length (kd_implements kern)) (pw_order ctx)"
        by (simp add: ids_def) (metis add.commute append_take_drop_id drop_drop)
      ultimately show ?thesis
        using "1.IH"(2) [OF lt c refl refl slice region rest more] nodes [OF region] regions by auto
    next
      case False
      with "1.prems"(1) lt have later: "choices \<in> set (tilings ctx instances fuse (pos + 1))"
        by (auto simp: tilings.simps [of ctx instances fuse pos])
      from "1.prems"(2) lt False obtain kern region regions' where
        kern: "bt_get (pw_kernels ctx) (pw_order ctx ! pos) = Some kern"
        and region: "semantic_region [pw_order ctx ! pos] kern (pw_descriptors ctx) instances = Ok region"
        and more: "assemble_regions ctx instances (pos + 1) choices = Ok regions'"
        and regions: "regions = region # regions'"
        by (auto simp: assemble_regions.simps [of ctx instances pos choices] outcome_simps split: list.splits if_splits)
      have "concat (map cn_semantic_nodes regions') = drop (pos + 1) (pw_order ctx) \<and>
          (\<forall>region \<in> set regions'. \<exists>ids kern. region_of ctx instances ids kern region)"
        using "1.IH"(1,3) lt False kern region later more
        by (cases choices) (auto simp: entry_at_Ok_iff)
      moreover have "region_of ctx instances [pw_order ctx ! pos] kern region"
        using region kern by (simp add: region_of_def)
      ultimately show ?thesis
        using nodes [OF region] regions lt by (auto simp: Cons_nth_drop_Suc)
    qed
  qed
qed

section \<open>Exactness of the enumeration\<close>

fun tiling :: "physical_lowering \<Rightarrow> instance_map \<Rightarrow> bool \<Rightarrow> usize \<Rightarrow> fused_choice list \<Rightarrow> bool" where
  "tiling ctx instances fuse pos [] = True"
| "tiling ctx instances fuse pos ((start, kern) # rest) =
     (fuse \<and> pos \<le> start \<and> start + length (kd_implements kern) \<le> length (pw_order ctx) \<and>
      fused_run ctx instances (take (length (kd_implements kern)) (drop start (pw_order ctx))) kern \<and>
      tiling ctx instances fuse (start + length (kd_implements kern)) rest)"

lemma linear_fusion_is_safe_run:
  assumes "fused_run ctx instances ids kern"
  shows "linear_fusion_is_safe (pw_graph ctx) ids (pw_descriptors ctx) = Ok True"
proof -
  have "any_in (\<lambda>i. and_then (entry_at (pw_descriptors ctx) i) (\<lambda>d. Ok (\<not> fusible d))) ids = (Ok False :: (compile_error, bool) outcome)"
    using assms by (fastforce simp: fused_run_def outcome_simps)
  moreover have "any_in (\<lambda>pair. and_then (linear_pair (pw_graph ctx) (pw_descriptors ctx) pair) (\<lambda>ok. Ok (\<not> ok))) (windows2 ids) =
      (Ok False :: (compile_error, bool) outcome)"
    using assms by (fastforce simp: fused_run_def outcome_simps)
  ultimately show ?thesis
    using assms by (auto simp: linear_fusion_is_safe_def fused_run_def)
qed

lemma fusion_applies_iff:
  assumes "kern \<in> set (bt_values (reg_kernels (pw_registry ctx)))"
  shows "fusion_applies ctx instances pos kern = Ok True \<longleftrightarrow>
    pos + length (kd_implements kern) \<le> length (pw_order ctx) \<and>
    fused_run ctx instances (take (length (kd_implements kern)) (drop pos (pw_order ctx))) kern"
proof
  assume "fusion_applies ctx instances pos kern = Ok True"
  then show "pos + length (kd_implements kern) \<le> length (pw_order ctx) \<and>
    fused_run ctx instances (take (length (kd_implements kern)) (drop pos (pw_order ctx))) kern"
    using fusion_applies_run [OF _ assms] fusion_applies_longer by blast
next
  define ids where "ids = take (length (kd_implements kern)) (drop pos (pw_order ctx))"
  assume "pos + length (kd_implements kern) \<le> length (pw_order ctx) \<and>
    fused_run ctx instances (take (length (kd_implements kern)) (drop pos (pw_order ctx))) kern"
  then have len: "pos + length (kd_implements kern) \<le> length (pw_order ctx)" and run: "fused_run ctx instances ids kern"
    by (simp_all add: ids_def)
  then have slice: "slice_of (pw_order ctx) pos (pos + length (kd_implements kern)) = (Ok ids :: (compile_error, node_id list) outcome)"
    and same: "length ids = length (kd_implements kern)" and "ids \<noteq> []"
    by (auto simp: slice_of_def ids_def fused_run_def)
  have "any_in (\<lambda>(implemented, i). and_then (entry_at instances i) (\<lambda>inst. Ok (implemented \<noteq> instance_type inst)))
      (zip (kd_implements kern) ids) = (Ok False :: (compile_error, bool) outcome)"
    using run by (fastforce simp: fused_run_def outcome_simps list_all2_iff)
  moreover have "any_in (\<lambda>i. and_then (entry_at (pw_descriptors ctx) i) (\<lambda>d. Ok (\<not> kd_determinism kern \<le> nd_determinism d))) ids =
      (Ok False :: (compile_error, bool) outcome)"
    using run by (fastforce simp: fused_run_def outcome_simps)
  moreover obtain d e where "bt_get (pw_descriptors ctx) (ids ! 0) = Some d" "bt_get (pw_descriptors ctx) (last ids) = Some e"
    "fused_layouts_compatible d e kern"
    using run \<open>ids \<noteq> []\<close> by (auto simp: fused_run_def hd_conv_nth)
  moreover have "last_opt ids = Some (last ids)" "kd_implements kern \<noteq> []"
    using \<open>ids \<noteq> []\<close> same by (auto simp: last_opt_Some_iff)
  ultimately show "fusion_applies ctx instances pos kern = Ok True"
    using len run same slice linear_fusion_is_safe_run [OF run] \<open>ids \<noteq> []\<close>
    by (simp add: fusion_applies_def index_def entry_at_def fused_run_def)
qed

lemma tiling_later: "tiling ctx instances fuse pos choices \<Longrightarrow> pos' \<le> pos \<Longrightarrow> tiling ctx instances fuse pos' choices"
  by (cases choices) auto

lemma tilings_iff:
  assumes "\<And>p. p < length (pw_order ctx) \<Longrightarrow> \<exists>ks. fusion_alternatives ctx instances fuse p = Ok ks"
    and "pos \<le> length (pw_order ctx)"
  shows "choices \<in> set (tilings ctx instances fuse pos) \<longleftrightarrow> tiling ctx instances fuse pos choices"
  using assms
proof (induction ctx instances fuse pos arbitrary: choices rule: tilings.induct)
  case (1 ctx instances fuse pos)
  show ?case
  proof (cases "length (pw_order ctx) \<le> pos")
    case True
    have "\<not> tiling ctx instances fuse pos (c # cs)" for c cs
    proof
      assume "tiling ctx instances fuse pos (c # cs)"
      then obtain start kern where "pos \<le> start" "start + length (kd_implements kern) \<le> length (pw_order ctx)"
        "fused_run ctx instances (take (length (kd_implements kern)) (drop start (pw_order ctx))) kern"
        by (cases c) auto
      then show False using True by (auto simp: fused_run_def)
    qed
    then show ?thesis using True by (cases choices) (auto simp: tilings.simps)
  next
    case lt: False
    then obtain ks where ks: "fusion_alternatives ctx instances fuse pos = Ok ks" using "1.prems"(1) by fastforce
    then have alts: "alternatives_at ctx instances fuse pos = ks" by (simp add: alternatives_at_def)
    have mem: "kern \<in> set ks \<longleftrightarrow> fuse \<and> pos + length (kd_implements kern) \<le> length (pw_order ctx) \<and>
        fused_run ctx instances (take (length (kd_implements kern)) (drop pos (pw_order ctx))) kern" for kern
      using set_fusion_alternatives [OF ks] fusion_applies_iff [of kern ctx instances pos]
      by (auto simp: fused_run_def split: if_splits)
    have later: "cs \<in> set (tilings ctx instances fuse (pos + 1)) \<longleftrightarrow> tiling ctx instances fuse (pos + 1) cs" for cs
      using "1.IH"(1) [OF lt "1.prems"(1)] lt by simp
    have after: "cs \<in> set (tilings ctx instances fuse (pos + length (kd_implements kern))) \<longleftrightarrow>
        tiling ctx instances fuse (pos + length (kd_implements kern)) cs" if "kern \<in> set ks" for cs kern
      using "1.IH"(2) [OF lt, of kern] that mem [of kern] "1.prems"(1) by (simp add: alts)
    have "choices \<in> set (tilings ctx instances fuse pos) \<longleftrightarrow>
        choices \<in> set (tilings ctx instances fuse (pos + 1)) \<or>
        (\<exists>kern \<in> set ks. choices \<in> (#) (pos, kern) ` set (tilings ctx instances fuse (pos + length (kd_implements kern))))"
      using lt by (subst tilings.simps) (simp add: alts)
    also have "\<dots> \<longleftrightarrow> tiling ctx instances fuse (pos + 1) choices \<or>
        (\<exists>kern \<in> set ks. \<exists>rest. choices = (pos, kern) # rest \<and> tiling ctx instances fuse (pos + length (kd_implements kern)) rest)"
      unfolding later image_iff using after by blast
    also have "\<dots> \<longleftrightarrow> tiling ctx instances fuse pos choices"
    proof (cases choices)
      case (Cons c rest)
      obtain start kern where c: "c = (start, kern)" by fastforce
      have "pos \<le> start \<longleftrightarrow> start = pos \<or> pos + 1 \<le> start" by auto
      then show ?thesis unfolding Cons c using mem [of kern] by auto
    qed simp
    finally show ?thesis .
  qed
qed

text \<open>
  C25. The candidates of the lowering are exactly the ways to cut the execution order into regions. A
  choice of fused runs yields a candidate if and only if the runs are disjoint and each is executed by
  a registered kernel for the target that implements precisely the node types of the run, on pure,
  stateless, atomic nodes joined by single edges and free of feedback; each candidate executes every
  node exactly once and in order. The number of candidates is within the limit.
\<close>

theorem region_candidates_exact:
  assumes "build_semantic_region_candidates ctx fuse max_candidates = Ok candidates"
  shows "(\<exists>choices. list_all2 (\<lambda>chosen regions. assemble_regions ctx (instances_of (pw_graph ctx)) 0 chosen = Ok regions) choices candidates \<and>
      set choices = {chosen. tiling ctx (instances_of (pw_graph ctx)) fuse 0 chosen}) \<and>
    (\<forall>regions \<in> set candidates. concat (map cn_semantic_nodes regions) = pw_order ctx \<and>
      (\<forall>region \<in> set regions. \<exists>ids kern. region_of ctx (instances_of (pw_graph ctx)) ids kern region)) \<and>
    length candidates \<le> max_candidates"
proof -
  define instances where "instances = instances_of (pw_graph ctx)"
  have loop: "region_loop ctx instances fuse max_candidates [(0, [])] [] = Ok candidates"
    using assms by (simp add: build_semantic_region_candidates_def instances_def)
  from region_loop_tilings [OF loop]
  have assembled: "try_map (assemble_regions ctx instances 0) (tilings ctx instances fuse 0) = Ok candidates"
    by (simp add: pending_tilings_def map_idI)
  have "\<exists>ks. fusion_alternatives ctx instances fuse q = Ok ks" if "q < length (pw_order ctx)" for q
    using region_loop_alternatives [OF loop, of 0 "[]" q] that by simp
  then have set_choices: "set (tilings ctx instances fuse 0) = {chosen. tiling ctx instances fuse 0 chosen}"
    using tilings_iff [of ctx instances fuse 0] by auto
  with assembled have "\<exists>choices. list_all2 (\<lambda>chosen regions. assemble_regions ctx instances 0 chosen = Ok regions) choices candidates \<and>
      set choices = {chosen. tiling ctx instances fuse 0 chosen}"
    by (auto simp: try_map_Ok_iff)
  moreover have "\<forall>regions \<in> set candidates. concat (map cn_semantic_nodes regions) = pw_order ctx \<and>
      (\<forall>region \<in> set regions. \<exists>ids kern. region_of ctx instances ids kern region)"
  proof
    fix regions
    assume "regions \<in> set candidates"
    then obtain i where "i < length candidates" "regions = candidates ! i" by (auto simp: in_set_conv_nth)
    then have "tilings ctx instances fuse 0 ! i \<in> set (tilings ctx instances fuse 0)"
      "assemble_regions ctx instances 0 (tilings ctx instances fuse 0 ! i) = Ok regions"
      using assembled by (auto simp: try_map_Ok_iff list_all2_conv_all_nth)
    from assemble_regions_Ok [OF this] show "concat (map cn_semantic_nodes regions) = pw_order ctx \<and>
      (\<forall>region \<in> set regions. \<exists>ids kern. region_of ctx instances ids kern region)" by simp
  qed
  moreover have "length candidates \<le> max_candidates" using region_loop_bound [OF loop] by simp
  ultimately show ?thesis unfolding instances_def by blast
qed

text \<open>Two nodes in a row, each with its own kernel, and one kernel that executes both.\<close>

definition pair_descriptor :: node_descriptor where
  "pair_descriptor = sample_descriptor [port_opaque ''in'' ''samples'' 64] [port_opaque ''out'' ''samples'' 64]"

definition pair_kernel :: kernel_descriptor where
  "pair_kernel = (sample_kernel 9)\<lparr>kd_implements := [\<lparr>ntr_type_name = ''example'', ntr_version = 1\<rparr>, \<lparr>ntr_type_name = ''example'', ntr_version = 1\<rparr>]\<rparr>"

definition pair_lowering :: physical_lowering where
  "pair_lowering =
     \<lparr>pw_graph = sample_graph [1, 2] [link 1 2], pw_order = [1, 2],
      pw_descriptors = [(1, pair_descriptor), (2, pair_descriptor)],
      pw_kernels = [(1, sample_kernel 7), (2, sample_kernel 7)],
      pw_registry = \<lparr>reg_descriptors = [((''example'', 1), pair_descriptor)],
                     reg_kernels = [(7, sample_kernel 7), (9, pair_kernel)], reg_subgraphs = []\<rparr>,
      pw_target = Target_Host\<rparr>"

lemma pair_instances: "instances_of (pw_graph pair_lowering) = [(1, sample_instance 1), (2, sample_instance 2)]"
  by (simp add: instances_of_def pair_lowering_def sample_graph_def sample_instance_def bt_collect_def bt_empty_def)

lemma pair_linear: "linear_fusion_is_safe (pw_graph pair_lowering) [1, 2] (pw_descriptors pair_lowering) = Ok True"
  by (simp add: linear_fusion_is_safe_def pair_lowering_def sample_graph_def any_in_def any_of.simps entry_at_def bt_get_def
      pair_descriptor_def sample_descriptor_def port_opaque_def fusible_def stateless_def checkpointable_def linear_pair_def)

lemma pair_layouts: "fused_layouts_compatible pair_descriptor pair_descriptor pair_kernel"
  by (simp add: fused_layouts_compatible_def layouts_compatible_def pair_descriptor_def sample_descriptor_def port_opaque_def
      pair_kernel_def sample_kernel_def)

lemma pair_applies: "fusion_applies pair_lowering [(1, sample_instance 1), (2, sample_instance 2)] 0 pair_kernel = Ok True"
proof -
  have "kd_target pair_kernel = pw_target pair_lowering" "pw_order pair_lowering = [1, 2]"
    "kd_determinism pair_kernel = BitExact" "kd_implements pair_kernel = [instance_type (sample_instance 1), instance_type (sample_instance 2)]"
    "pw_descriptors pair_lowering = [(1, pair_descriptor), (2, pair_descriptor)]" "nd_determinism pair_descriptor = BitExact"
    by (simp_all add: pair_kernel_def sample_kernel_def pair_lowering_def instance_type_def sample_instance_def
       pair_descriptor_def sample_descriptor_def)
  then show ?thesis using pair_linear pair_layouts
    by (simp add: fusion_applies_def slice_of_def any_in_def any_of.simps entry_at_def bt_get_def index_def last_opt_def)
qed

lemma pair_alternatives:
  "fusion_alternatives pair_lowering [(1, sample_instance 1), (2, sample_instance 2)] True 0 = Ok [pair_kernel]"
  "fusion_alternatives pair_lowering [(1, sample_instance 1), (2, sample_instance 2)] True (Suc 0) = Ok []"
proof -
  have "bt_values (reg_kernels (pw_registry pair_lowering)) = [sample_kernel 7, pair_kernel]"
    by (simp add: pair_lowering_def bt_values_def)
  moreover have "fusion_applies pair_lowering instances pos (sample_kernel 7) = Ok False"
    "fusion_applies pair_lowering instances (Suc 0) pair_kernel = Ok False" for instances pos
    by (simp_all add: fusion_applies_def sample_kernel_def pair_kernel_def pair_lowering_def)
  ultimately show "fusion_alternatives pair_lowering [(1, sample_instance 1), (2, sample_instance 2)] True 0 = Ok [pair_kernel]"
    "fusion_alternatives pair_lowering [(1, sample_instance 1), (2, sample_instance 2)] True (Suc 0) = Ok []"
    by (simp_all add: fusion_alternatives_def pair_applies)
qed

lemma pair_region:
  assumes "ids \<in> {[1], [2], [1, 2]}" and "kern \<in> {sample_kernel 7, pair_kernel}"
  shows "\<exists>region. semantic_region ids kern (pw_descriptors pair_lowering) [(1, sample_instance 1), (2, sample_instance 2)] = Ok region"
proof -
  have "port_contracts (kd_input_layouts kern) [port_opaque ''in'' ''samples'' 64] =
      Ok [compiled_port_contract (port_opaque ''in'' ''samples'' 64) Layout_Canonical]"
    "port_contracts (kd_output_layouts kern) [port_opaque ''out'' ''samples'' 64] =
      Ok [compiled_port_contract (port_opaque ''out'' ''samples'' 64) Layout_Canonical]"
    using assms(2) by (auto simp: port_contracts_def select_layout_def port_opaque_def sample_kernel_def pair_kernel_def)
  moreover have "nd_inputs pair_descriptor = [port_opaque ''in'' ''samples'' 64]" "nd_outputs pair_descriptor = [port_opaque ''out'' ''samples'' 64]"
    by (simp_all add: pair_descriptor_def sample_descriptor_def)
  moreover have "pw_descriptors pair_lowering = [(1, pair_descriptor), (2, pair_descriptor)]" by (simp add: pair_lowering_def)
  ultimately show ?thesis
    using assms(1) by (auto simp: semantic_region_def index_def entry_at_def bt_get_def last_opt_def Let_def)
qed

lemma pair_candidates: "\<exists>a b. build_semantic_region_candidates pair_lowering True 10 = Ok [a, b]"
proof -
  let ?I = "[(1, sample_instance 1), (2, sample_instance 2)]"
  have kernels: "pw_kernels pair_lowering = [(1, sample_kernel 7), (2, sample_kernel 7)]"
    and order: "pw_order pair_lowering = [1, 2]" and two: "length (kd_implements pair_kernel) = Suc (Suc 0)"
    by (simp_all add: pair_lowering_def pair_kernel_def)
  obtain r1 r2 r12 where
    r1: "semantic_region [1] (sample_kernel 7) (pw_descriptors pair_lowering) ?I = Ok r1"
    and r2: "semantic_region [2] (sample_kernel 7) (pw_descriptors pair_lowering) ?I = Ok r2"
    and r12: "semantic_region [1, 2] pair_kernel (pw_descriptors pair_lowering) ?I = Ok r12"
    using pair_region [of "[1]" "sample_kernel 7"] pair_region [of "[2]" "sample_kernel 7"] pair_region [of "[1, 2]" pair_kernel]
    by auto
  have "assemble_regions pair_lowering ?I 2 [] = Ok []" by (subst assemble_regions.simps) (simp add: order)
  with r2 have "assemble_regions pair_lowering ?I 1 [] = Ok [r2]"
    by (subst assemble_regions.simps) (simp add: order kernels entry_at_def bt_get_def numeral_2_eq_2)
  with r1 have single: "assemble_regions pair_lowering ?I 0 [] = Ok [r1, r2]"
    by (subst assemble_regions.simps) (simp add: order kernels entry_at_def bt_get_def)
  have fused: "assemble_regions pair_lowering ?I 0 [(0, pair_kernel)] = Ok [r12]"
    using r12 by (subst assemble_regions.simps, simp add: order two slice_of_def) (subst assemble_regions.simps, simp add: order)
  let ?L = "region_loop pair_lowering ?I True 10"
  have "?L [(0, [])] [] = ?L [(Suc (Suc 0), [(0, pair_kernel)]), (Suc 0, [])] []"
    by (subst region_loop.simps) (simp add: order pair_alternatives push_alternative_def usize_saturating_add_def two)
  also have "\<dots> = ?L [(Suc (Suc 0), [(0, pair_kernel)]), (Suc (Suc 0), [])] []"
    by (subst region_loop.simps) (simp add: order pair_alternatives usize_saturating_add_def)
  also have "\<dots> = ?L [(Suc (Suc 0), [(0, pair_kernel)])] [[r1, r2]]"
    by (subst region_loop.simps) (simp add: order single)
  also have "\<dots> = ?L [] [[r1, r2], [r12]]"
    by (subst region_loop.simps) (simp add: order fused)
  also have "\<dots> = Ok [[r1, r2], [r12]]" by (simp add: region_loop.simps)
  finally show ?thesis unfolding build_semantic_region_candidates_def pair_instances by blast
qed

theorem region_candidates_exact_witness:
  "\<exists>a b. build_semantic_region_candidates pair_lowering True 10 = Ok [a, b] \<and>
     concat (map cn_semantic_nodes a) = [1, 2] \<and> concat (map cn_semantic_nodes b) = [1, 2]"
proof -
  obtain a b where built: "build_semantic_region_candidates pair_lowering True 10 = Ok [a, b]" using pair_candidates by blast
  have "pw_order pair_lowering = [1, 2]" by (simp add: pair_lowering_def)
  with built region_candidates_exact [OF built] show ?thesis by auto
qed

end
