(* ===== verification/Lowering.thy ===== *)
theory Lowering
  imports Buffers Regions
begin

text \<open>
  Lowering of one candidate to a physical plan, \<open>lower_semantic_regions\<close> of
  \<open>crates/blut-graph-core/src/compile.rs\<close>: the edges that cross regions are grouped by producing port,
  a layout and conversion routes are chosen per group, steps are emitted with the conversions of a
  consumer just before it, invocation ports and buffers are bound, and the buffers are renumbered,
  synchronised and shared.
\<close>

section \<open>Routes\<close>

record route =
  rt_consumer_region :: usize
  rt_input_index :: usize
  rt_path :: "kernel_descriptor list"

record port_group =
  pg_producer_region :: usize
  pg_output_index :: usize
  pg_layout :: layout
  pg_capacity_bytes :: u64
  pg_contract :: port_descriptor
  pg_routes :: "route list"

type_synonym owner_map = "(node_id, usize) btree_map"

definition region_owner :: "compiled_node list \<Rightarrow> owner_map" where
  "region_owner regions =
     bt_collect (concat (map (\<lambda>(i, node). map (\<lambda>n. (n, i)) (cn_semantic_nodes node)) (enumerate_list regions)))"

definition group_edge ::
    "owner_map \<Rightarrow> (port_ref, edge list) btree_map \<Rightarrow> edge \<Rightarrow> (compile_error, (port_ref, edge list) btree_map) outcome" where
  "group_edge owner grouped e =
     and_then (entry_at owner (pr_node (edge_from e))) (\<lambda>from_region.
     and_then (entry_at owner (pr_node (edge_to e))) (\<lambda>to_region.
     Ok (if from_region \<noteq> to_region then bt_push (edge_from e) e grouped else grouped)))"

definition shared_layouts :: "port_descriptor \<Rightarrow> layout list \<Rightarrow> layout list" where
  "shared_layouts port kernel_layouts = sort_dedup (filter (\<lambda>l. l \<in> set kernel_layouts) (pd_layouts port))"

definition kernel_workspace :: "kernel_descriptor \<Rightarrow> (compile_error, u64) outcome" where
  "kernel_workspace kern =
     ok_or (u64_checked_add (re_peak_bytes (kd_resources kern)) (re_scratch_bytes (kd_resources kern))) ResourceOverflow"

text \<open>The state of the loop over the edges of a group, for one layout of the producer.\<close>

record route_scan =
  rs_routes :: "route list"
  rs_conversion_count :: usize
  rs_conversion_workspace :: u64

definition region_kernel :: "physical_lowering \<Rightarrow> compiled_node list \<Rightarrow> usize \<Rightarrow> (compile_error, kernel_descriptor) outcome" where
  "region_kernel ctx regions i =
     and_then (index regions i) (\<lambda>region. expect (bt_get (reg_kernels (pw_registry ctx)) (cn_kernel region)))"

text \<open>The route of one edge, with the conversions it needs (\<open>None\<close> when there is no path) and the search budget used.\<close>

definition route_edge ::
    "physical_lowering \<Rightarrow> owner_map \<Rightarrow> compiled_node list \<Rightarrow> usize \<Rightarrow> port_descriptor \<Rightarrow> layout \<Rightarrow> usize \<Rightarrow> edge \<Rightarrow>
     (compile_error, route option \<times> usize) outcome" where
  "route_edge ctx owner regions max_states output source_layout searched e =
     and_then (entry_at (pw_descriptors ctx) (pr_node (edge_to e))) (\<lambda>consumer_descriptor.
     and_then (ok_or (position (\<lambda>port. pd_name port = pr_port (edge_to e)) (nd_inputs consumer_descriptor))
         (UnknownPort (pr_node (edge_to e)) (pr_port (edge_to e)))) (\<lambda>input_index.
     let input = nd_inputs consumer_descriptor ! input_index
     in and_then (entry_at owner (pr_node (edge_to e))) (\<lambda>consumer_region.
        and_then (region_kernel ctx regions consumer_region) (\<lambda>consumer_kernel.
        let targets = shared_layouts input (kd_input_layouts consumer_kernel)
        in and_then
             (if source_layout \<in> set targets \<and> pd_max_bytes output \<le> pd_max_bytes input then Ok (Some [], searched)
              else conversion_path (pw_registry ctx)
                \<lparr>rq_target = pw_target ctx, rq_semantic_type = pd_semantic_type output, rq_max_bytes = pd_max_bytes output,
                 rq_from = source_layout, rq_targets = targets, rq_target_max_bytes = pd_max_bytes input\<rparr>
                max_states searched) (\<lambda>(path, searched).
           Ok (map_option (\<lambda>path. \<lparr>rt_consumer_region = consumer_region, rt_input_index = input_index, rt_path = path\<rparr>) path,
               searched))))))"

definition add_route :: "route_scan \<Rightarrow> route \<Rightarrow> (compile_error, route_scan) outcome" where
  "add_route scan route =
     and_then (ok_or (usize_checked_add (rs_conversion_count scan) (length (rt_path route))) SearchLimitExceeded) (\<lambda>conversion_count.
     and_then (try_fold (\<lambda>workspace kern. and_then (kernel_workspace kern) (\<lambda>bytes. Ok (max workspace bytes)))
         (rs_conversion_workspace scan) (rt_path route)) (\<lambda>conversion_workspace.
     Ok \<lparr>rs_routes = rs_routes scan @ [route], rs_conversion_count = conversion_count,
         rs_conversion_workspace = conversion_workspace\<rparr>))"

fun route_edges ::
    "(usize \<Rightarrow> edge \<Rightarrow> (compile_error, route option \<times> usize) outcome) \<Rightarrow> route_scan \<Rightarrow> usize \<Rightarrow> edge list \<Rightarrow>
     (compile_error, route_scan option \<times> usize) outcome" where
  "route_edges route_one scan searched [] = Ok (Some scan, searched)"
| "route_edges route_one scan searched (e # edges) =
     and_then (route_one searched e) (\<lambda>(route, searched).
     case route of
       None \<Rightarrow> Ok (None, searched)
     | Some route \<Rightarrow> and_then (add_route scan route) (\<lambda>scan. route_edges route_one scan searched edges))"

type_synonym layout_choice = "usize \<times> u64 \<times> layout \<times> route list"

definition choice_score :: "layout_choice \<Rightarrow> usize \<times> u64 \<times> layout" where
  "choice_score choice = (fst choice, fst (snd choice), fst (snd (snd choice)))"

definition better_choice :: "layout_choice option \<Rightarrow> layout_choice \<Rightarrow> layout_choice option" where
  "better_choice best choice =
     (case best of
        None \<Rightarrow> Some choice
      | Some current \<Rightarrow> if choice_score choice < choice_score current then Some choice else Some current)"

definition try_layout ::
    "physical_lowering \<Rightarrow> owner_map \<Rightarrow> compiled_node list \<Rightarrow> usize \<Rightarrow> port_descriptor \<Rightarrow> edge list \<Rightarrow>
     layout_choice option \<times> usize \<Rightarrow> layout \<Rightarrow> (compile_error, layout_choice option \<times> usize) outcome" where
  "try_layout ctx owner regions max_states output edges state source_layout =
     and_then (route_edges (route_edge ctx owner regions max_states output source_layout)
         \<lparr>rs_routes = [], rs_conversion_count = 0, rs_conversion_workspace = 0\<rparr> (snd state) edges) (\<lambda>(scan, searched).
     Ok (case scan of
           None \<Rightarrow> fst state
         | Some scan \<Rightarrow> better_choice (fst state)
             (rs_conversion_count scan, rs_conversion_workspace scan, source_layout, rs_routes scan), searched))"

definition build_group ::
    "physical_lowering \<Rightarrow> owner_map \<Rightarrow> compiled_node list \<Rightarrow> usize \<Rightarrow> port_group list \<times> usize \<Rightarrow> port_ref \<times> edge list \<Rightarrow>
     (compile_error, port_group list \<times> usize) outcome" where
  "build_group ctx owner regions max_states state entry =
     (let source = fst entry; edges = sort_key edge_to (snd entry)
      in and_then (entry_at (pw_descriptors ctx) (pr_node source)) (\<lambda>producer_descriptor.
         and_then (ok_or (position (\<lambda>port. pd_name port = pr_port source) (nd_outputs producer_descriptor))
             (UnknownPort (pr_node source) (pr_port source))) (\<lambda>output_index.
         let output = nd_outputs producer_descriptor ! output_index
         in and_then (guard (pd_max_bytes output = 0) (InvalidPortSize (pr_node source) (pr_port source))) (\<lambda>_.
            and_then (entry_at owner (pr_node source)) (\<lambda>producer_region.
            and_then (region_kernel ctx regions producer_region) (\<lambda>producer_kernel.
            and_then (try_fold (try_layout ctx owner regions max_states output edges) (None, snd state)
                (shared_layouts output (kd_output_layouts producer_kernel))) (\<lambda>(best, searched).
            case best of
              None \<Rightarrow> Err (LayoutUnavailable (pr_node source) (pr_port source))
            | Some (_, _, l, routes) \<Rightarrow>
                Ok (fst state @ [\<lparr>pg_producer_region = producer_region, pg_output_index = output_index, pg_layout = l,
                                  pg_capacity_bytes = pd_max_bytes output, pg_contract = output, pg_routes = routes\<rparr>],
                    searched))))))))"

definition build_groups ::
    "physical_lowering \<Rightarrow> owner_map \<Rightarrow> compiled_node list \<Rightarrow> usize \<Rightarrow> (compile_error, port_group list) outcome" where
  "build_groups ctx owner regions max_states =
     and_then (try_fold (group_edge owner) bt_empty (g_edges (pw_graph ctx))) (\<lambda>grouped.
     and_then (try_fold (build_group ctx owner regions max_states) ([], 0) grouped) (\<lambda>(groups, _). Ok groups))"

section \<open>Steps\<close>

definition conversion_step ::
    "kernel_descriptor \<Rightarrow> layout_conversion \<Rightarrow> port_descriptor \<Rightarrow> u64 \<Rightarrow> step_id \<Rightarrow> compiled_node" where
  "conversion_step kern conversion port input_bytes i =
     \<lparr>cn_id = i, cn_semantic_nodes = [], cn_semantic_types = [], cn_semantic_configs = [], cn_kernel = kd_id kern,
      cn_implementation_id = kd_implementation_id kern, cn_resources = kd_resources kern,
      cn_determinism = kd_determinism kern, cn_lowering = kd_lowering kern, cn_conversion = Some conversion,
      cn_input_ports = [''input''], cn_output_ports = [''output''],
      cn_input_contracts = [conversion_port_contract port (cv_from conversion) ''input'' input_bytes],
      cn_output_contracts = [conversion_port_contract port (cv_to conversion) ''output'' (cv_max_output_bytes conversion)],
      cn_input_bindings = [Absent], cn_output_bindings = [Terminal], cn_partiality = Atomic,
      cn_failure = \<lparr>fc_domains = []\<rparr>, cn_effect = Pure, cn_retry_limit = 0, cn_state = stateless,
      cn_subgraph_path = []\<rparr>"

definition path_input_bytes :: "port_group \<Rightarrow> route \<Rightarrow> usize \<Rightarrow> (compile_error, u64) outcome" where
  "path_input_bytes grp route path_index =
     (if path_index = 0 then Ok (pg_capacity_bytes grp)
      else and_then (index (rt_path route) (path_index - 1)) (\<lambda>previous.
           and_then (expect (kd_conversion previous)) (\<lambda>conversion. Ok (cv_max_output_bytes conversion))))"

definition emit_conversion ::
    "port_group \<Rightarrow> route \<Rightarrow> compiled_node list \<times> step_id list \<Rightarrow> nat \<times> kernel_descriptor \<Rightarrow>
     (compile_error, compiled_node list \<times> step_id list) outcome" where
  "emit_conversion grp route state entry =
     and_then (expect (kd_conversion (snd entry))) (\<lambda>conversion.
     and_then (path_input_bytes grp route (fst entry)) (\<lambda>input_bytes.
     let i = word_of_nat (length (fst state))
     in Ok (fst state @ [conversion_step (snd entry) conversion (pg_contract grp) input_bytes i], snd state @ [i])))"

record emission =
  em_nodes :: "compiled_node list"
  em_semantic_steps :: "step_id list"
  em_conversion_steps :: "(usize \<times> usize, step_id list) btree_map"

definition emit_route ::
    "usize \<Rightarrow> usize \<Rightarrow> port_group \<Rightarrow> emission \<Rightarrow> nat \<times> route \<Rightarrow> (compile_error, emission) outcome" where
  "emit_route region_index group_index grp state entry =
     (if rt_consumer_region (snd entry) \<noteq> region_index then Ok state
      else and_then (try_fold (emit_conversion grp (snd entry)) (em_nodes state, []) (enumerate_list (rt_path (snd entry)))) (\<lambda>(nodes, steps).
           Ok (state\<lparr>em_nodes := nodes,
                     em_conversion_steps := bt_insert (group_index, fst entry) steps (em_conversion_steps state)\<rparr>)))"

definition emit_region ::
    "compiled_node list \<Rightarrow> port_group list \<Rightarrow> emission \<Rightarrow> usize \<Rightarrow> (compile_error, emission) outcome" where
  "emit_region regions groups state region_index =
     and_then (try_fold (\<lambda>state (group_index, grp).
         try_fold (emit_route region_index group_index grp) state (enumerate_list (pg_routes grp)))
       state (enumerate_list groups)) (\<lambda>state.
     and_then (index regions region_index) (\<lambda>region.
     let i = word_of_nat (length (em_nodes state))
     in Ok (state\<lparr>em_nodes := em_nodes state @ [region\<lparr>cn_id := i\<rparr>],
                  em_semantic_steps := (em_semantic_steps state)[region_index := i]\<rparr>)))"

definition emit_steps :: "compiled_node list \<Rightarrow> port_group list \<Rightarrow> (compile_error, emission) outcome" where
  "emit_steps regions groups =
     try_fold (emit_region regions groups)
       \<lparr>em_nodes = [], em_semantic_steps = replicate (length regions) 0, em_conversion_steps = bt_empty\<rparr>
       [0..<length regions]"

section \<open>Bindings\<close>

definition bind_invocation ::
    "physical_lowering \<Rightarrow> owner_map \<Rightarrow> compiled_node list \<Rightarrow> step_id list \<Rightarrow> compiled_node list \<Rightarrow> nat \<times> port_ref \<Rightarrow>
     (compile_error, compiled_node list) outcome" where
  "bind_invocation ctx owner regions semantic_steps nodes entry =
     (let invocation = snd entry
      in and_then (entry_at owner (pr_node invocation)) (\<lambda>region.
         and_then (index regions region) (\<lambda>semantic.
         and_then (guard (first_opt (cn_semantic_nodes semantic) \<noteq> Some (pr_node invocation))
             (DuplicateInput (pr_node invocation) (pr_port invocation))) (\<lambda>_.
         and_then (entry_at (pw_descriptors ctx) (pr_node invocation)) (\<lambda>descriptor.
         and_then (ok_or (position (\<lambda>port. pd_name port = pr_port invocation) (nd_inputs descriptor))
             (UnknownPort (pr_node invocation) (pr_port invocation))) (\<lambda>input_index.
         and_then (index semantic_steps region) (\<lambda>step.
         set_invocation nodes step input_index (word_of_nat (fst entry)))))))))"

definition bind_invocations ::
    "physical_lowering \<Rightarrow> owner_map \<Rightarrow> compiled_node list \<Rightarrow> emission \<Rightarrow> (compile_error, compiled_node list) outcome" where
  "bind_invocations ctx owner regions state =
     try_fold (bind_invocation ctx owner regions (em_semantic_steps state)) (em_nodes state)
       (enumerate_list (sort_dedup (g_invocation_inputs (pw_graph ctx))))"

type_synonym wiring = "compiled_node list \<times> buffer_plan list"

definition route_head :: "emission \<Rightarrow> usize \<Rightarrow> nat \<times> route \<Rightarrow> (compile_error, step_id) outcome" where
  "route_head state group_index entry =
     and_then (entry_at (em_conversion_steps state) (group_index, fst entry)) (\<lambda>path.
     and_then (index (em_semantic_steps state) (rt_consumer_region (snd entry))) (\<lambda>consumer.
     Ok (case path of [] \<Rightarrow> consumer | first # _ \<Rightarrow> first)))"

text \<open>One conversion of a route: its output buffer, bound to the next step of the path or to the consumer.\<close>

definition wire_conversion ::
    "step_id list \<Rightarrow> step_id \<Rightarrow> usize \<Rightarrow> wiring \<Rightarrow> nat \<times> step_id \<Rightarrow> (compile_error, wiring) outcome" where
  "wire_conversion path consumer input_index wiring entry =
     (let i = fst entry; step = snd entry;
          next_step = (case get path (i + 1) of Some s \<Rightarrow> s | None \<Rightarrow> consumer)
      in and_then (index (fst wiring) (unat step)) (\<lambda>node.
         and_then (expect (cn_conversion node)) (\<lambda>conversion.
         and_then (push_buffer (snd wiring) (cv_to conversion) (cv_max_output_bytes conversion) step [next_step]) (\<lambda>(buffers, output).
         and_then (set_output (fst wiring) step 0 output) (\<lambda>nodes.
         and_then (if i + 1 < length path then set_input nodes next_step 0 output
                   else set_input nodes next_step input_index output) (\<lambda>nodes.
         Ok (nodes, buffers)))))))"

definition wire_route ::
    "emission \<Rightarrow> usize \<Rightarrow> buffer_id \<Rightarrow> wiring \<Rightarrow> nat \<times> route \<Rightarrow> (compile_error, wiring) outcome" where
  "wire_route state group_index source_buffer wiring entry =
     and_then (entry_at (em_conversion_steps state) (group_index, fst entry)) (\<lambda>path.
     and_then (index (em_semantic_steps state) (rt_consumer_region (snd entry))) (\<lambda>consumer.
     case path of
       [] \<Rightarrow> and_then (set_input (fst wiring) consumer (rt_input_index (snd entry)) source_buffer) (\<lambda>nodes. Ok (nodes, snd wiring))
     | first # _ \<Rightarrow>
         and_then (set_input (fst wiring) first 0 source_buffer) (\<lambda>nodes.
         try_fold (wire_conversion path consumer (rt_input_index (snd entry))) (nodes, snd wiring) (enumerate_list path))))"

definition wire_group :: "emission \<Rightarrow> wiring \<Rightarrow> nat \<times> port_group \<Rightarrow> (compile_error, wiring) outcome" where
  "wire_group state wiring entry =
     (let group_index = fst entry; grp = snd entry
      in and_then (index (em_semantic_steps state) (pg_producer_region grp)) (\<lambda>producer.
         and_then (try_map (route_head state group_index) (enumerate_list (pg_routes grp))) (\<lambda>consumers.
         and_then (push_buffer (snd wiring) (pg_layout grp) (pg_capacity_bytes grp) producer (sort_dedup consumers))
           (\<lambda>(buffers, source_buffer).
         and_then (set_output (fst wiring) producer (pg_output_index grp) source_buffer) (\<lambda>nodes.
         try_fold (wire_route state group_index source_buffer) (nodes, buffers) (enumerate_list (pg_routes grp)))))))"

section \<open>The lowered plan\<close>

definition arena_bytes :: "buffer_plan list \<Rightarrow> (compile_error, u64) outcome" where
  "arena_bytes buffers =
     try_fold (\<lambda>total buffer. ok_or (u64_checked_add total (bp_capacity_bytes buffer)) ResourceOverflow) 0
       (filter (\<lambda>buffer. bp_aliases buffer = None) buffers)"

definition node_workspace :: "compiled_node \<Rightarrow> (compile_error, u64) outcome" where
  "node_workspace node =
     and_then (ok_or (u64_checked_add (re_peak_bytes (cn_resources node)) (re_scratch_bytes (cn_resources node))) ResourceOverflow)
       (\<lambda>workspace.
     if sc_scope (cn_state node) = ScopeInvocation
     then ok_or (u64_checked_add workspace (sc_max_bytes (cn_state node))) ResourceOverflow
     else Ok workspace)"

definition peak_of :: "compiled_node list \<Rightarrow> buffer_plan list \<Rightarrow> (compile_error, u64) outcome" where
  "peak_of nodes buffers =
     and_then (arena_bytes buffers) (\<lambda>arena.
     and_then (try_fold (\<lambda>peak node. and_then (node_workspace node) (\<lambda>workspace. Ok (max peak workspace))) 0 nodes) (\<lambda>workspace.
     ok_or (u64_checked_add arena workspace) ResourceOverflow))"

definition lower_semantic_regions ::
    "physical_lowering \<Rightarrow> compiled_node list \<Rightarrow> usize \<Rightarrow> (compile_error, compiled_node list \<times> buffer_plan list \<times> u64) outcome" where
  "lower_semantic_regions ctx regions max_conversion_states =
     (let owner = region_owner regions
      in and_then (build_groups ctx owner regions max_conversion_states) (\<lambda>groups.
         and_then (emit_steps regions groups) (\<lambda>state.
         and_then (bind_invocations ctx owner regions state) (\<lambda>nodes.
         and_then (try_fold (wire_group state) (nodes, []) (enumerate_list groups)) (\<lambda>(nodes, buffers).
         and_then (canonicalize_buffers nodes buffers) (\<lambda>(nodes, buffers).
         and_then (synchronize_port_layouts nodes buffers) (\<lambda>nodes.
         let buffers = assign_aliases buffers
         in and_then (peak_of nodes buffers) (\<lambda>peak. Ok (nodes, buffers, peak)))))))))"

section \<open>The best candidate\<close>

type_synonym lowered_plan = "compiled_node list \<times> buffer_plan list \<times> u64"

type_synonym lowered_candidate = "u64 \<times> usize \<times> kernel_id list \<times> compiled_node list \<times> buffer_plan list"

definition lowered_score :: "lowered_plan \<Rightarrow> u64 \<times> usize \<times> kernel_id list" where
  "lowered_score lowered = (case lowered of (nodes, _, peak) \<Rightarrow> (peak, length nodes, map cn_kernel nodes))"

definition candidate_score :: "lowered_candidate \<Rightarrow> u64 \<times> usize \<times> kernel_id list" where
  "candidate_score candidate = (case candidate of (peak, steps, kernels, _) \<Rightarrow> (peak, steps, kernels))"

definition better_candidate :: "lowered_candidate option \<Rightarrow> lowered_plan \<Rightarrow> lowered_candidate option" where
  "better_candidate best lowered =
     (case lowered of (nodes, buffers, peak) \<Rightarrow>
        let score = lowered_score lowered
        in if (case best of None \<Rightarrow> True | Some current \<Rightarrow> score < candidate_score current)
           then Some (fst score, fst (snd score), snd (snd score), nodes, buffers) else best)"

definition candidate_plan :: "lowered_candidate \<Rightarrow> lowered_plan" where
  "candidate_plan candidate = (case candidate of (peak, _, _, nodes, buffers) \<Rightarrow> (nodes, buffers, peak))"

record candidate_scan =
  ls_best :: "lowered_candidate option"
  ls_first_error :: "compile_error option"
  ls_saw_resource_limit :: bool
  ls_saw_compile_limit :: bool

definition lower_candidate ::
    "physical_lowering \<Rightarrow> physical_search_limits \<Rightarrow> candidate_scan \<Rightarrow> compiled_node list \<Rightarrow> (compile_error, candidate_scan) outcome" where
  "lower_candidate ctx limits scan regions =
     (case lower_semantic_regions ctx regions (ps_conversion_states limits) of
        Ok (nodes, buffers, peak) \<Rightarrow>
          Ok (if ps_max_steps limits < length nodes \<or> ps_max_buffers limits < length buffers
              then scan\<lparr>ls_saw_compile_limit := True\<rparr>
              else if ps_max_peak_bytes limits < peak then scan\<lparr>ls_saw_resource_limit := True\<rparr>
              else scan\<lparr>ls_best := better_candidate (ls_best scan) (nodes, buffers, peak)\<rparr>)
      | Err error \<Rightarrow>
          Ok (case ls_first_error scan of None \<Rightarrow> scan\<lparr>ls_first_error := Some error\<rparr> | Some _ \<Rightarrow> scan)
      | Panic \<Rightarrow> Panic)"

definition lower_physical_plan ::
    "physical_lowering \<Rightarrow> bool \<Rightarrow> physical_search_limits \<Rightarrow> (compile_error, lowered_plan) outcome" where
  "lower_physical_plan ctx fuse limits =
     and_then (build_semantic_region_candidates ctx fuse (ps_region_candidates limits)) (\<lambda>candidates.
     and_then (try_fold (lower_candidate ctx limits)
         \<lparr>ls_best = None, ls_first_error = None, ls_saw_resource_limit = False, ls_saw_compile_limit = False\<rparr>
         candidates) (\<lambda>scan.
     ok_or (map_option candidate_plan (ls_best scan))
       (if ls_saw_resource_limit scan then ResourceOverflow
        else if ls_saw_compile_limit scan then CompileLimitExceeded
        else (case ls_first_error scan of Some error \<Rightarrow> error | None \<Rightarrow> ResourceOverflow))))"

section \<open>The choice is the best\<close>

definition best_of :: "lowered_candidate option \<Rightarrow> lowered_plan set \<Rightarrow> bool" where
  "best_of best plans \<longleftrightarrow>
     (case best of
        None \<Rightarrow> plans = {}
      | Some candidate \<Rightarrow>
          candidate_plan candidate \<in> plans \<and> candidate_score candidate = lowered_score (candidate_plan candidate) \<and>
          (\<forall>lowered \<in> plans. candidate_score candidate \<le> lowered_score lowered))"

lemma best_of_None [simp]: "best_of None {}"
  by (simp add: best_of_def)

definition as_candidate :: "lowered_plan \<Rightarrow> lowered_candidate" where
  "as_candidate lowered = (case lowered of (nodes, buffers, peak) \<Rightarrow> (peak, length nodes, map cn_kernel nodes, nodes, buffers))"

lemma as_candidate [simp]:
  "candidate_plan (as_candidate lowered) = lowered" "candidate_score (as_candidate lowered) = lowered_score lowered"
  by (cases lowered; simp add: as_candidate_def candidate_plan_def candidate_score_def lowered_score_def)+

lemma better_candidate_eq:
  "better_candidate best lowered =
     (case best of
        None \<Rightarrow> Some (as_candidate lowered)
      | Some current \<Rightarrow> if lowered_score lowered < candidate_score current then Some (as_candidate lowered) else best)"
  by (cases lowered; cases best) (simp_all add: better_candidate_def as_candidate_def lowered_score_def)

lemma best_of_insert:
  assumes "best_of best plans"
  shows "best_of (better_candidate best lowered) (insert lowered plans)"
proof (cases best)
  case None
  with assms show ?thesis by (simp add: best_of_def better_candidate_eq)
next
  case (Some current)
  have current: "candidate_plan current \<in> plans" "candidate_score current = lowered_score (candidate_plan current)"
    "\<And>other. other \<in> plans \<Longrightarrow> candidate_score current \<le> lowered_score other"
    using assms unfolding Some best_of_def option.case by blast+
  show ?thesis
  proof (cases "lowered_score lowered < candidate_score current")
    case True
    then have "lowered_score lowered \<le> lowered_score other" if "other \<in> plans" for other
      using current(3) [OF that] by (meson less_imp_le less_le_trans)
    with Some True show ?thesis by (simp add: best_of_def better_candidate_eq)
  next
    case False
    then have "candidate_score current \<le> lowered_score lowered" by (simp only: not_less)
    moreover have "better_candidate best lowered = Some current" using Some False by (simp add: better_candidate_eq)
    ultimately show ?thesis using current by (simp add: best_of_def)
  qed
qed

lemma best_of_plan:
  assumes "best_of (Some candidate) plans" and "candidate_plan candidate = lowered"
  shows "lowered \<in> plans" and "\<And>other. other \<in> plans \<Longrightarrow> lowered_score lowered \<le> lowered_score other"
  using assms by (auto simp: best_of_def)

definition within_limits :: "physical_search_limits \<Rightarrow> lowered_plan \<Rightarrow> bool" where
  "within_limits limits lowered \<longleftrightarrow>
     (case lowered of (nodes, buffers, peak) \<Rightarrow>
        length nodes \<le> ps_max_steps limits \<and> length buffers \<le> ps_max_buffers limits \<and> peak \<le> ps_max_peak_bytes limits)"

definition admissible_plans :: "physical_lowering \<Rightarrow> physical_search_limits \<Rightarrow> compiled_node list set \<Rightarrow> lowered_plan set" where
  "admissible_plans ctx limits candidates =
     {lowered. within_limits limits lowered \<and>
        (\<exists>regions \<in> candidates. lower_semantic_regions ctx regions (ps_conversion_states limits) = Ok lowered)}"

lemma admissible_plans_insert:
  "admissible_plans ctx limits (insert regions candidates) =
     (case lower_semantic_regions ctx regions (ps_conversion_states limits) of
        Ok lowered \<Rightarrow> if within_limits limits lowered then insert lowered (admissible_plans ctx limits candidates)
                      else admissible_plans ctx limits candidates
      | _ \<Rightarrow> admissible_plans ctx limits candidates)"
  by (auto simp: admissible_plans_def split: outcome.splits)

lemma lower_candidate_best:
  assumes "lower_candidate ctx limits scan regions = Ok scan'" and "best_of (ls_best scan) (admissible_plans ctx limits candidates)"
  shows "best_of (ls_best scan') (admissible_plans ctx limits (insert regions candidates))"
  using assms best_of_insert [OF assms(2)]
  by (auto simp: lower_candidate_def admissible_plans_insert within_limits_def not_le not_less
      split: outcome.splits if_splits option.splits)

lemma lower_candidates_best:
  assumes "try_fold (lower_candidate ctx limits) scan candidates = Ok scan'"
    and "best_of (ls_best scan) (admissible_plans ctx limits processed)"
  shows "best_of (ls_best scan') (admissible_plans ctx limits (set candidates \<union> processed))"
  using assms
proof (induction candidates arbitrary: scan processed)
  case (Cons regions candidates)
  then obtain scan1 where "lower_candidate ctx limits scan regions = Ok scan1"
    and rest: "try_fold (lower_candidate ctx limits) scan1 candidates = Ok scan'"
    by (auto simp: outcome_simps)
  from Cons.IH [OF rest lower_candidate_best [OF this(1) Cons.prems(2)]] show ?case by simp
qed simp

lemma lower_physical_plan_Ok:
  assumes "lower_physical_plan ctx fuse limits = Ok lowered"
  obtains candidates where "build_semantic_region_candidates ctx fuse (ps_region_candidates limits) = Ok candidates"
    and "lowered \<in> admissible_plans ctx limits (set candidates)"
    and "\<And>other. other \<in> admissible_plans ctx limits (set candidates) \<Longrightarrow> lowered_score lowered \<le> lowered_score other"
proof -
  from assms obtain candidates scan candidate
    where candidates: "build_semantic_region_candidates ctx fuse (ps_region_candidates limits) = Ok candidates"
      and scan: "try_fold (lower_candidate ctx limits)
         \<lparr>ls_best = None, ls_first_error = None, ls_saw_resource_limit = False, ls_saw_compile_limit = False\<rparr> candidates = Ok scan"
      and best: "ls_best scan = Some candidate" "candidate_plan candidate = lowered"
    by (auto simp: lower_physical_plan_def outcome_simps)
  have "admissible_plans ctx limits {} = {}" by (simp add: admissible_plans_def)
  then have "best_of (ls_best scan) (admissible_plans ctx limits (set candidates))"
    using lower_candidates_best [OF scan, of "{}"] by simp
  from that [OF candidates best_of_plan [OF this [unfolded best(1)] best(2)]] show thesis .
qed

end
