(* ===== verification/Edges.thy ===== *)
theory Edges
  imports Propagate Samples
begin

text \<open>
  The check of the connections of a graph, \<open>Compiler::verify_edges\<close> of
  \<open>crates/blut-graph-core/src/compile.rs\<close>: edges, feedback edges and invocation inputs join existing
  ports with compatible contracts, no input is supplied twice and every required input is supplied.
\<close>

abbreviation for_each :: "('a \<Rightarrow> ('e, unit) outcome) \<Rightarrow> 'a list \<Rightarrow> ('e, unit) outcome" where
  "for_each f \<equiv> try_fold (\<lambda>_. f) ()"

section \<open>The check\<close>

definition find_port :: "port_descriptor list \<Rightarrow> node_id \<Rightarrow> string \<Rightarrow> (compile_error, port_descriptor) outcome" where
  "find_port ports n name = ok_or (List.find (\<lambda>port. pd_name port = name) ports) (UnknownPort n name)"

definition known_descriptor :: "descriptor_map \<Rightarrow> port_ref \<Rightarrow> (compile_error, node_descriptor) outcome" where
  "known_descriptor descriptors r = ok_or (bt_get descriptors (pr_node r)) (UnknownPort (pr_node r) (pr_port r))"

definition edge_ports ::
    "descriptor_map \<Rightarrow> port_ref \<Rightarrow> port_ref \<Rightarrow> (compile_error, port_descriptor \<times> port_descriptor) outcome" where
  "edge_ports descriptors source dest =
     and_then (known_descriptor descriptors source) (\<lambda>from.
     and_then (known_descriptor descriptors dest) (\<lambda>to.
     and_then (find_port (nd_outputs from) (pr_node source) (pr_port source)) (\<lambda>output.
     and_then (find_port (nd_inputs to) (pr_node dest) (pr_port dest)) (\<lambda>input.
     Ok (output, input)))))"

definition verify_edge :: "descriptor_map \<Rightarrow> port_ref set \<Rightarrow> edge \<Rightarrow> (compile_error, port_ref set) outcome" where
  "verify_edge descriptors bound e =
     (let source = edge_from e; dest = edge_to e
      in and_then (edge_ports descriptors source dest) (\<lambda>(output, input).
         and_then (guard (pd_max_bytes output = 0) (InvalidPortSize (pr_node source) (pr_port source))) (\<lambda>_.
         and_then (guard (pd_semantic_type output \<noteq> pd_semantic_type input)
             (TypeMismatch (pd_semantic_type output) (pd_semantic_type input))) (\<lambda>_.
         and_then (guard (\<not> port_contract_satisfies output input)
             (PortContractMismatch (pr_node source) (pr_port source) (pr_node dest) (pr_port dest))) (\<lambda>_.
         and_then (guard (dest \<in> bound) (DuplicateInput (pr_node dest) (pr_port dest))) (\<lambda>_.
         Ok (insert dest bound)))))))"

definition verify_feedback :: "descriptor_map \<Rightarrow> port_ref set \<Rightarrow> feedback_edge \<Rightarrow> (compile_error, port_ref set) outcome" where
  "verify_feedback descriptors bound e =
     and_then (edge_ports descriptors (fe_from e) (fe_to e)) (\<lambda>(output, input).
     and_then (guard (dc_invocations (fe_delay e) = 0 \<or> (dc_initial (fe_delay e) = DelayAbsent \<and> \<not> pd_optional input) \<or>
         \<not> port_contract_satisfies output input \<or> pd_max_bytes input < pd_max_bytes output \<or> fe_to e \<in> bound)
         (InvalidFeedback (pr_node (fe_to e)) (pr_port (fe_to e)))) (\<lambda>_.
     Ok (insert (fe_to e) bound)))"

definition verify_invocation :: "descriptor_map \<Rightarrow> port_ref set \<Rightarrow> port_ref \<Rightarrow> (compile_error, unit) outcome" where
  "verify_invocation descriptors bound r =
     and_then (known_descriptor descriptors r) (\<lambda>descriptor.
     and_then (find_port (nd_inputs descriptor) (pr_node r) (pr_port r)) (\<lambda>_.
     guard (r \<in> bound) (DuplicateInput (pr_node r) (pr_port r))))"

definition verify_inputs :: "port_ref set \<Rightarrow> port_ref set \<Rightarrow> node_id \<times> node_descriptor \<Rightarrow> (compile_error, unit) outcome" where
  "verify_inputs bound invocations entry =
     for_each (\<lambda>input.
       let r = PortRef (fst entry) (pd_name input)
       in guard (r \<notin> bound \<and> r \<notin> invocations) (MissingInput (fst entry) (pd_name input)))
     (filter (\<lambda>port. \<not> pd_optional port) (nd_inputs (snd entry)))"

definition verify_edges :: "graph \<Rightarrow> descriptor_map \<Rightarrow> (compile_error, port_ref list) outcome" where
  "verify_edges g descriptors =
     and_then (try_fold (verify_edge descriptors) {} (g_edges g)) (\<lambda>bound.
     and_then (try_fold (verify_feedback descriptors) bound (g_feedback g)) (\<lambda>bound.
     let invocation_ports = sort (g_invocation_inputs g)
     in and_then (for_each (\<lambda>(a, b). guard (a = b) (DuplicateInvocation (pr_node a) (pr_port a)))
          (windows2 invocation_ports)) (\<lambda>_.
        and_then (for_each (verify_invocation descriptors bound) invocation_ports) (\<lambda>_.
        and_then (for_each (verify_inputs bound (set invocation_ports)) descriptors) (\<lambda>_.
        Ok invocation_ports)))))"

section \<open>Well-connected graphs\<close>

definition output_port :: "descriptor_map \<Rightarrow> port_ref \<Rightarrow> port_descriptor option" where
  "output_port descriptors r =
     Option.bind (bt_get descriptors (pr_node r)) (\<lambda>d. List.find (\<lambda>port. pd_name port = pr_port r) (nd_outputs d))"

definition input_port :: "descriptor_map \<Rightarrow> port_ref \<Rightarrow> port_descriptor option" where
  "input_port descriptors r =
     Option.bind (bt_get descriptors (pr_node r)) (\<lambda>d. List.find (\<lambda>port. pd_name port = pr_port r) (nd_inputs d))"

definition edge_well_typed :: "descriptor_map \<Rightarrow> edge \<Rightarrow> bool" where
  "edge_well_typed descriptors e \<longleftrightarrow>
     (\<exists>output input. output_port descriptors (edge_from e) = Some output \<and> input_port descriptors (edge_to e) = Some input \<and>
        pd_max_bytes output \<noteq> 0 \<and> pd_semantic_type output = pd_semantic_type input \<and> port_contract_satisfies output input)"

definition feedback_well_typed :: "descriptor_map \<Rightarrow> feedback_edge \<Rightarrow> bool" where
  "feedback_well_typed descriptors e \<longleftrightarrow>
     (\<exists>output input. output_port descriptors (fe_from e) = Some output \<and> input_port descriptors (fe_to e) = Some input \<and>
        dc_invocations (fe_delay e) \<noteq> 0 \<and> (dc_initial (fe_delay e) = DelayAbsent \<longrightarrow> pd_optional input) \<and>
        port_contract_satisfies output input \<and> pd_max_bytes output \<le> pd_max_bytes input)"

definition supplied_ports :: "graph \<Rightarrow> port_ref list" where
  "supplied_ports g = map edge_to (g_edges g) @ map fe_to (g_feedback g) @ g_invocation_inputs g"

definition well_connected :: "graph \<Rightarrow> descriptor_map \<Rightarrow> bool" where
  "well_connected g descriptors \<longleftrightarrow>
     (\<forall>e \<in> set (g_edges g). edge_well_typed descriptors e) \<and>
     (\<forall>e \<in> set (g_feedback g). feedback_well_typed descriptors e) \<and>
     (\<forall>r \<in> set (g_invocation_inputs g). input_port descriptors r \<noteq> None) \<and>
     distinct (supplied_ports g) \<and>
     (\<forall>n d port. bt_get descriptors n = Some d \<longrightarrow> port \<in> set (nd_inputs d) \<longrightarrow> \<not> pd_optional port \<longrightarrow>
        PortRef n (pd_name port) \<in> set (supplied_ports g))"

lemma edge_ports_Ok_iff:
  "edge_ports descriptors source dest = Ok (output, input) \<longleftrightarrow>
     output_port descriptors source = Some output \<and> input_port descriptors dest = Some input"
  by (auto simp: edge_ports_def known_descriptor_def find_port_def output_port_def input_port_def outcome_simps
      split: option.splits Option.bind_splits)

lemma verify_edge_Ok_iff:
  "verify_edge descriptors bound e = Ok bound' \<longleftrightarrow>
     edge_well_typed descriptors e \<and> edge_to e \<notin> bound \<and> bound' = insert (edge_to e) bound"
  by (auto simp: verify_edge_def Let_def edge_well_typed_def outcome_simps edge_ports_Ok_iff)

lemma verify_feedback_Ok_iff:
  "verify_feedback descriptors bound e = Ok bound' \<longleftrightarrow>
     feedback_well_typed descriptors e \<and> fe_to e \<notin> bound \<and> bound' = insert (fe_to e) bound"
  by (auto simp: verify_feedback_def feedback_well_typed_def outcome_simps edge_ports_Ok_iff not_less)

text \<open>A loop that binds a fresh target per element.\<close>

lemma try_fold_bind_targets:
  assumes "\<And>bound x bound'. f bound x = Ok bound' \<longleftrightarrow> P x \<and> target x \<notin> bound \<and> bound' = insert (target x) bound"
  shows "try_fold f bound xs = Ok bound' \<longleftrightarrow>
     (\<forall>x \<in> set xs. P x) \<and> distinct (map target xs) \<and> target ` set xs \<inter> bound = {} \<and> bound' = bound \<union> target ` set xs"
proof (induction xs arbitrary: bound)
  case (Cons x xs)
  then show ?case by (auto simp: outcome_simps assms)
qed auto

lemma verify_invocation_Ok_iff:
  "verify_invocation descriptors bound r = Ok () \<longleftrightarrow> input_port descriptors r \<noteq> None \<and> r \<notin> bound"
  by (auto simp: verify_invocation_def known_descriptor_def find_port_def input_port_def outcome_simps
      split: option.splits Option.bind_splits)

lemma verify_inputs_Ok_iff:
  "verify_inputs bound invocations (n, d) = Ok () \<longleftrightarrow>
     (\<forall>port \<in> set (nd_inputs d). \<not> pd_optional port \<longrightarrow> PortRef n (pd_name port) \<in> bound \<union> invocations)"
  by (auto simp: verify_inputs_def try_fold_unit_Ok_iff Let_def outcome_simps)

lemma no_adjacent_duplicates:
  "(\<forall>(a, b) \<in> set (windows2 (sort xs)). a \<noteq> b) \<longleftrightarrow> distinct (xs :: 'a::linorder list)"
  using windows2_adjacent_key [of "\<lambda>x. x" "sort xs"] by auto

lemma verify_edges_safe: "safe (verify_edges g descriptors)"
  unfolding verify_edges_def Let_def
  by (auto intro!: safe_and_then safe_try_fold simp: verify_edge_def verify_feedback_def verify_invocation_def verify_inputs_def
      edge_ports_def known_descriptor_def find_port_def Let_def)

lemma verify_edges_Ok_iff:
  assumes "bt_wf descriptors"
  shows "verify_edges g descriptors = Ok ports \<longleftrightarrow> well_connected g descriptors \<and> ports = sort (g_invocation_inputs g)"
proof -
  let ?E = "edge_to ` set (g_edges g)" and ?F = "fe_to ` set (g_feedback g)" and ?I = "set (g_invocation_inputs g)"
  have distinct: "distinct (supplied_ports g) \<longleftrightarrow>
      distinct (map edge_to (g_edges g)) \<and> distinct (map fe_to (g_feedback g)) \<and> distinct (g_invocation_inputs g) \<and>
      ?F \<inter> ?E = {} \<and> ?I \<inter> (?E \<union> ?F) = {}"
    by (auto simp: supplied_ports_def)
  have inputs: "(\<forall>x \<in> set descriptors. verify_inputs (?E \<union> ?F) ?I x = Ok ()) \<longleftrightarrow>
      (\<forall>n d port. bt_get descriptors n = Some d \<longrightarrow> port \<in> set (nd_inputs d) \<longrightarrow> \<not> pd_optional port \<longrightarrow>
        PortRef n (pd_name port) \<in> set (supplied_ports g))"
    using bt.lookup_iff_entry [OF assms] by (fastforce simp: verify_inputs_Ok_iff supplied_ports_def)
  show ?thesis
    unfolding verify_edges_def Let_def well_connected_def distinct inputs [symmetric]
    by (auto simp: outcome_simps try_fold_bind_targets [OF verify_edge_Ok_iff] try_fold_bind_targets [OF verify_feedback_Ok_iff]
        try_fold_unit_Ok_iff verify_invocation_Ok_iff no_adjacent_duplicates [symmetric] case_prod_unfold; blast)
qed

text \<open>
  C23. Edge verification is a decision procedure for well-connected graphs: it accepts a graph exactly
  when every edge and feedback edge joins an existing output to an existing input whose contracts
  agree, every invocation input exists, no input is supplied twice and every required input is
  supplied; it then returns the invocation inputs in order, and it never panics.
\<close>

theorem verify_edges_exact:
  assumes "bt_wf descriptors"
  shows "verify_edges g descriptors \<noteq> Panic \<and>
    (\<forall>ports. verify_edges g descriptors = Ok ports \<longleftrightarrow>
       well_connected g descriptors \<and> ports = sort (g_invocation_inputs g))"
  using verify_edges_Ok_iff [OF assms] safely_not_Panic [OF verify_edges_safe] by blast

definition edge_descriptors :: descriptor_map where
  "edge_descriptors =
     [(1, sample_descriptor [] [port_opaque ''out'' ''signal'' 64]), (2, sample_descriptor [port_opaque ''in'' ''signal'' 64] [])]"

lemmas verify_edges_eval =
  verify_edges_def verify_edge_def verify_inputs_def edge_ports_def known_descriptor_def find_port_def sample_graph_def
  sample_descriptor_def edge_descriptors_def port_opaque_def port_contract_satisfies_def extent_satisfies_def guard_def bt_get_def
  Let_def

theorem verify_edges_exact_witness:
  "well_connected (sample_graph [1, 2] [link 1 2]) edge_descriptors \<and>
   \<not> well_connected (sample_graph [1, 2] [link 1 2, link 1 2]) edge_descriptors \<and>
   \<not> well_connected (sample_graph [1, 2] []) edge_descriptors"
proof -
  have wf: "bt_wf edge_descriptors" by (simp add: edge_descriptors_def bt_wf_def)
  have "verify_edges (sample_graph [1, 2] [link 1 2]) edge_descriptors = Ok []" by (simp add: verify_edges_eval)
  moreover have "verify_edges (sample_graph [1, 2] [link 1 2, link 1 2]) edge_descriptors = Err (DuplicateInput 2 ''in'')"
    by (simp add: verify_edges_eval)
  moreover have "verify_edges (sample_graph [1, 2] []) edge_descriptors = Err (MissingInput 2 ''in'')" by (simp add: verify_edges_eval)
  moreover have "well_connected g edge_descriptors \<longleftrightarrow> verify_edges g edge_descriptors = Ok (sort (g_invocation_inputs g))" for g
    using verify_edges_exact [OF wf, of g] by simp
  ultimately show ?thesis by (simp add: sample_graph_def)
qed

end
