(* ===== verification/Feedback.thy ===== *)
theory Feedback
  imports Lowering Edges
begin

text \<open>
  Feedback edges, from \<open>crates/blut-graph-core/src/compile.rs\<close>: giving the two ends of every feedback
  edge one layout (\<open>align_feedback_layouts\<close>), checking the compiled contracts against each other
  (\<open>feedback_physical_compatible\<close>), and lowering the edges to delayed state (\<open>lower_feedback\<close>).
\<close>

section \<open>The steps of an edge\<close>

definition locate_step :: "compiled_node list \<Rightarrow> node_id \<Rightarrow> (compile_error, usize) outcome" where
  "locate_step nodes n = ok_or (position (\<lambda>node. n \<in> set (cn_semantic_nodes node)) nodes) (UnknownNode n)"

definition locate_output :: "compiled_node list \<Rightarrow> port_ref \<Rightarrow> (compile_error, usize \<times> usize) outcome" where
  "locate_output nodes from =
     and_then (locate_step nodes (pr_node from)) (\<lambda>step.
     and_then (ok_or (position (\<lambda>port. port = pr_port from) (cn_output_ports (nodes ! step))) (UnknownPort (pr_node from) (pr_port from)))
       (\<lambda>port. Ok (step, port)))"

definition locate_input :: "compiled_node list \<Rightarrow> port_ref \<Rightarrow> (compile_error, usize \<times> usize) outcome" where
  "locate_input nodes to =
     and_then (locate_step nodes (pr_node to)) (\<lambda>step.
     and_then (ok_or (position (\<lambda>port. port = pr_port to) (cn_input_ports (nodes ! step))) (UnknownPort (pr_node to) (pr_port to)))
       (\<lambda>port. Ok (step, port)))"

definition assign_at :: "'a list \<Rightarrow> usize \<Rightarrow> 'a \<Rightarrow> ('e, 'a list) outcome" where
  "assign_at xs i v = (if i < length xs then Ok (xs[i := v]) else Panic)"

section \<open>Layouts\<close>

definition feedback_groups :: "graph \<Rightarrow> (port_ref, feedback_edge list) btree_map" where
  "feedback_groups g = fold (\<lambda>e groups. bt_push (fe_from e) e groups) (g_feedback g) bt_empty"

definition align_consumer ::
    "descriptor_map \<Rightarrow> kernel_registry \<Rightarrow> compiled_node list \<Rightarrow> layout list \<times> (usize \<times> usize) list \<Rightarrow> feedback_edge \<Rightarrow>
     (compile_error, layout list \<times> (usize \<times> usize) list) outcome" where
  "align_consumer descriptors reg nodes state e =
     (let to = fe_to e
      in and_then (locate_input nodes to) (\<lambda>(to_index, to_port).
         and_then (entry_at descriptors (pr_node to)) (\<lambda>descriptor.
         and_then (find_port (nd_inputs descriptor) (pr_node to) (pr_port to)) (\<lambda>to_descriptor.
         and_then (ok_or (bt_get (reg_kernels reg) (cn_kernel (nodes ! to_index))) (InvalidFeedback (pr_node to) (pr_port to)))
           (\<lambda>to_kernel.
         Ok (filter (\<lambda>l. l \<in> set (pd_layouts to_descriptor) \<and> l \<in> set (kd_input_layouts to_kernel)) (fst state),
             snd state @ [(to_index, to_port)]))))))"

definition set_input_layout :: "layout \<Rightarrow> compiled_node list \<Rightarrow> usize \<times> usize \<Rightarrow> (compile_error, compiled_node list) outcome" where
  "set_input_layout l nodes place =
     and_then (index nodes (fst place)) (\<lambda>node.
     and_then (index (cn_input_contracts node) (snd place)) (\<lambda>port.
     Ok (nodes[fst place := node\<lparr>cn_input_contracts := (cn_input_contracts node)[snd place := port\<lparr>cp_layout := l\<rparr>]\<rparr>])))"

definition set_output_layout :: "layout \<Rightarrow> compiled_node list \<Rightarrow> usize \<times> usize \<Rightarrow> (compile_error, compiled_node list) outcome" where
  "set_output_layout l nodes place =
     and_then (index nodes (fst place)) (\<lambda>node.
     and_then (index (cn_output_contracts node) (snd place)) (\<lambda>port.
     Ok (nodes[fst place := node\<lparr>cn_output_contracts := (cn_output_contracts node)[snd place := port\<lparr>cp_layout := l\<rparr>]\<rparr>])))"

text \<open>One producing port and its edges; \<open>None\<close> when no layout suits them all.\<close>

definition align_group ::
    "descriptor_map \<Rightarrow> kernel_registry \<Rightarrow> compiled_node list \<Rightarrow> port_ref \<times> feedback_edge list \<Rightarrow>
     (compile_error, compiled_node list option) outcome" where
  "align_group descriptors reg nodes entry =
     (let source = fst entry
      in and_then (locate_output nodes source) (\<lambda>(from_index, from_port).
         and_then (entry_at descriptors (pr_node source)) (\<lambda>descriptor.
         and_then (find_port (nd_outputs descriptor) (pr_node source) (pr_port source)) (\<lambda>from_descriptor.
         and_then (ok_or (bt_get (reg_kernels reg) (cn_kernel (nodes ! from_index))) (InvalidFeedback (pr_node source) (pr_port source)))
           (\<lambda>from_kernel.
         and_then (index (cn_output_bindings (nodes ! from_index)) from_port) (\<lambda>binding.
         and_then (try_fold (align_consumer descriptors reg nodes)
             (filter (\<lambda>l. l \<in> set (kd_output_layouts from_kernel)) (pd_layouts from_descriptor), []) (snd entry))
           (\<lambda>(layouts, consumers).
         let layouts = sort_dedup layouts
         in and_then
              (case binding of
                 OutBuffer _ \<Rightarrow>
                   and_then (index (cn_output_contracts (nodes ! from_index)) from_port) (\<lambda>port.
                   Ok (if cp_layout port \<in> set layouts then Some (cp_layout port) else None))
               | Terminal \<Rightarrow> Ok (first_opt layouts)) (\<lambda>selected.
            case selected of
              None \<Rightarrow> Ok None
            | Some l \<Rightarrow>
                and_then (set_output_layout l nodes (from_index, from_port)) (\<lambda>nodes.
                and_then (try_fold (set_input_layout l) nodes consumers) (\<lambda>nodes.
                Ok (Some nodes)))))))))))"

fun align_groups ::
    "descriptor_map \<Rightarrow> kernel_registry \<Rightarrow> compiled_node list \<Rightarrow> (port_ref \<times> feedback_edge list) list \<Rightarrow>
     (compile_error, compiled_node list option) outcome" where
  "align_groups descriptors reg nodes [] = Ok (Some nodes)"
| "align_groups descriptors reg nodes (grp # groups) =
     and_then (align_group descriptors reg nodes grp) (\<lambda>aligned.
     case aligned of None \<Rightarrow> Ok None | Some nodes \<Rightarrow> align_groups descriptors reg nodes groups)"

definition align_feedback_layouts ::
    "graph \<Rightarrow> descriptor_map \<Rightarrow> kernel_registry \<Rightarrow> compiled_node list \<Rightarrow> (compile_error, compiled_node list option) outcome" where
  "align_feedback_layouts g descriptors reg nodes = align_groups descriptors reg nodes (feedback_groups g)"

section \<open>Compatibility\<close>

definition feedback_contracts ::
    "compiled_node list \<Rightarrow> feedback_edge \<Rightarrow> (compile_error, compiled_port_contract \<times> compiled_port_contract) outcome" where
  "feedback_contracts nodes e =
     and_then (locate_output nodes (fe_from e)) (\<lambda>(from_index, from_port).
     and_then (locate_input nodes (fe_to e)) (\<lambda>(to_index, to_port).
     and_then (index (cn_output_contracts (nodes ! from_index)) from_port) (\<lambda>output.
     and_then (index (cn_input_contracts (nodes ! to_index)) to_port) (\<lambda>input.
     Ok (output, input)))))"

definition feedback_physical_compatible :: "graph \<Rightarrow> compiled_node list \<Rightarrow> (compile_error, bool) outcome" where
  "feedback_physical_compatible g nodes =
     and_then (any_in (\<lambda>e. and_then (feedback_contracts nodes e) (\<lambda>(output, input).
         Ok (\<not> compiled_port_contract_satisfies output input))) (g_feedback g)) (\<lambda>incompatible.
     Ok (\<not> incompatible))"

section \<open>Delayed state\<close>

definition lower_feedback_id :: "usize \<Rightarrow> (compile_error, feedback_id) outcome" where
  "lower_feedback_id i = (if i < 2 ^ 32 then Ok (word_of_nat i) else Err CompileLimitExceeded)"

type_synonym feedback_state = "compiled_node list \<times> feedback_plan list \<times> u64"

definition lower_feedback_edge :: "feedback_state \<Rightarrow> feedback_edge \<Rightarrow> (compile_error, feedback_state) outcome" where
  "lower_feedback_edge state e =
     (case state of (nodes, plans, state_bytes) \<Rightarrow>
        and_then (locate_output nodes (fe_from e)) (\<lambda>(from_step_index, from_port).
        and_then (locate_input nodes (fe_to e)) (\<lambda>(to_step_index, to_port).
        and_then (index (cn_output_contracts (nodes ! from_step_index)) from_port) (\<lambda>output_contract.
        and_then (index (cn_input_contracts (nodes ! to_step_index)) to_port) (\<lambda>input_contract.
        and_then (guard (\<not> compiled_port_contract_satisfies output_contract input_contract)
            (InvalidFeedback (pr_node (fe_to e)) (pr_port (fe_to e)))) (\<lambda>_.
        and_then (ok_or (u64_checked_mul (cp_max_bytes output_contract) (ucast (dc_invocations (fe_delay e)))) ResourceOverflow) (\<lambda>bytes.
        and_then (lower_feedback_id (length plans)) (\<lambda>i.
        and_then (assign_at (cn_input_bindings (nodes ! to_step_index)) to_port (InFeedback i)) (\<lambda>bindings.
        let nodes = nodes[to_step_index := (nodes ! to_step_index)\<lparr>cn_input_bindings := bindings\<rparr>];
            plan = \<lparr>fp_id = i, fp_from_step = cn_id (nodes ! from_step_index), fp_from_port = word_of_nat from_port,
                    fp_to_step = cn_id (nodes ! to_step_index), fp_to_port = word_of_nat to_port,
                    fp_delay = fe_delay e, fp_state_bytes = bytes\<rparr>
        in and_then (ok_or (u64_checked_add state_bytes bytes) ResourceOverflow) (\<lambda>state_bytes.
           Ok (nodes, plans @ [plan], state_bytes)))))))))))"

definition lower_feedback :: "graph \<Rightarrow> compiled_node list \<Rightarrow> usize \<Rightarrow> (compile_error, feedback_state) outcome" where
  "lower_feedback g nodes max_feedback_edges =
     (if max_feedback_edges < length (g_feedback g) then Err CompileLimitExceeded
      else
        let feedback_edges = sort_key feedback_key (g_feedback g)
        in if \<exists>(a, b) \<in> set (windows2 feedback_edges). fe_from a = fe_from b \<and> fe_to a = fe_to b
           then and_then (index feedback_edges 0) (\<lambda>e. Err (InvalidFeedback (pr_node (fe_to e)) (pr_port (fe_to e))))
           else try_fold lower_feedback_edge (nodes, [], 0) feedback_edges)"

end
