(* ===== verification/Selection.thy ===== *)
theory Selection
  imports Feedback
begin

text \<open>
  Selection of kernels, \<open>Compiler::kernel_candidates\<close> and \<open>Compiler::select_and_lower\<close> of
  \<open>crates/blut-graph-core/src/compile.rs\<close>: the kernels that may execute each node, the enumeration of
  all assignments as mixed-radix numbers, and the choice of the best lowered plan.
\<close>

section \<open>The compiler\<close>

record compile_limits =
  cl_max_search_states :: usize
  cl_max_conversion_states :: usize
  cl_max_semantic_nodes :: usize
  cl_max_steps :: usize
  cl_max_buffers :: usize
  cl_max_subgraph_depth :: usize
  cl_max_subgraph_entries :: usize
  cl_max_feedback_edges :: usize
  cl_max_persistent_state_bytes :: u64

definition compile_limits_default :: compile_limits where
  "compile_limits_default =
     \<lparr>cl_max_search_states = 65536, cl_max_conversion_states = 65536, cl_max_semantic_nodes = 65536, cl_max_steps = 65536,
      cl_max_buffers = 262144, cl_max_subgraph_depth = 16, cl_max_subgraph_entries = 65536, cl_max_feedback_edges = 65536,
      cl_max_persistent_state_bytes = 64 * 1024 * 1024\<rparr>"

record compiler =
  co_registry :: kernel_registry
  co_realm :: realm
  co_max_peak_bytes :: u64
  co_fuse :: bool
  co_limits :: compile_limits

definition new_compiler :: "kernel_registry \<Rightarrow> realm \<Rightarrow> compiler" where
  "new_compiler reg r =
     \<lparr>co_registry = reg, co_realm = r, co_max_peak_bytes = - 1, co_fuse = True,
      co_limits =
        \<lparr>cl_max_search_states = 65536, cl_max_conversion_states = 65536, cl_max_semantic_nodes = 65536, cl_max_steps = 65536,
         cl_max_buffers = 262144, cl_max_subgraph_depth = 16, cl_max_subgraph_entries = 65536, cl_max_feedback_edges = 65536,
         cl_max_persistent_state_bytes = 64 * 1024 * 1024\<rparr>\<rparr>"

definition with_memory_limit :: "compiler \<Rightarrow> u64 \<Rightarrow> compiler" where
  "with_memory_limit c bytes = c\<lparr>co_max_peak_bytes := bytes\<rparr>"

definition with_fusion :: "compiler \<Rightarrow> bool \<Rightarrow> compiler" where
  "with_fusion c enabled = c\<lparr>co_fuse := enabled\<rparr>"

definition with_limits :: "compiler \<Rightarrow> compile_limits \<Rightarrow> compiler" where
  "with_limits c limits = c\<lparr>co_limits := limits\<rparr>"

section \<open>Kernels of a node\<close>

definition kernel_suits :: "kernel_registry \<Rightarrow> target \<Rightarrow> node_instance \<Rightarrow> kernel_descriptor \<Rightarrow> (compile_error, bool) outcome" where
  "kernel_suits reg target node kern =
     (if kd_implements kern = [instance_type node] \<and> kd_target kern = target
      then and_then (entry_at (reg_descriptors reg) (ni_descriptor node, ni_descriptor_version node)) (\<lambda>descriptor.
           Ok (kd_determinism kern \<le> nd_determinism descriptor \<and> descriptor_layouts_compatible descriptor kern))
      else Ok False)"

definition kernel_key :: "kernel_descriptor \<Rightarrow> u64 \<times> u64 \<times> implementation_id \<times> kernel_id" where
  "kernel_key kern =
     (re_peak_bytes (kd_resources kern), re_scratch_bytes (kd_resources kern), kd_implementation_id kern, kd_id kern)"

definition node_candidates ::
    "kernel_registry \<Rightarrow> instance_map \<Rightarrow> target \<Rightarrow> node_id \<Rightarrow> (compile_error, kernel_descriptor list) outcome" where
  "node_candidates reg instances target n =
     and_then (entry_at instances n) (\<lambda>node.
     and_then (try_fold (\<lambda>found kern. and_then (kernel_suits reg target node kern) (\<lambda>suits.
         Ok (if suits then found @ [kern] else found))) [] (bt_values (reg_kernels reg))) (\<lambda>found.
     let found = sort_key kernel_key found
     in and_then (guard (found = []) (KernelUnavailable n target)) (\<lambda>_. Ok found)))"

type_synonym candidate_map = "(node_id, kernel_descriptor list) btree_map"

definition kernel_candidates ::
    "kernel_registry \<Rightarrow> node_id list \<Rightarrow> instance_map \<Rightarrow> target \<Rightarrow> (compile_error, candidate_map) outcome" where
  "kernel_candidates reg order instances target =
     try_fold (\<lambda>candidates n. and_then (node_candidates reg instances target n) (\<lambda>found.
       Ok (bt_insert n found candidates))) bt_empty order"

section \<open>Assignments\<close>

definition count_assignments :: "usize \<Rightarrow> candidate_map \<Rightarrow> node_id list \<Rightarrow> (compile_error, usize) outcome" where
  "count_assignments max_search_states candidates order =
     try_fold (\<lambda>total n.
       and_then (entry_at candidates n) (\<lambda>found.
       and_then (ok_or (usize_checked_mul total (length found)) SearchLimitExceeded) (\<lambda>total.
       if max_search_states < total then Err SearchLimitExceeded else Ok total))) 1 order"

definition region_limit_of :: "usize \<Rightarrow> usize \<Rightarrow> (compile_error, usize) outcome" where
  "region_limit_of max_search_states assignments =
     (if assignments = 0 \<or> max_search_states div assignments = 0 then Err SearchLimitExceeded
      else Ok (max_search_states div assignments))"

text \<open>The digits of an assignment number, least significant last; the second component is the carry to the left.\<close>

fun select_digits :: "candidate_map \<Rightarrow> node_id list \<Rightarrow> usize \<Rightarrow> (compile_error, usize list \<times> usize) outcome" where
  "select_digits candidates [] ordinal = Ok ([], ordinal)"
| "select_digits candidates (n # order) ordinal =
     and_then (select_digits candidates order ordinal) (\<lambda>(digits, remainder).
     and_then (entry_at candidates n) (\<lambda>found.
     if length found = 0 then Panic else Ok (remainder mod length found # digits, remainder div length found)))"

definition assignment_of ::
    "candidate_map \<Rightarrow> node_id list \<Rightarrow> usize \<Rightarrow> (compile_error, (node_id, kernel_descriptor) btree_map) outcome" where
  "assignment_of candidates order ordinal =
     and_then (select_digits candidates order ordinal) (\<lambda>(selected, _).
     and_then (try_map (\<lambda>(n, digit). and_then (entry_at candidates n) (\<lambda>found.
         and_then (index found digit) (\<lambda>kern. Ok (n, kern)))) (zip order selected)) (\<lambda>entries.
     Ok (bt_collect entries)))"

section \<open>The best assignment\<close>

record selection_scan =
  sel_best :: "lowered_candidate option"
  sel_saw_layout_failure :: bool
  sel_saw_feedback_failure :: bool
  sel_saw_resource_failure :: bool

definition search_limits :: "compiler \<Rightarrow> usize \<Rightarrow> physical_search_limits" where
  "search_limits c region_limit =
     \<lparr>ps_region_candidates = region_limit, ps_conversion_states = cl_max_conversion_states (co_limits c),
      ps_max_peak_bytes = co_max_peak_bytes c, ps_max_steps = cl_max_steps (co_limits c),
      ps_max_buffers = cl_max_buffers (co_limits c)\<rparr>"

text \<open>A lowered plan within the limits: its feedback must agree physically before it is compared with the best so far.\<close>

definition consider_plan ::
    "compiler \<Rightarrow> graph \<Rightarrow> descriptor_map \<Rightarrow> selection_scan \<Rightarrow> lowered_plan \<Rightarrow> (compile_error, selection_scan) outcome" where
  "consider_plan c g descriptors scan lowered =
     (case lowered of (nodes, buffers, peak) \<Rightarrow>
        and_then (align_feedback_layouts g descriptors (co_registry c) nodes) (\<lambda>aligned.
        case aligned of
          None \<Rightarrow> Ok (scan\<lparr>sel_saw_feedback_failure := True\<rparr>)
        | Some nodes \<Rightarrow>
            and_then (feedback_physical_compatible g nodes) (\<lambda>compatible.
            Ok (if compatible then scan\<lparr>sel_best := better_candidate (sel_best scan) (nodes, buffers, peak)\<rparr>
                else scan\<lparr>sel_saw_feedback_failure := True\<rparr>))))"

definition select_assignment ::
    "compiler \<Rightarrow> graph \<Rightarrow> node_id list \<Rightarrow> descriptor_map \<Rightarrow> target \<Rightarrow> candidate_map \<Rightarrow> usize \<Rightarrow> selection_scan \<Rightarrow> usize \<Rightarrow>
     (compile_error, selection_scan) outcome" where
  "select_assignment c g order descriptors target candidates region_limit scan ordinal =
     and_then (assignment_of candidates order ordinal) (\<lambda>assignment.
     case lower_physical_plan
         \<lparr>pw_graph = g, pw_order = order, pw_descriptors = descriptors, pw_kernels = assignment,
          pw_registry = co_registry c, pw_target = target\<rparr> (co_fuse c) (search_limits c region_limit) of
       Ok (nodes, buffers, peak) \<Rightarrow>
         if peak \<le> co_max_peak_bytes c \<and> length nodes \<le> cl_max_steps (co_limits c) \<and>
            length buffers \<le> cl_max_buffers (co_limits c)
         then consider_plan c g descriptors scan (nodes, buffers, peak)
         else if cl_max_steps (co_limits c) < length nodes \<or> cl_max_buffers (co_limits c) < length buffers
         then Err CompileLimitExceeded
         else Ok (scan\<lparr>sel_saw_resource_failure := True\<rparr>)
     | Err error \<Rightarrow>
         (case error of
            ResourceOverflow \<Rightarrow> Ok (scan\<lparr>sel_saw_resource_failure := True\<rparr>)
          | LayoutUnavailable _ _ \<Rightarrow> Ok (scan\<lparr>sel_saw_layout_failure := True\<rparr>)
          | _ \<Rightarrow> Err error)
     | Panic \<Rightarrow> Panic)"

definition selection_result ::
    "graph \<Rightarrow> node_id list \<Rightarrow> target \<Rightarrow> selection_scan \<Rightarrow> (compile_error, lowered_plan) outcome" where
  "selection_result g order target scan =
     (case sel_best scan of
        Some candidate \<Rightarrow> Ok (candidate_plan candidate)
      | None \<Rightarrow>
          if sel_saw_feedback_failure scan
          then and_then (expect (first_opt (g_feedback g))) (\<lambda>e. Err (InvalidFeedback (pr_node (fe_to e)) (pr_port (fe_to e))))
          else if sel_saw_resource_failure scan then Err ResourceOverflow
          else and_then (expect (first_opt order)) (\<lambda>n.
            if sel_saw_layout_failure scan then Err (LayoutUnavailable n ''physical-lowering'')
            else Err (KernelUnavailable n target)))"

definition select_and_lower ::
    "compiler \<Rightarrow> graph \<Rightarrow> node_id list \<Rightarrow> instance_map \<Rightarrow> descriptor_map \<Rightarrow> target \<Rightarrow> (compile_error, lowered_plan) outcome" where
  "select_and_lower c g order instances descriptors target =
     and_then (kernel_candidates (co_registry c) order instances target) (\<lambda>candidates.
     and_then (count_assignments (cl_max_search_states (co_limits c)) candidates order) (\<lambda>assignment_count.
     and_then (region_limit_of (cl_max_search_states (co_limits c)) assignment_count) (\<lambda>region_limit.
     and_then (try_fold (select_assignment c g order descriptors target candidates region_limit)
         \<lparr>sel_best = None, sel_saw_layout_failure = False, sel_saw_feedback_failure = False, sel_saw_resource_failure = False\<rparr>
         [0..<assignment_count]) (\<lambda>scan.
     selection_result g order target scan))))"

section \<open>Every assignment is enumerated\<close>

definition suitable_kernels :: "kernel_registry \<Rightarrow> instance_map \<Rightarrow> target \<Rightarrow> node_id \<Rightarrow> kernel_descriptor set" where
  "suitable_kernels reg instances target n =
     {kern \<in> set (bt_values (reg_kernels reg)).
        \<exists>node. bt_get instances n = Some node \<and> kernel_suits reg target node kern = Ok True}"

lemma node_candidates_Ok:
  assumes "node_candidates reg instances target n = Ok found"
  shows "set found = suitable_kernels reg instances target n" and "found \<noteq> []"
proof -
  from assms obtain node found' where node: "bt_get instances n = Some node"
    and fold: "try_fold (\<lambda>found kern. and_then (kernel_suits reg target node kern) (\<lambda>suits.
         Ok (if suits then found @ [kern] else found))) [] (bt_values (reg_kernels reg)) = Ok found'"
    and found: "found = sort_key kernel_key found'" "found \<noteq> []"
    by (auto simp: node_candidates_def Let_def outcome_simps)
  from try_fold_filter [OF fold] found node show "set found = suitable_kernels reg instances target n" "found \<noteq> []"
    by (auto simp: suitable_kernels_def)
qed

definition candidates_for :: "candidate_map \<Rightarrow> kernel_registry \<Rightarrow> instance_map \<Rightarrow> target \<Rightarrow> node_id list \<Rightarrow> bool" where
  "candidates_for candidates reg instances target order \<longleftrightarrow>
     (\<forall>n \<in> set order. \<exists>found. bt_get candidates n = Some found \<and> found \<noteq> [] \<and> set found = suitable_kernels reg instances target n)"

lemma kernel_candidates_Ok:
  assumes "kernel_candidates reg order instances target = Ok candidates"
  shows "candidates_for candidates reg instances target order"
proof -
  let ?f = "\<lambda>candidates n. and_then (node_candidates reg instances target n) (\<lambda>found. Ok (bt_insert n found candidates))"
  have "bt_wf c' \<and> candidates_for c' reg instances target (done @ rest)"
    if "try_fold ?f c rest = Ok c'" "bt_wf c" "candidates_for c reg instances target done" for c c' "done" rest
    using that
  proof (induction rest arbitrary: c "done")
    case (Cons n rest)
    then obtain found where found: "node_candidates reg instances target n = Ok found"
      and rest: "try_fold ?f (bt_insert n found c) rest = Ok c'" by (auto simp: outcome_simps)
    have "candidates_for (bt_insert n found c) reg instances target (done @ [n])"
      using Cons.prems(2,3) node_candidates_Ok [OF found] by (auto simp: candidates_for_def bt_get_insert)
    from Cons.IH [OF rest bt_wf_insert [OF Cons.prems(2)] this] show ?case by simp
  qed simp
  from this [of bt_empty order candidates "[]"] assms show ?thesis
    by (simp add: kernel_candidates_def candidates_for_def bt_empty_def)
qed

definition radix :: "candidate_map \<Rightarrow> node_id \<Rightarrow> usize" where
  "radix candidates n = (case bt_get candidates n of Some found \<Rightarrow> length found | None \<Rightarrow> 0)"

lemma count_assignments_Ok:
  assumes "count_assignments limit candidates order = Ok assignments"
  shows "assignments = prod_list (map (radix candidates) order)"
proof -
  let ?f = "\<lambda>total n. and_then (entry_at candidates n) (\<lambda>found.
       and_then (ok_or (usize_checked_mul total (length found)) SearchLimitExceeded) (\<lambda>total.
       if limit < total then Err SearchLimitExceeded else Ok total))"
  have "t' = t * prod_list (map (radix candidates) order)" if "try_fold ?f t order = Ok t'" for t t' order
    using that
  proof (induction order arbitrary: t)
    case (Cons n order)
    then obtain found where "bt_get candidates n = Some found" and rest: "try_fold ?f (t * length found) order = Ok t'"
      by (auto simp: outcome_simps dest: usize_checked_mul_SomeD split: if_splits)
    with Cons.IH [OF rest] show ?case by (simp add: radix_def)
  qed simp
  from this [of 1 order assignments] assms show ?thesis by (simp add: count_assignments_def)
qed

text \<open>Every sequence of digits is reached, with any carry.\<close>

lemma select_digits_onto:
  assumes "list_all2 (\<lambda>n d. d < radix candidates n) order digits"
  shows "\<exists>ordinal < prod_list (map (radix candidates) order) * (carry + 1). select_digits candidates order ordinal = Ok (digits, carry)"
  using assms
proof (induction order digits arbitrary: carry rule: list_all2_induct)
  case (Cons n order d digits)
  let ?b = "radix candidates n" and ?p = "prod_list (map (radix candidates) order)"
  obtain ordinal where ordinal: "ordinal < ?p * (d + ?b * carry + 1)" "select_digits candidates order ordinal = Ok (digits, d + ?b * carry)"
    using Cons.IH [of "d + ?b * carry"] by blast
  from Cons(1) obtain found where found: "bt_get candidates n = Some found" "?b = length found" "d < length found"
    by (auto simp: radix_def split: option.splits)
  have "d + ?b * carry + 1 \<le> ?b * (carry + 1)" using Cons(1) by simp
  then have "?p * (d + ?b * carry + 1) \<le> ?p * (?b * (carry + 1))" by (rule mult_le_mono2)
  with ordinal(1) have "ordinal < prod_list (map (radix candidates) (n # order)) * (carry + 1)"
    by (simp add: algebra_simps)
  moreover have "select_digits candidates (n # order) ordinal = Ok (d # digits, carry)"
    using ordinal(2) found by (auto simp: entry_at_def)
  ultimately show ?case by blast
qed simp

lemma select_digits_Ok:
  assumes "select_digits candidates order ordinal = Ok (digits, carry)"
  shows "list_all2 (\<lambda>n d. d < radix candidates n) order digits"
  using assms
proof (induction order arbitrary: digits carry)
  case (Cons n order)
  then show ?case by (auto simp: outcome_simps radix_def split: if_splits)
qed simp

definition assignments :: "kernel_registry \<Rightarrow> node_id list \<Rightarrow> instance_map \<Rightarrow> target \<Rightarrow> (node_id, kernel_descriptor) btree_map set" where
  "assignments reg order instances target =
     {bt_collect (zip order kerns) | kerns. list_all2 (\<lambda>n kern. kern \<in> suitable_kernels reg instances target n) order kerns}"

lemma assign_digits:
  assumes "candidates_for candidates reg instances target order" and "list_all2 (\<lambda>n d. d < radix candidates n) order digits"
  shows "try_map (\<lambda>(n, digit). and_then (entry_at candidates n) (\<lambda>found.
         and_then (index found digit) (\<lambda>kern. Ok (n, kern)))) (zip order digits) =
     (Ok (zip order (map2 (\<lambda>n d. the (bt_get candidates n) ! d) order digits)) :: (compile_error, _) outcome)"
  using assms(2,1)
proof (induction order digits rule: list_all2_induct)
  case (Cons n order d digits)
  then obtain found where "bt_get candidates n = Some found" "d < length found"
    by (auto simp: radix_def split: option.splits)
  with Cons show ?case by (simp add: candidates_for_def entry_at_def index_def)
qed simp

lemma assignment_of_Ok:
  assumes "candidates_for candidates reg instances target order" and "assignment_of candidates order ordinal = Ok assignment"
  shows "assignment \<in> assignments reg order instances target"
proof -
  from assms(2) obtain digits carry where "select_digits candidates order ordinal = Ok (digits, carry)"
    by (auto simp: assignment_of_def outcome_simps)
  note digits = select_digits_Ok [OF this]
  let ?kerns = "map2 (\<lambda>n d. the (bt_get candidates n) ! d) order digits"
  have "assignment = bt_collect (zip order ?kerns)"
    using assms(2) assign_digits [OF assms(1) digits] \<open>select_digits _ _ _ = _\<close> by (simp add: assignment_of_def)
  moreover have "list_all2 (\<lambda>n kern. kern \<in> suitable_kernels reg instances target n) order ?kerns"
    using digits assms(1)
  proof (induction order digits rule: list_all2_induct)
    case (Cons n order d digits)
    then obtain found where "bt_get candidates n = Some found" "d < length found" "set found = suitable_kernels reg instances target n"
      by (auto simp: radix_def candidates_for_def split: option.splits)
    with Cons show ?case by (auto simp: candidates_for_def)
  qed simp
  ultimately show ?thesis by (auto simp: assignments_def)
qed

lemma assignment_of_onto:
  assumes candidates: "candidates_for candidates reg instances target order" and "assignment \<in> assignments reg order instances target"
  obtains ordinal where "ordinal < prod_list (map (radix candidates) order)" and "assignment_of candidates order ordinal = Ok assignment"
proof -
  from assms(2) obtain kerns where assignment: "assignment = bt_collect (zip order kerns)"
    and kerns: "list_all2 (\<lambda>n kern. kern \<in> suitable_kernels reg instances target n) order kerns"
    by (auto simp: assignments_def)
  have "\<exists>digits. list_all2 (\<lambda>n d. d < radix candidates n) order digits \<and> map2 (\<lambda>n d. the (bt_get candidates n) ! d) order digits = kerns"
    using kerns candidates
  proof (induction order kerns rule: list_all2_induct)
    case (Cons n order kern kerns)
    then obtain found where found: "bt_get candidates n = Some found" "kern \<in> set found" by (auto simp: candidates_for_def)
    then obtain d where "d < length found" "found ! d = kern" by (auto simp: in_set_conv_nth)
    moreover obtain digits where "list_all2 (\<lambda>n d. d < radix candidates n) order digits"
      "map2 (\<lambda>n d. the (bt_get candidates n) ! d) order digits = kerns"
      using Cons by (auto simp: candidates_for_def)
    ultimately show ?case using found by (intro exI [of _ "d # digits"]) (simp add: radix_def)
  qed simp
  then obtain digits where digits: "list_all2 (\<lambda>n d. d < radix candidates n) order digits"
    "map2 (\<lambda>n d. the (bt_get candidates n) ! d) order digits = kerns" by blast
  from select_digits_onto [OF digits(1), of 0] obtain ordinal
    where "ordinal < prod_list (map (radix candidates) order)" "select_digits candidates order ordinal = Ok (digits, 0)" by auto
  moreover from this have "assignment_of candidates order ordinal = Ok assignment"
    using assign_digits [OF candidates digits(1)] digits(2) by (simp add: assignment_of_def assignment)
  ultimately show thesis using that by blast
qed

section \<open>The best assignment is chosen\<close>

definition assignment_lowering ::
    "compiler \<Rightarrow> graph \<Rightarrow> node_id list \<Rightarrow> descriptor_map \<Rightarrow> target \<Rightarrow> (node_id, kernel_descriptor) btree_map \<Rightarrow> physical_lowering" where
  "assignment_lowering c g order descriptors target assignment =
     \<lparr>pw_graph = g, pw_order = order, pw_descriptors = descriptors, pw_kernels = assignment,
      pw_registry = co_registry c, pw_target = target\<rparr>"

text \<open>The plan of an assignment, when its feedback edges agree physically.\<close>

definition assignment_plans ::
    "compiler \<Rightarrow> graph \<Rightarrow> node_id list \<Rightarrow> descriptor_map \<Rightarrow> target \<Rightarrow> usize \<Rightarrow> (node_id, kernel_descriptor) btree_map \<Rightarrow> lowered_plan set" where
  "assignment_plans c g order descriptors target region_limit assignment =
     {(nodes', buffers, peak) | nodes nodes' buffers peak.
        lower_physical_plan (assignment_lowering c g order descriptors target assignment) (co_fuse c) (search_limits c region_limit) =
          Ok (nodes, buffers, peak) \<and>
        align_feedback_layouts g descriptors (co_registry c) nodes = Ok (Some nodes') \<and>
        feedback_physical_compatible g nodes' = Ok True}"

lemma assignment_plans_eq:
  assumes "lower_physical_plan (assignment_lowering c g order descriptors target assignment) (co_fuse c) (search_limits c region_limit) =
    Ok (nodes, buffers, peak)"
  shows "assignment_plans c g order descriptors target region_limit assignment =
    (case align_feedback_layouts g descriptors (co_registry c) nodes of
       Ok (Some nodes') \<Rightarrow> if feedback_physical_compatible g nodes' = Ok True then {(nodes', buffers, peak)} else {}
     | _ \<Rightarrow> {})"
  using assms by (auto simp: assignment_plans_def split: outcome.splits option.splits)

lemma select_assignment_best:
  assumes "select_assignment c g order descriptors target candidates region_limit scan ordinal = Ok scan'"
    and "best_of (sel_best scan) plans"
  obtains assignment where "assignment_of candidates order ordinal = Ok assignment"
    and "best_of (sel_best scan') (assignment_plans c g order descriptors target region_limit assignment \<union> plans)"
proof -
  from assms(1) obtain assignment where assignment: "assignment_of candidates order ordinal = Ok assignment"
    by (auto simp: select_assignment_def outcome_simps)
  let ?ctx = "assignment_lowering c g order descriptors target assignment"
  let ?lower = "lower_physical_plan ?ctx (co_fuse c) (search_limits c region_limit)"
  have within: "peak \<le> co_max_peak_bytes c \<and> length nodes \<le> cl_max_steps (co_limits c) \<and> length buffers \<le> cl_max_buffers (co_limits c)"
    if "?lower = Ok (nodes, buffers, peak)" for nodes buffers peak
    using that by (rule lower_physical_plan_Ok) (auto simp: admissible_plans_def within_limits_def search_limits_def)
  have "best_of (sel_best scan') (assignment_plans c g order descriptors target region_limit assignment \<union> plans)"
  proof (cases "?lower")
    case (Ok lowered)
    obtain nodes buffers peak where lowered: "lowered = (nodes, buffers, peak)" by (cases lowered)
    with Ok within have considered: "consider_plan c g descriptors scan (nodes, buffers, peak) = Ok scan'"
      using assms(1) assignment by (simp add: select_assignment_def assignment_lowering_def)
    then obtain aligned where aligned: "align_feedback_layouts g descriptors (co_registry c) nodes = Ok aligned"
      by (auto simp: consider_plan_def outcome_simps)
    note plans = assignment_plans_eq [OF Ok [unfolded lowered], unfolded aligned]
    show ?thesis
    proof (cases "\<exists>nodes'. aligned = Some nodes' \<and> feedback_physical_compatible g nodes' = Ok True")
      case True
      then obtain nodes' where "aligned = Some nodes'" "feedback_physical_compatible g nodes' = Ok True" by blast
      with considered aligned plans best_of_insert [OF assms(2), of "(nodes', buffers, peak)"] show ?thesis
        by (auto simp: consider_plan_def)
    next
      case False
      then have "sel_best scan' = sel_best scan"
        using considered aligned by (auto simp: consider_plan_def outcome_simps split: option.splits if_splits)
      with False plans assms(2) show ?thesis by (auto split: option.splits)
    qed
  next
    case (Err e)
    then have "assignment_plans c g order descriptors target region_limit assignment = {}" by (simp add: assignment_plans_def)
    moreover have "sel_best scan' = sel_best scan"
      using assms(1) assignment Err by (auto simp: select_assignment_def assignment_lowering_def split: compile_error.splits)
    ultimately show ?thesis using assms(2) by simp
  next
    case Panic
    then show ?thesis using assms(1) assignment by (simp add: select_assignment_def assignment_lowering_def)
  qed
  with that assignment show thesis by blast
qed

lemma select_assignments_best:
  assumes "try_fold (select_assignment c g order descriptors target candidates region_limit) scan ordinals = Ok scan'"
    and "best_of (sel_best scan) plans"
  shows "best_of (sel_best scan')
    ((\<Union>a \<in> {a. \<exists>i \<in> set ordinals. assignment_of candidates order i = Ok a}.
       assignment_plans c g order descriptors target region_limit a) \<union> plans)"
  using assms
proof (induction ordinals arbitrary: scan plans)
  case (Cons i ordinals)
  then obtain scan1 where step: "select_assignment c g order descriptors target candidates region_limit scan i = Ok scan1"
    and rest: "try_fold (select_assignment c g order descriptors target candidates region_limit) scan1 ordinals = Ok scan'"
    by (auto simp: outcome_simps)
  from select_assignment_best [OF step Cons.prems(2)] obtain a where a: "assignment_of candidates order i = Ok a"
    and best: "best_of (sel_best scan1) (assignment_plans c g order descriptors target region_limit a \<union> plans)" by blast
  let ?all = "\<lambda>is. \<Union>a \<in> {a. \<exists>i \<in> set is. assignment_of candidates order i = Ok a}. assignment_plans c g order descriptors target region_limit a"
  have "?all (i # ordinals) = assignment_plans c g order descriptors target region_limit a \<union> ?all ordinals"
    using a by auto
  with Cons.IH [OF rest best] show ?case by (simp add: Un_ac)
qed simp

definition all_plans :: "compiler \<Rightarrow> graph \<Rightarrow> node_id list \<Rightarrow> instance_map \<Rightarrow> descriptor_map \<Rightarrow> target \<Rightarrow> usize \<Rightarrow> lowered_plan set" where
  "all_plans c g order instances descriptors target region_limit =
     (\<Union>assignment \<in> assignments (co_registry c) order instances target.
        assignment_plans c g order descriptors target region_limit assignment)"

lemma select_and_lower_Ok:
  assumes "select_and_lower c g order instances descriptors target = Ok lowered"
  obtains region_limit where "0 < region_limit" and "lowered \<in> all_plans c g order instances descriptors target region_limit"
    and "\<And>other. other \<in> all_plans c g order instances descriptors target region_limit \<Longrightarrow> lowered_score lowered \<le> lowered_score other"
proof -
  let ?scan = "\<lparr>sel_best = None, sel_saw_layout_failure = False, sel_saw_feedback_failure = False, sel_saw_resource_failure = False\<rparr>"
  from assms obtain candidates total_count region_limit scan
    where candidates: "kernel_candidates (co_registry c) order instances target = Ok candidates"
      and total_count: "count_assignments (cl_max_search_states (co_limits c)) candidates order = Ok total_count"
      and limit: "region_limit_of (cl_max_search_states (co_limits c)) total_count = Ok region_limit"
      and scan: "try_fold (select_assignment c g order descriptors target candidates region_limit) ?scan [0..<total_count] = Ok scan"
      and result: "selection_result g order target scan = Ok lowered"
    by (auto simp: select_and_lower_def outcome_simps)
  note for_all = kernel_candidates_Ok [OF candidates]
  have total_count: "total_count = prod_list (map (radix candidates) order)" by (rule count_assignments_Ok [OF total_count])
  let ?enumerated = "{a. \<exists>i \<in> set [0..<total_count]. assignment_of candidates order i = Ok a}"
  have enumerated: "?enumerated = assignments (co_registry c) order instances target"
  proof (intro set_eqI iffI)
    fix a
    assume "a \<in> ?enumerated"
    then show "a \<in> assignments (co_registry c) order instances target" using assignment_of_Ok [OF for_all] by blast
  next
    fix a
    assume "a \<in> assignments (co_registry c) order instances target"
    then obtain i where "i < total_count" "assignment_of candidates order i = Ok a"
      unfolding total_count by (rule assignment_of_onto [OF for_all])
    then show "a \<in> ?enumerated" by (auto intro: bexI [of _ i])
  qed
  have best: "best_of (sel_best scan) (all_plans c g order instances descriptors target region_limit)"
    using select_assignments_best [OF scan, of "{}"] unfolding enumerated all_plans_def by simp
  from result obtain candidate where candidate: "sel_best scan = Some candidate" "candidate_plan candidate = lowered"
    by (auto simp: selection_result_def outcome_simps split: option.splits if_splits)
  have "0 < region_limit" using limit by (auto simp: region_limit_of_def split: if_splits)
  from that [OF this best_of_plan [OF best [unfolded candidate(1)] candidate(2)]] show thesis .
qed

text \<open>
  C24. The kernels selected for a graph are the best: the lowered plan returned comes from giving
  every node some suitable kernel (registered for the target and the node's type, at least as
  deterministic, with compatible layouts), every such assignment is considered, and no assignment
  whose plan respects the limits and the feedback contracts has a smaller peak, or the same peak with
  fewer steps, or the same with lexicographically smaller kernel ids.
\<close>

theorem select_and_lower_optimal:
  assumes "select_and_lower c g order instances descriptors target = Ok lowered"
  shows "\<exists>region_limit > 0.
    lowered \<in> all_plans c g order instances descriptors target region_limit \<and>
    (\<forall>other \<in> all_plans c g order instances descriptors target region_limit. lowered_score lowered \<le> lowered_score other)"
  by (rule select_and_lower_Ok [OF assms]) blast

definition lone_registry_of :: "kernel_id list \<Rightarrow> kernel_registry" where
  "lone_registry_of ks =
     \<lparr>reg_descriptors = [((''example'', 1), sample_descriptor [] [])], reg_kernels = map (\<lambda>k. (k, sample_kernel k)) ks, reg_subgraphs = []\<rparr>"

definition lone_compiler :: compiler where
  "lone_compiler = with_fusion (new_compiler (lone_registry_of [7, 8]) Realm_HostStream) False"

definition lone_context :: "kernel_id \<Rightarrow> physical_lowering" where
  "lone_context k =
     assignment_lowering lone_compiler (sample_graph [1] []) [1] [(1, sample_descriptor [] [])] Target_Host [(1, sample_kernel k)]"

definition lone_region :: "kernel_id \<Rightarrow> compiled_node" where
  "lone_region k = (sample_step 0 [] [])\<lparr>cn_semantic_nodes := [1], cn_kernel := k, cn_implementation_id := replicate 32 (ucast k)\<rparr>"

lemma lone_context_simps [simp]:
  "pw_graph (lone_context k) = sample_graph [1] []" "pw_order (lone_context k) = [1]"
  "pw_descriptors (lone_context k) = [(1, sample_descriptor [] [])]" "pw_kernels (lone_context k) = [(1, sample_kernel k)]"
  "instances_of (sample_graph [1] []) = [(1, sample_instance 1)]"
  by (simp_all add: lone_context_def assignment_lowering_def instances_of_def sample_graph_def sample_instance_def bt_collect_def bt_empty_def)

lemma lone_candidates:
  assumes "0 < n"
  shows "build_semantic_region_candidates (lone_context k) False n = Ok [[lone_region k]]"
proof -
  have region: "semantic_region [1] (sample_kernel k) [(1, sample_descriptor [] [])] [(1, sample_instance 1)] = Ok (lone_region k)"
    by (simp add: semantic_region_def index_def entry_at_def bt_get_def last_opt_def port_contracts_def sample_kernel_def sample_instance_def
        sample_descriptor_def lone_region_def sample_step_def instance_type_def List.map_filter_def)
  have none: "assemble_regions (lone_context k) [(1, sample_instance 1)] (Suc 0) [] = Ok []" by (subst assemble_regions.simps) simp
  have one: "assemble_regions (lone_context k) [(1, sample_instance 1)] 0 [] = Ok [lone_region k]"
    by (subst assemble_regions.simps) (simp add: entry_at_def bt_get_def region none)
  let ?L = "region_loop (lone_context k) [(1, sample_instance 1)] False n"
  have "?L [(0, [])] [] = ?L [(Suc 0, [])] []"
    using assms by (subst region_loop.simps) (simp add: fusion_alternatives_def usize_saturating_add_def)
  also have "\<dots> = ?L [] [[lone_region k]]"
    using assms by (subst region_loop.simps) (simp add: one)
  also have "\<dots> = Ok [[lone_region k]]" by (simp add: region_loop.simps)
  finally show ?thesis by (simp add: build_semantic_region_candidates_def)
qed

lemma lone_lowered: "lower_semantic_regions (lone_context k) [lone_region k] n = Ok ([lone_region k], [], 80)"
proof -
  have "build_groups (lone_context k) (region_owner [lone_region k]) [lone_region k] n = Ok []"
    by (simp add: build_groups_def sample_graph_def bt_empty_def)
  moreover have "emit_steps [lone_region k] [] =
      Ok \<lparr>em_nodes = [lone_region k], em_semantic_steps = [0], em_conversion_steps = bt_empty\<rparr>"
    by (simp add: emit_steps_def emit_region_def enumerate_list_def index_def lone_region_def sample_step_def)
  moreover have "bind_invocations (lone_context k) (region_owner [lone_region k]) [lone_region k]
      \<lparr>em_nodes = [lone_region k], em_semantic_steps = [0], em_conversion_steps = bt_empty\<rparr> = Ok [lone_region k]"
    by (simp add: bind_invocations_def sample_graph_def enumerate_list_def sort_dedup_def)
  moreover have "canonicalize_buffers [lone_region k] [] = Ok ([lone_region k], [])"
    by (simp add: canonicalize_buffers_def remap_node_def enumerate_list_def buffer_order_def lone_region_def sample_step_def)
  moreover have "synchronize_port_layouts [lone_region k] [] = Ok [lone_region k]"
    by (simp add: synchronize_port_layouts_def sync_node_def lone_region_def sample_step_def)
  moreover have "peak_of [lone_region k] [] = Ok 80"
    by (simp add: peak_of_def arena_bytes_def node_workspace_def lone_region_def sample_step_def resource_bounded_def
        u64_checked_add_def stateless_def)
  ultimately show ?thesis by (simp add: lower_semantic_regions_def enumerate_list_def assign_aliases_def)
qed

lemma lone_plan:
  assumes "0 < n"
  shows "lower_physical_plan (lone_context k) False (search_limits lone_compiler n) = Ok ([lone_region k], [], 80)"
proof -
  have "ps_region_candidates (search_limits lone_compiler n) = n" by (simp add: search_limits_def)
  with assms show ?thesis
    by (simp add: lower_physical_plan_def lone_candidates lower_candidate_def lone_lowered search_limits_def lone_compiler_def
        with_fusion_def new_compiler_def better_candidate_eq)
qed

lemma lone_kernels:
  "kernel_candidates (lone_registry_of [7, 8]) [1] [(1, sample_instance 1)] Target_Host = Ok [(1, [sample_kernel 7, sample_kernel 8])]"
proof -
  have "kernel_suits (lone_registry_of [7, 8]) Target_Host (sample_instance 1) (sample_kernel k) = Ok True" for k
    by (simp add: kernel_suits_def lone_registry_of_def sample_kernel_def sample_instance_def instance_type_def entry_at_def bt_get_def
        sample_descriptor_def descriptor_layouts_compatible_def layouts_compatible_def)
  moreover have "bt_values (reg_kernels (lone_registry_of [7, 8])) = [sample_kernel 7, sample_kernel 8]"
    by (simp add: lone_registry_of_def bt_values_def)
  moreover have "replicate 32 x = x # replicate 31 x" for x :: u8 by (simp flip: replicate_Suc)
  then have "kernel_key (sample_kernel 7) \<le> kernel_key (sample_kernel 8)"
    by (simp add: kernel_key_def sample_kernel_def)
  ultimately have "node_candidates (lone_registry_of [7, 8]) [(1, sample_instance 1)] Target_Host 1 = Ok [sample_kernel 7, sample_kernel 8]"
    by (simp add: node_candidates_def entry_at_def bt_get_def guard_def)
  then show ?thesis by (simp add: kernel_candidates_def bt_empty_def)
qed

lemma lone_selected:
  "select_and_lower lone_compiler (sample_graph [1] []) [1] [(1, sample_instance 1)] [(1, sample_descriptor [] [])] Target_Host =
     Ok ([lone_region 7], [], 80)"
proof -
  let ?cs = "[(1, [sample_kernel 7, sample_kernel 8])] :: candidate_map"
  have compiler: "co_registry lone_compiler = lone_registry_of [7, 8]" "co_fuse lone_compiler = False" "co_max_peak_bytes lone_compiler = - 1"
    "co_limits lone_compiler = compile_limits_default"
    by (simp_all add: lone_compiler_def with_fusion_def new_compiler_def compile_limits_default_def)
  have count: "count_assignments 65536 ?cs [1] = Ok 2"
    by (simp add: count_assignments_def entry_at_def bt_get_def usize_checked_mul_def)
  have limit: "region_limit_of 65536 2 = Ok 32768" by (simp add: region_limit_of_def)
  have assigned: "assignment_of ?cs [1] 0 = Ok [(1, sample_kernel 7)]" "assignment_of ?cs [1] (Suc 0) = Ok [(1, sample_kernel 8)]"
    by (simp_all add: assignment_of_def entry_at_def bt_get_def index_def bt_collect_def bt_empty_def)
  have context_eq: "\<lparr>pw_graph = sample_graph [1] [], pw_order = [1], pw_descriptors = [(1, sample_descriptor [] [])],
      pw_kernels = [(1, sample_kernel k)], pw_registry = co_registry lone_compiler, pw_target = Target_Host\<rparr> = lone_context k" for k
    by (simp add: lone_context_def assignment_lowering_def)
  have feedback: "align_feedback_layouts (sample_graph [1] []) ds reg nodes = Ok (Some nodes)"
    "feedback_physical_compatible (sample_graph [1] []) nodes = Ok True" for ds reg nodes
    by (simp_all add: align_feedback_layouts_def feedback_groups_def sample_graph_def bt_empty_def feedback_physical_compatible_def any_in_def any_of.simps)
  let ?select = "select_assignment lone_compiler (sample_graph [1] []) [1] [(1, sample_descriptor [] [])] Target_Host ?cs 32768"
  have select: "?select scan i = Ok (scan\<lparr>sel_best := better_candidate (sel_best scan) ([lone_region k], [], 80)\<rparr>)"
    if "assignment_of ?cs [1] i = Ok [(1, sample_kernel k)]" for scan i k
    unfolding select_assignment_def that and_then.simps context_eq using lone_plan [of 32768 k]
    by (simp add: compiler consider_plan_def feedback compile_limits_default_def)
  have "\<not> lowered_score ([lone_region 8], [], 80) < lowered_score ([lone_region 7], [], 80)"
    by (simp add: lowered_score_def lone_region_def)
  then have best: "better_candidate (better_candidate None ([lone_region 7], [], 80)) ([lone_region 8], [], 80) =
      Some (as_candidate ([lone_region 7], [], 80))"
    by (simp add: better_candidate_eq)
  show ?thesis
    unfolding select_and_lower_def compiler lone_kernels and_then.simps
    by (simp add: compile_limits_default_def count limit select [OF assigned(1)] select [OF assigned(2)] best selection_result_def
        upt_rec [of _ 2])
qed

theorem select_and_lower_optimal_witness:
  "select_and_lower lone_compiler (sample_graph [1] []) [1] [(1, sample_instance 1)] [(1, sample_descriptor [] [])] Target_Host =
     Ok ([lone_region 7], [], 80) \<and>
   (\<exists>region_limit > 0. ([lone_region 7], [], 80) \<in>
      all_plans lone_compiler (sample_graph [1] []) [1] [(1, sample_instance 1)] [(1, sample_descriptor [] [])] Target_Host region_limit)"
  using lone_selected select_and_lower_optimal [OF lone_selected] by blast

end
