(* ===== verification/Compiler.thy ===== *)
theory Compiler
  imports Selection Registry Topology
begin

text \<open>
  \<open>Compiler::compile\<close> of \<open>crates/blut-graph-core/src/compile.rs\<close>: admission of the graph and of each of
  its nodes, normalisation of the configurations, verification of the edges, ordering, contract
  propagation, selection of kernels, lowering of feedback and the identity of the plan.
\<close>

section \<open>Admission\<close>

definition admit_graph :: "compiler \<Rightarrow> graph \<Rightarrow> (compile_error, unit) outcome" where
  "admit_graph c g =
     and_then (guard (g_version g \<noteq> 3) (UnsupportedGraphVersion (g_version g))) (\<lambda>_.
     and_then (guard (g_nodes g = []) EmptyGraph) (\<lambda>_.
     and_then (guard ([] \<in> set (g_required_proofs g @ g_policy g) \<or> [] \<in> set (g_required_capabilities g)) InvalidGraphContract) (\<lambda>_.
     guard (cl_max_semantic_nodes (co_limits c) < length (g_nodes g)) CompileLimitExceeded)))"

definition unique_nodes :: "graph \<Rightarrow> (compile_error, node_id set) outcome" where
  "unique_nodes g =
     try_fold (\<lambda>seen node. and_then (guard (ni_id node \<in> seen) (DuplicateNode (ni_id node))) (\<lambda>_. Ok (insert (ni_id node) seen)))
       {} (g_nodes g)"

definition admit_node ::
    "compiler \<Rightarrow> graph \<Rightarrow> descriptor_map \<Rightarrow> node_instance \<Rightarrow> (compile_error, descriptor_map) outcome" where
  "admit_node c g descriptors node =
     (let key = (ni_descriptor node, ni_descriptor_version node); reg = co_registry c; target = realm_target (co_realm c)
      in and_then (ok_or (bt_get (reg_descriptors reg) key) (UnknownDescriptor (fst key) (snd key))) (\<lambda>descriptor.
         and_then (guard (target \<notin> set (nd_targets descriptor)) (TargetUnsupported (ni_id node) target)) (\<lambda>_.
         and_then (guard (0 < nd_retry_limit descriptor \<and> nd_effect descriptor = AtMostOnce) (UnsafeRetry (ni_id node))) (\<lambda>_.
         and_then (guard (sc_scope (nd_state descriptor) \<in> {ScopeSession, Durable} \<and> g_session g = None) (InvalidState (ni_id node))) (\<lambda>_.
         and_then (case nd_subgraph descriptor of
               None \<Rightarrow> Ok ()
             | Some lowering \<Rightarrow>
                 and_then (validate_subgraph_path (reg_subgraphs reg) (sl_subgraph lowering)
                     (cl_max_subgraph_depth (co_limits c)) (cl_max_subgraph_entries (co_limits c))) (\<lambda>_.
                 validate_subgraph_lowering descriptor lowering (reg_subgraphs reg) (reg_descriptors reg))) (\<lambda>_.
         and_then (for_each (\<lambda>capability. guard (capability \<notin> set (g_required_capabilities g)) (CapabilityMissing capability))
             (nd_capabilities descriptor)) (\<lambda>_.
         Ok (bt_insert (ni_id node) descriptor descriptors))))))))"

definition normalize_node :: "descriptor_map \<Rightarrow> node_instance \<Rightarrow> (compile_error, node_instance) outcome" where
  "normalize_node descriptors node =
     and_then (entry_at descriptors (ni_id node)) (\<lambda>descriptor.
     and_then (map_err (InvalidConfig (ni_id node)) (canonicalize (nd_config descriptor) (ni_config node))) (\<lambda>config.
     Ok (node\<lparr>ni_config := config\<rparr>)))"

definition admit_session :: "graph \<Rightarrow> (compile_error, unit) outcome" where
  "admit_session g =
     and_then (guard (case g_session g of
           None \<Rightarrow> False
         | Some session \<Rightarrow>
             ses_namespace session = [] \<or> ses_max_concurrent_sessions session = 0 \<or> ses_max_idle_millis session = 0)
       InvalidSession) (\<lambda>_.
     guard (g_feedback g \<noteq> [] \<and> g_session g = None) InvalidSession)"

definition admit_capabilities :: "graph \<Rightarrow> descriptor_map \<Rightarrow> (compile_error, unit) outcome" where
  "admit_capabilities g descriptors =
     (let supplied = set (concat (map nd_capabilities (bt_values descriptors)))
      in case filter (\<lambda>capability. capability \<notin> supplied) (sort_dedup (g_required_capabilities g)) of
           [] \<Rightarrow> Ok ()
         | extra # _ \<Rightarrow> Err (CapabilityUnsupported extra))"

section \<open>Compilation\<close>

definition node_state_bytes :: "compiled_node list \<Rightarrow> (compile_error, u64) outcome" where
  "node_state_bytes nodes =
     try_fold (\<lambda>total node. ok_or (u64_checked_add total (sc_max_bytes (cn_state node))) ResourceOverflow) 0
       (filter (\<lambda>node. sc_scope (cn_state node) \<in> {ScopeSession, Durable}) nodes)"

text \<open>The normalised graph and the descriptors of its nodes.\<close>

definition admit :: "compiler \<Rightarrow> graph \<Rightarrow> (compile_error, graph \<times> descriptor_map) outcome" where
  "admit c g =
     and_then (admit_graph c g) (\<lambda>_.
     and_then (unique_nodes g) (\<lambda>_.
     and_then (try_fold (admit_node c g) bt_empty (g_nodes g)) (\<lambda>descriptors.
     and_then (try_map (normalize_node descriptors) (g_nodes g)) (\<lambda>nodes.
     let g = g\<lparr>g_nodes := nodes\<rparr>
     in and_then (admit_session g) (\<lambda>_.
        and_then (admit_capabilities g descriptors) (\<lambda>_.
        Ok (g, descriptors)))))))"

definition assemble_plan ::
    "hasher \<Rightarrow> compiler \<Rightarrow> graph \<Rightarrow> descriptor_map \<Rightarrow> port_ref list \<Rightarrow> node_id list \<Rightarrow> string list \<times> string list \<times> u16 \<Rightarrow>
     lowered_plan \<Rightarrow> (compile_error, authorized_plan) outcome" where
  "assemble_plan H c g descriptors invocation_ports order contracts lowered =
     (case lowered of (nodes, buffers, peak_bytes) \<Rightarrow>
        and_then (lower_feedback g nodes (cl_max_feedback_edges (co_limits c))) (\<lambda>(nodes, feedback, feedback_bytes).
        and_then (node_state_bytes nodes) (\<lambda>state_bytes.
        and_then (ok_or (u64_checked_add state_bytes feedback_bytes) ResourceOverflow) (\<lambda>persistent_state_bytes.
        and_then (guard (cl_max_persistent_state_bytes (co_limits c) < persistent_state_bytes) ResourceOverflow) (\<lambda>_.
        and_then (hash_graph H g descriptors) (\<lambda>graph_id.
        let plan = \<lparr>p_schema_version = 3, p_graph_id = graph_id, p_plan_id = replicate 32 0, p_realm = co_realm c,
                    p_order = order, p_nodes = nodes, p_buffers = buffers, p_feedback = feedback,
                    p_invocation_ports = invocation_ports, p_propagated_proofs = fst contracts,
                    p_propagated_policy = fst (snd contracts), p_resulting_fidelity = snd (snd contracts),
                    p_peak_bytes = peak_bytes, p_persistent_state_bytes = persistent_state_bytes, p_session = g_session g\<rparr>
        in Ok (AuthorizedPlan (plan\<lparr>p_plan_id := hash_plan H plan\<rparr>))))))))"

definition compile :: "hasher \<Rightarrow> compiler \<Rightarrow> graph \<Rightarrow> (compile_error, authorized_plan) outcome" where
  "compile H c g =
     and_then (admit c g) (\<lambda>(g, descriptors).
     and_then (verify_edges g descriptors) (\<lambda>invocation_ports.
     and_then (topological_order g) (\<lambda>order.
     and_then (propagate_contracts g order descriptors) (\<lambda>contracts.
     and_then (select_and_lower c g order (instances_of g) descriptors (realm_target (co_realm c))) (\<lambda>lowered.
     assemble_plan H c g descriptors invocation_ports order contracts lowered)))))"

end
