(* ===== verification/Raft.thy ===== *)
theory Raft
  imports Std_Collections
begin

text \<open>
  One participant of the replicated scheduler log, \<open>src/raft/consensus.rs\<close>: elections, log replication
  and commit. A node is a value; \<open>tick\<close>, \<open>handle\<close> and \<open>propose\<close> return the next node and the messages
  to deliver. Terms and log indices (\<open>u64\<close> in the source) are natural numbers; an increment that
  would leave 64 bits is a panic, as it is in a build with overflow checks (a build without them wraps
  to zero there), and so is an index outside the log.
\<close>

type_synonym member_id = string

section \<open>Nodes and messages\<close>

record 'c log_entry =
  le_term :: nat
  le_command :: 'c

datatype raft_role = Follower | Candidate | Leader

datatype 'c raft_message =
    RequestVote (rv_term: nat) (rv_candidate: member_id) (rv_last_log_index: nat) (rv_last_log_term: nat)
  | RequestVoteResp (vr_term: nat) (vr_from: member_id) (vr_granted: bool)
  | AppendEntries (ae_term: nat) (ae_leader: member_id) (ae_prev_log_index: nat) (ae_prev_log_term: nat)
      (ae_entries: "'c log_entry list") (ae_leader_commit: nat)
  | AppendEntriesResp (ar_term: nat) (ar_from: member_id) (ar_match_index: nat) (ar_success: bool)

record 'c outbound =
  ob_to :: member_id
  ob_message :: "'c raft_message"

record 'c raft_node =
  rn_id :: member_id
  rn_members :: "member_id list"
  rn_current_term :: nat
  rn_voted_for :: "member_id option"
  rn_log :: "'c log_entry list"
  rn_role :: raft_role
  rn_commit_index :: nat
  rn_leader_hint :: "member_id option"
  rn_votes_granted :: "member_id list"
  rn_next_index :: "(member_id, nat) btree_map"
  rn_match_index :: "(member_id, nat) btree_map"
  rn_election_timeout :: nat
  rn_ticks_since_heard :: nat

text \<open>No operation returns an error; \<open>Panic\<close> is a failed assertion, index or addition.\<close>

type_synonym 'a raft_result = "(unit, 'a) outcome"

type_synonym 'c reaction = "'c raft_node \<times> 'c outbound list"

definition u64_succ :: "nat \<Rightarrow> nat raft_result" where
  "u64_succ n = (if int n + 1 < 2 ^ 64 then Ok (n + 1) else Panic)"

definition new_raft_node :: "member_id \<Rightarrow> member_id list \<Rightarrow> nat \<Rightarrow> 'c raft_node raft_result" where
  "new_raft_node i members election_timeout =
     (if i \<notin> set members \<or> election_timeout = 0 then Panic
      else Ok \<lparr>rn_id = i, rn_members = members, rn_current_term = 0, rn_voted_for = None, rn_log = [], rn_role = Follower,
               rn_commit_index = 0, rn_leader_hint = None, rn_votes_granted = [], rn_next_index = bt_empty,
               rn_match_index = bt_empty, rn_election_timeout = election_timeout, rn_ticks_since_heard = 0\<rparr>)"

definition last_log_index :: "'c raft_node \<Rightarrow> nat" where
  "last_log_index n = length (rn_log n)"

definition last_log_term :: "'c raft_node \<Rightarrow> nat" where
  "last_log_term n = (case last_opt (rn_log n) of Some e \<Rightarrow> le_term e | None \<Rightarrow> 0)"

definition raft_quorum :: "'c raft_node \<Rightarrow> nat" where
  "raft_quorum n = length (rn_members n) div 2 + 1"

definition peers :: "'c raft_node \<Rightarrow> member_id list" where
  "peers n = filter (\<lambda>m. m \<noteq> rn_id n) (rn_members n)"

definition committed_entries :: "'c raft_node \<Rightarrow> 'c log_entry list raft_result" where
  "committed_entries n = (if rn_commit_index n \<le> length (rn_log n) then Ok (take (rn_commit_index n) (rn_log n)) else Panic)"

section \<open>Leadership\<close>

definition become_leader :: "'c raft_node \<Rightarrow> 'c raft_node raft_result" where
  "become_leader n =
     and_then (u64_succ (last_log_index n)) (\<lambda>next_index.
     Ok (n\<lparr>rn_role := Leader, rn_leader_hint := Some (rn_id n),
           rn_next_index := bt_collect (map (\<lambda>p. (p, next_index)) (peers n)),
           rn_match_index := bt_collect (map (\<lambda>p. (p, 0)) (peers n))\<rparr>))"

definition append_for :: "'c raft_node \<Rightarrow> member_id \<Rightarrow> 'c outbound raft_result" where
  "append_for n peer =
     (let next_index = (case bt_get (rn_next_index n) peer of Some i \<Rightarrow> i | None \<Rightarrow> 1); prev_log_index = next_index - 1
      in and_then (if prev_log_index = 0 then Ok 0
                   else and_then (index (rn_log n) (prev_log_index - 1)) (\<lambda>e. Ok (le_term e))) (\<lambda>prev_log_term.
         if length (rn_log n) < prev_log_index then Panic
         else Ok \<lparr>ob_to = peer,
                  ob_message = AppendEntries (rn_current_term n) (rn_id n) prev_log_index prev_log_term
                    (drop prev_log_index (rn_log n)) (rn_commit_index n)\<rparr>))"

definition broadcast_append :: "'c raft_node \<Rightarrow> 'c outbound list raft_result" where
  "broadcast_append n = try_map (append_for n) (peers n)"

definition lead :: "'c raft_node \<Rightarrow> 'c reaction raft_result" where
  "lead n = and_then (become_leader n) (\<lambda>n. and_then (broadcast_append n) (\<lambda>out. Ok (n, out)))"

definition begin_election :: "'c raft_node \<Rightarrow> 'c reaction raft_result" where
  "begin_election n =
     and_then (u64_succ (rn_current_term n)) (\<lambda>t.
     let n = n\<lparr>rn_current_term := t, rn_role := Candidate, rn_voted_for := Some (rn_id n), rn_votes_granted := [rn_id n],
               rn_leader_hint := None, rn_ticks_since_heard := 0\<rparr>
     in if raft_quorum n \<le> length (rn_votes_granted n) then lead n
        else Ok (n, map (\<lambda>p. \<lparr>ob_to = p, ob_message = RequestVote t (rn_id n) (last_log_index n) (last_log_term n)\<rparr>) (peers n)))"

definition tick :: "'c raft_node \<Rightarrow> 'c reaction raft_result" where
  "tick n =
     (if rn_role n = Leader then and_then (broadcast_append n) (\<lambda>out. Ok (n, out))
      else and_then (u64_succ (rn_ticks_since_heard n)) (\<lambda>ticks.
           let n = n\<lparr>rn_ticks_since_heard := ticks\<rparr>
           in if rn_election_timeout n \<le> ticks then begin_election n else Ok (n, [])))"

definition step_down :: "'c raft_node \<Rightarrow> nat \<Rightarrow> 'c raft_node" where
  "step_down n t =
     n\<lparr>rn_current_term := t, rn_role := Follower, rn_voted_for := None, rn_votes_granted := [], rn_ticks_since_heard := 0\<rparr>"

section \<open>Commit and proposals\<close>

definition replicas :: "'c raft_node \<Rightarrow> nat \<Rightarrow> nat" where
  "replicas n i = 1 + length (filter (\<lambda>m. i \<le> m) (bt_values (rn_match_index n)))"

definition advance_commit :: "'c raft_node \<Rightarrow> 'c raft_node" where
  "advance_commit n =
     n\<lparr>rn_commit_index :=
        foldl (\<lambda>candidate i.
            if le_term (rn_log n ! (i - 1)) \<noteq> rn_current_term n then candidate
            else if raft_quorum n \<le> replicas n i then i else candidate)
          (rn_commit_index n) [rn_commit_index n + 1..<last_log_index n + 1]\<rparr>"

definition propose :: "'c raft_node \<Rightarrow> 'c \<Rightarrow> 'c raft_node \<times> nat option" where
  "propose n command =
     (if rn_role n \<noteq> Leader then (n, None)
      else let n = n\<lparr>rn_log := rn_log n @ [\<lparr>le_term = rn_current_term n, le_command = command\<rparr>]\<rparr>
           in (advance_commit n, Some (last_log_index n)))"

section \<open>Messages\<close>

definition on_request_vote :: "'c raft_node \<Rightarrow> nat \<Rightarrow> member_id \<Rightarrow> nat \<Rightarrow> nat \<Rightarrow> 'c reaction" where
  "on_request_vote n t candidate candidate_log_index candidate_log_term =
     (let free = (case rn_voted_for n of None \<Rightarrow> True | Some already \<Rightarrow> already = candidate);
          up_to_date = ((candidate_log_term, candidate_log_index) \<ge> (last_log_term n, last_log_index n));
          granted = (rn_current_term n \<le> t \<and> free \<and> up_to_date);
          n = (if granted then n\<lparr>rn_voted_for := Some candidate, rn_ticks_since_heard := 0\<rparr> else n)
      in (n, [\<lparr>ob_to = candidate, ob_message = RequestVoteResp (rn_current_term n) (rn_id n) granted\<rparr>]))"

definition on_vote_response :: "'c raft_node \<Rightarrow> nat \<Rightarrow> member_id \<Rightarrow> bool \<Rightarrow> 'c reaction raft_result" where
  "on_vote_response n t from granted =
     (if rn_role n \<noteq> Candidate \<or> t \<noteq> rn_current_term n \<or> \<not> granted then Ok (n, [])
      else let n = (if from \<in> set (rn_votes_granted n) then n else n\<lparr>rn_votes_granted := rn_votes_granted n @ [from]\<rparr>)
           in if raft_quorum n \<le> length (rn_votes_granted n) then lead n else Ok (n, []))"

text \<open>One entry of an append, at its position in the log.\<close>

definition store_entry :: "'c log_entry list \<Rightarrow> nat \<times> 'c log_entry \<Rightarrow> 'c log_entry list" where
  "store_entry log slot_entry =
     (case slot_entry of (slot, entry) \<Rightarrow>
        if slot < length log
        then (if le_term (log ! slot) \<noteq> le_term entry then take slot log @ [entry] else log)
        else log @ [entry])"

definition store_entries :: "'c log_entry list \<Rightarrow> nat \<Rightarrow> 'c log_entry list \<Rightarrow> 'c log_entry list" where
  "store_entries log prev_log_index entries =
     foldl store_entry log (zip [prev_log_index..<prev_log_index + length entries] entries)"

definition append_reply :: "'c raft_node \<Rightarrow> member_id \<Rightarrow> nat \<Rightarrow> bool \<Rightarrow> 'c outbound list" where
  "append_reply n leader match_index success =
     [\<lparr>ob_to = leader, ob_message = AppendEntriesResp (rn_current_term n) (rn_id n) match_index success\<rparr>]"

definition on_append_entries ::
    "'c raft_node \<Rightarrow> nat \<Rightarrow> member_id \<Rightarrow> nat \<Rightarrow> nat \<Rightarrow> 'c log_entry list \<Rightarrow> nat \<Rightarrow> 'c reaction" where
  "on_append_entries n t leader prev_log_index prev_log_term entries leader_commit =
     (if t < rn_current_term n then (n, append_reply n leader 0 False)
      else
        let n = n\<lparr>rn_role := Follower, rn_leader_hint := Some leader, rn_ticks_since_heard := 0\<rparr>;
            consistent = (prev_log_index = 0 \<or>
              (prev_log_index \<le> last_log_index n \<and> le_term (rn_log n ! (prev_log_index - 1)) = prev_log_term))
        in if \<not> consistent then (n, append_reply n leader 0 False)
           else
             let n = n\<lparr>rn_log := store_entries (rn_log n) prev_log_index entries\<rparr>;
                 n = (if rn_commit_index n < leader_commit
                      then n\<lparr>rn_commit_index := min leader_commit (last_log_index n)\<rparr> else n)
             in (n, append_reply n leader (last_log_index n) True))"

definition on_append_response :: "'c raft_node \<Rightarrow> nat \<Rightarrow> member_id \<Rightarrow> nat \<Rightarrow> bool \<Rightarrow> 'c reaction raft_result" where
  "on_append_response n t from match_index success =
     (if rn_role n \<noteq> Leader \<or> t \<noteq> rn_current_term n then Ok (n, [])
      else if success
      then and_then (u64_succ match_index) (\<lambda>next_index.
           Ok (advance_commit (n\<lparr>rn_match_index := bt_insert from match_index (rn_match_index n),
                                 rn_next_index := bt_insert from next_index (rn_next_index n)\<rparr>), []))
      else let next_index = (case bt_get (rn_next_index n) from of Some i \<Rightarrow> i | None \<Rightarrow> 1)
           in Ok (n\<lparr>rn_next_index := bt_insert from (max (next_index - 1) 1) (rn_next_index n)\<rparr>, []))"

fun message_term :: "'c raft_message \<Rightarrow> nat" where
  "message_term (RequestVote t _ _ _) = t"
| "message_term (RequestVoteResp t _ _) = t"
| "message_term (AppendEntries t _ _ _ _ _) = t"
| "message_term (AppendEntriesResp t _ _ _) = t"

fun react :: "'c raft_node \<Rightarrow> 'c raft_message \<Rightarrow> 'c reaction raft_result" where
  "react n (RequestVote t candidate i lt) = Ok (on_request_vote n t candidate i lt)"
| "react n (RequestVoteResp t from granted) = on_vote_response n t from granted"
| "react n (AppendEntries t leader prev_index prev_term entries commit) =
     Ok (on_append_entries n t leader prev_index prev_term entries commit)"
| "react n (AppendEntriesResp t from match_index success) = on_append_response n t from match_index success"

definition handle :: "'c raft_node \<Rightarrow> 'c raft_message \<Rightarrow> 'c reaction raft_result" where
  "handle n message =
     react (if rn_current_term n < message_term message then step_down n (message_term message) else n) message"

end
