(* ===== verification/Raft_Safety.thy ===== *)
theory Raft_Safety
  imports Raft
begin

text \<open>
  The cluster of \<open>src/raft\<close>: nodes that tick, accept proposals and handle any message that was ever
  sent, in any order and any number of times, so that loss, duplication and reordering are covered.
  The theory shows that a term has at most one leader and that logs agree up to every entry of
  equal index and term, by an invariant with the votes, the leaders and the logs of the past as
  existential history.
\<close>

section \<open>The cluster as a transition system\<close>

record 'c raft_cluster =
  cl_nodes :: "member_id \<Rightarrow> 'c raft_node"
  cl_net :: "'c outbound set"

datatype 'c raft_event = Tick member_id | Deliver "'c outbound" | Propose member_id 'c

definition advance :: "'c raft_cluster \<Rightarrow> member_id \<Rightarrow> 'c raft_node \<Rightarrow> 'c outbound list \<Rightarrow> 'c raft_cluster" where
  "advance cl i n out = cl\<lparr>cl_nodes := (cl_nodes cl)(i := n), cl_net := cl_net cl \<union> set out\<rparr>"

definition initial_cluster :: "member_id list \<Rightarrow> (member_id \<Rightarrow> nat) \<Rightarrow> 'c raft_cluster \<Rightarrow> bool" where
  "initial_cluster ms timeouts cl \<longleftrightarrow>
     (\<forall>i \<in> set ms. new_raft_node i ms (timeouts i) = Ok (cl_nodes cl i)) \<and> cl_net cl = {}"

inductive cluster_step :: "member_id list \<Rightarrow> 'c raft_cluster \<Rightarrow> 'c raft_event \<Rightarrow> 'c raft_cluster \<Rightarrow> bool" for ms where
  step_tick: "i \<in> set ms \<Longrightarrow> tick (cl_nodes cl i) = Ok (n, out) \<Longrightarrow> cluster_step ms cl (Tick i) (advance cl i n out)"
| step_deliver: "ob \<in> cl_net cl \<Longrightarrow> ob_to ob \<in> set ms \<Longrightarrow> handle (cl_nodes cl (ob_to ob)) (ob_message ob) = Ok (n, out) \<Longrightarrow>
     cluster_step ms cl (Deliver ob) (advance cl (ob_to ob) n out)"
| step_propose: "i \<in> set ms \<Longrightarrow> propose (cl_nodes cl i) c = (n, at) \<Longrightarrow> cluster_step ms cl (Propose i c) (advance cl i n [])"

inductive cluster_reachable :: "member_id list \<Rightarrow> (member_id \<Rightarrow> nat) \<Rightarrow> 'c raft_cluster \<Rightarrow> bool" for ms timeouts where
  reach_initial: "initial_cluster ms timeouts cl \<Longrightarrow> cluster_reachable ms timeouts cl"
| reach_step: "cluster_reachable ms timeouts cl \<Longrightarrow> cluster_step ms cl e cl' \<Longrightarrow> cluster_reachable ms timeouts cl'"

lemma advance_advance: "advance (advance cl i n a) i m b = advance cl i m (a @ b)"
  by (simp add: advance_def Un_assoc)

section \<open>The moves of a node\<close>

text \<open>
  Every operation of a node is a short sequence of moves on the part of its state elections and logs
  depend on.
\<close>

definition node_core :: "'c raft_node \<Rightarrow>
    member_id \<times> member_id list \<times> nat \<times> member_id option \<times> 'c log_entry list \<times> raft_role \<times> member_id list" where
  "node_core n = (rn_id n, rn_members n, rn_current_term n, rn_voted_for n, rn_log n, rn_role n, rn_votes_granted n)"

fun plain_message :: "'c raft_message \<Rightarrow> bool" where
  "plain_message (RequestVoteResp _ _ granted) = (\<not> granted)"
| "plain_message (AppendEntries _ _ _ _ _ _) = False"
| "plain_message _ = True"

definition log_fragment :: "'c log_entry list \<Rightarrow> nat \<Rightarrow> nat \<Rightarrow> 'c log_entry list \<Rightarrow> bool" where
  "log_fragment L prev prev_term es \<longleftrightarrow>
     prev \<le> length L \<and> es = drop prev L \<and> (0 < prev \<longrightarrow> prev_term = le_term (L ! (prev - 1)))"

definition holds_previous :: "'c log_entry list \<Rightarrow> nat \<Rightarrow> nat \<Rightarrow> bool" where
  "holds_previous L prev prev_term \<longleftrightarrow> prev = 0 \<or> prev \<le> length L \<and> le_term (L ! (prev - 1)) = prev_term"

definition append_of :: "'c raft_node \<Rightarrow> 'c raft_message \<Rightarrow> bool" where
  "append_of n m \<longleftrightarrow> (\<exists>prev pt es commit. m = AppendEntries (rn_current_term n) (rn_id n) prev pt es commit \<and>
     log_fragment (rn_log n) prev pt es)"

inductive node_move :: "'c outbound set \<Rightarrow> 'c raft_node \<Rightarrow> 'c outbound list \<Rightarrow> 'c raft_node \<Rightarrow> bool" for net where
  move_local: "node_core m = node_core n \<Longrightarrow> \<forall>ob \<in> set out. plain_message (ob_message ob) \<Longrightarrow> node_move net n out m"
| move_beat: "node_core m = node_core n \<Longrightarrow> rn_role n = Leader \<Longrightarrow> \<forall>ob \<in> set out. append_of n (ob_message ob) \<Longrightarrow>
     node_move net n out m"
| move_down: "rn_current_term n < t \<Longrightarrow> node_move net n [] (step_down n t)"
| move_follow: "node_core m = node_core (n\<lparr>rn_role := Follower\<rparr>) \<Longrightarrow> node_move net n [] m"
| move_store: "\<lparr>ob_to = rn_id n, ob_message = AppendEntries t leader prev pt es commit\<rparr> \<in> net \<Longrightarrow>
     holds_previous (rn_log n) prev pt \<Longrightarrow> rn_role n = Follower \<Longrightarrow>
     node_core m = node_core (n\<lparr>rn_log := store_entries (rn_log n) prev es\<rparr>) \<Longrightarrow> node_move net n [] m"
| move_campaign: "node_core m = node_core (n\<lparr>rn_current_term := rn_current_term n + 1, rn_role := Candidate,
       rn_voted_for := Some (rn_id n), rn_votes_granted := [rn_id n]\<rparr>) \<Longrightarrow> node_move net n [] m"
| move_grant: "rn_voted_for n = None \<or> rn_voted_for n = Some c \<Longrightarrow> node_core m = node_core (n\<lparr>rn_voted_for := Some c\<rparr>) \<Longrightarrow>
     node_move net n [\<lparr>ob_to = c, ob_message = RequestVoteResp (rn_current_term n) (rn_id n) True\<rparr>] m"
| move_count: "\<lparr>ob_to = rn_id n, ob_message = RequestVoteResp (rn_current_term n) v True\<rparr> \<in> net \<Longrightarrow>
     rn_role n = Candidate \<Longrightarrow> v \<notin> set (rn_votes_granted n) \<Longrightarrow>
     node_core m = node_core (n\<lparr>rn_votes_granted := rn_votes_granted n @ [v]\<rparr>) \<Longrightarrow> node_move net n [] m"
| move_win: "rn_role n = Candidate \<Longrightarrow> raft_quorum n \<le> length (rn_votes_granted n) \<Longrightarrow>
     node_core m = node_core (n\<lparr>rn_role := Leader\<rparr>) \<Longrightarrow> node_move net n [] m"
| move_extend: "rn_role n = Leader \<Longrightarrow>
     node_core m = node_core (n\<lparr>rn_log := rn_log n @ [\<lparr>le_term = rn_current_term n, le_command = c\<rparr>]\<rparr>) \<Longrightarrow>
     node_move net n [] m"

inductive node_moves :: "'c outbound set \<Rightarrow> 'c raft_node \<Rightarrow> 'c outbound list \<Rightarrow> 'c raft_node \<Rightarrow> bool" where
  moves_one: "node_move net n out m \<Longrightarrow> node_moves net n out m"
| moves_more: "node_moves net n a k \<Longrightarrow> node_move net k b m \<Longrightarrow> node_moves net n (a @ b) m"

lemma moves_then: "node_moves net n [] k \<Longrightarrow> node_move net k b m \<Longrightarrow> node_moves net n b m"
  using moves_more [of net n "[]" k b m] by simp

section \<open>Operations as moves\<close>

lemma advance_commit_core: "node_core (advance_commit n) = node_core n"
  by (simp add: advance_commit_def node_core_def)

lemma append_for_append: "append_for n p = Ok ob \<Longrightarrow> append_of n (ob_message ob)"
  by (auto simp: append_for_def append_of_def log_fragment_def Let_def index_def outcome_simps split: if_splits)

lemma broadcast_appends: "broadcast_append n = Ok out \<Longrightarrow> \<forall>ob \<in> set out. append_of n (ob_message ob)"
  by (fastforce simp: broadcast_append_def try_map_Ok_iff list_all2_conv_all_nth in_set_conv_nth dest!: append_for_append)

lemma moves_append: "node_moves net k b m \<Longrightarrow> node_moves net n a k \<Longrightarrow> node_moves net n (a @ b) m"
proof (induction net k b m arbitrary: n a rule: node_moves.induct)
  case (moves_one net n' out m)
  then show ?case by (blast intro: node_moves.moves_more)
next
  case (moves_more net n' a' k b m)
  then show ?case using node_moves.moves_more [of net n "a @ a'" k b m] by simp
qed

lemma moves_after: "node_move net n [] k \<Longrightarrow> node_moves net k b m \<Longrightarrow> node_moves net n b m"
  using moves_append [of net k b m n "[]"] node_moves.moves_one [of net n "[]" k] by simp

lemma lead_moves:
  assumes "lead n = Ok (m, out)" and "rn_role n = Candidate" and "raft_quorum n \<le> length (rn_votes_granted n)"
  shows "node_moves net n out m"
proof -
  have win: "node_move net n [] m" and "broadcast_append m = Ok out" and "rn_role m = Leader"
    using assms by (auto simp: lead_def become_leader_def outcome_simps node_core_def intro!: node_move.move_win)
  then have "node_move net m out m" using broadcast_appends by (blast intro: node_move.move_beat)
  then show ?thesis using win by (blast intro: moves_after node_moves.moves_one)
qed

lemma campaign_moves: "begin_election n = Ok (m, out) \<Longrightarrow> node_moves net n out m"
proof -
  assume e: "begin_election n = Ok (m, out)"
  define c where "c = n\<lparr>rn_current_term := rn_current_term n + 1, rn_role := Candidate, rn_voted_for := Some (rn_id n),
    rn_votes_granted := [rn_id n], rn_leader_hint := None, rn_ticks_since_heard := 0\<rparr>"
  have campaign: "node_move net n [] c" by (rule node_move.move_campaign) (simp add: c_def node_core_def)
  have "node_moves net c out m"
  proof (cases "raft_quorum c \<le> length (rn_votes_granted c)")
    case True
    then have "lead c = Ok (m, out)"
      using e by (auto simp: begin_election_def u64_succ_def outcome_simps c_def Let_def split: if_splits)
    then show ?thesis using True by (intro lead_moves) (auto simp: c_def)
  next
    case False
    then have "m = c" and "\<forall>ob \<in> set out. plain_message (ob_message ob)"
      using e by (auto simp: begin_election_def u64_succ_def outcome_simps c_def Let_def split: if_splits)
    then show ?thesis by (intro node_moves.moves_one node_move.move_local) auto
  qed
  then show ?thesis using campaign by (rule moves_after [rotated])
qed

lemma local_moves: "node_core m = node_core n \<Longrightarrow> \<forall>ob \<in> set out. plain_message (ob_message ob) \<Longrightarrow> node_moves net n out m"
  by (intro node_moves.moves_one node_move.move_local)

lemma tick_moves:
  assumes "tick n = Ok (m, out)"
  shows "node_moves net n out m"
proof (cases "rn_role n = Leader")
  case True
  then have "m = n" and "broadcast_append n = Ok out" using assms by (auto simp: tick_def outcome_simps)
  then show ?thesis using True broadcast_appends by (blast intro: node_moves.moves_one node_move.move_beat)
next
  case False
  define k where "k = n\<lparr>rn_ticks_since_heard := rn_ticks_since_heard n + 1\<rparr>"
  have "node_move net n [] k" by (rule node_move.move_local) (auto simp: k_def node_core_def)
  moreover have "begin_election k = Ok (m, out) \<or> m = k \<and> out = []"
    using assms False by (auto simp: tick_def u64_succ_def outcome_simps Let_def k_def split: if_splits)
  ultimately show ?thesis by (auto intro: moves_after campaign_moves node_moves.moves_one)
qed

lemma propose_moves:
  assumes "propose n c = (m, at)"
  shows "node_moves net n [] m"
proof (cases "rn_role n = Leader")
  case True
  then have "node_core m = node_core (n\<lparr>rn_log := rn_log n @ [\<lparr>le_term = rn_current_term n, le_command = c\<rparr>]\<rparr>)"
    using assms by (auto simp: propose_def Let_def advance_commit_core)
  then show ?thesis using True by (blast intro: node_moves.moves_one node_move.move_extend)
next
  case False
  then show ?thesis using assms by (intro local_moves) (auto simp: propose_def)
qed

lemma request_vote_moves:
  assumes "on_request_vote n t c li lt = (m, out)" and "t \<le> rn_current_term n"
  shows "node_moves net n out m"
proof (cases "\<exists>ob \<in> set out. \<not> plain_message (ob_message ob)")
  case True
  then have "rn_voted_for n = None \<or> rn_voted_for n = Some c" and "node_core m = node_core (n\<lparr>rn_voted_for := Some c\<rparr>)"
    and "out = [\<lparr>ob_to = c, ob_message = RequestVoteResp (rn_current_term n) (rn_id n) True\<rparr>]"
    using assms by (auto simp: on_request_vote_def Let_def node_core_def split: option.splits if_splits)
  then show ?thesis using node_move.move_grant by (blast intro: node_moves.moves_one)
next
  case False
  then have "m = n" using assms by (auto simp: on_request_vote_def Let_def split: if_splits)
  then show ?thesis using False by (intro local_moves) auto
qed

lemma vote_response_moves:
  assumes "on_vote_response n t v g = Ok (m, out)" and "\<lparr>ob_to = rn_id n, ob_message = RequestVoteResp t v g\<rparr> \<in> net"
  shows "node_moves net n out m"
proof (cases "rn_role n \<noteq> Candidate \<or> t \<noteq> rn_current_term n \<or> \<not> g")
  case True
  then show ?thesis using assms by (intro local_moves) (auto simp: on_vote_response_def)
next
  case False
  define k where "k = (if v \<in> set (rn_votes_granted n) then n else n\<lparr>rn_votes_granted := rn_votes_granted n @ [v]\<rparr>)"
  have "node_move net n [] k"
  proof (cases "v \<in> set (rn_votes_granted n)")
    case True
    then show ?thesis by (simp add: k_def node_move.move_local)
  next
    case new: False
    then show ?thesis using False assms(2) by (intro node_move.move_count [of _ v]) (auto simp: k_def)
  qed
  moreover have "node_moves net k out m"
  proof (cases "raft_quorum k \<le> length (rn_votes_granted k)")
    case True
    have "rn_role k = Candidate" using False by (simp add: k_def)
    moreover have "lead k = Ok (m, out)" using True False assms(1) by (auto simp: on_vote_response_def k_def Let_def)
    ultimately show ?thesis using True by (intro lead_moves)
  next
    case no: False
    then have "m = k \<and> out = []" using False assms(1) by (auto simp: on_vote_response_def k_def Let_def split: if_splits)
    then show ?thesis by (intro local_moves) auto
  qed
  ultimately show ?thesis by (rule moves_after)
qed

lemma append_reply_plain: "ob \<in> set (append_reply n l k b) \<Longrightarrow> plain_message (ob_message ob)"
  by (simp add: append_reply_def)

lemma append_entries_moves:
  assumes "on_append_entries n t l prev pt es commit = (m, out)"
    and "\<lparr>ob_to = rn_id n, ob_message = AppendEntries t l prev pt es commit\<rparr> \<in> net"
  shows "node_moves net n out m"
proof (cases "t < rn_current_term n")
  case True
  then show ?thesis using assms by (intro local_moves) (auto simp: on_append_entries_def append_reply_plain)
next
  case False
  define k where "k = n\<lparr>rn_role := Follower, rn_leader_hint := Some l, rn_ticks_since_heard := 0\<rparr>"
  have follow: "node_move net n [] k" by (rule node_move.move_follow) (simp add: k_def node_core_def)
  have plain: "\<forall>ob \<in> set out. plain_message (ob_message ob)"
    using assms(1) False by (auto simp: on_append_entries_def Let_def append_reply_plain split: if_splits)
  have "node_moves net k out m"
  proof (cases "holds_previous (rn_log k) prev pt")
    case False
    then have "m = k"
      using assms(1) \<open>\<not> t < rn_current_term n\<close>
      by (auto simp: on_append_entries_def holds_previous_def last_log_index_def k_def Let_def split: if_splits)
    then show ?thesis using plain by (intro local_moves) auto
  next
    case True
    define s where "s = k\<lparr>rn_log := store_entries (rn_log k) prev es\<rparr>"
    have "node_move net k [] s"
      by (rule node_move.move_store [of _ t l prev pt es commit]) (use assms(2) True in \<open>auto simp: k_def s_def\<close>)
    moreover have "node_core m = node_core s"
      using assms(1) \<open>\<not> t < rn_current_term n\<close> True
      by (auto simp: on_append_entries_def holds_previous_def last_log_index_def k_def s_def node_core_def Let_def split: if_splits)
    then have "node_moves net s out m" using plain by (rule local_moves)
    ultimately show ?thesis by (rule moves_after)
  qed
  then show ?thesis by (rule moves_after [OF follow])
qed

lemma append_response_moves: "on_append_response n t v k b = Ok (m, out) \<Longrightarrow> node_moves net n out m"
  by (rule local_moves)
    (auto simp: on_append_response_def u64_succ_def outcome_simps Let_def advance_commit_core node_core_def advance_commit_def split: if_splits)

lemma react_moves:
  assumes "react n m = Ok (n', out)" and "\<lparr>ob_to = rn_id n, ob_message = m\<rparr> \<in> net" and "message_term m \<le> rn_current_term n"
  shows "node_moves net n out n'"
  using assms
  by (cases m) (auto intro: request_vote_moves vote_response_moves append_entries_moves append_response_moves)

lemma handle_moves:
  assumes "handle n m = Ok (n', out)" and "\<lparr>ob_to = rn_id n, ob_message = m\<rparr> \<in> net"
  shows "node_moves net n out n'"
proof (cases "rn_current_term n < message_term m")
  case True
  let ?k = "step_down n (message_term m)"
  have "node_moves net ?k out n'" by (rule react_moves) (use assms True in \<open>auto simp: handle_def step_down_def\<close>)
  then show ?thesis using True by (blast intro: moves_after node_move.move_down)
next
  case False
  then show ?thesis using assms by (intro react_moves) (auto simp: handle_def)
qed

section \<open>Votes\<close>

text \<open>
  The history of votes \<open>V\<close> holds a triple of term, voter and candidate for every vote a node ever
  held. A voter votes once in a term.
\<close>

type_synonym vote_history = "(nat \<times> member_id \<times> member_id) set"

definition granted_vote :: "member_id \<Rightarrow> nat \<Rightarrow> member_id \<Rightarrow> 'c outbound" where
  "granted_vote c t v = \<lparr>ob_to = c, ob_message = RequestVoteResp t v True\<rparr>"

definition members_ok :: "member_id list \<Rightarrow> (member_id \<Rightarrow> 'c raft_node) \<Rightarrow> bool" where
  "members_ok ms nodes \<longleftrightarrow> (\<forall>i \<in> set ms. rn_id (nodes i) = i \<and> rn_members (nodes i) = ms)"

definition votes_ok :: "member_id list \<Rightarrow> (member_id \<Rightarrow> 'c raft_node) \<Rightarrow> 'c outbound set \<Rightarrow> vote_history \<Rightarrow> bool" where
  "votes_ok ms nodes net V \<longleftrightarrow>
     (\<forall>t v c d. (t, v, c) \<in> V \<longrightarrow> (t, v, d) \<in> V \<longrightarrow> c = d) \<and>
     (\<forall>t v c. (t, v, c) \<in> V \<longrightarrow> v \<in> set ms \<and> t \<le> rn_current_term (nodes v) \<and>
        (t = rn_current_term (nodes v) \<longrightarrow> rn_voted_for (nodes v) = Some c)) \<and>
     (\<forall>i \<in> set ms. \<forall>c. rn_voted_for (nodes i) = Some c \<longrightarrow> (rn_current_term (nodes i), i, c) \<in> V) \<and>
     (\<forall>t v c. granted_vote c t v \<in> net \<longrightarrow> (t, v, c) \<in> V) \<and>
     (\<forall>i \<in> set ms. rn_role (nodes i) \<noteq> Follower \<longrightarrow> distinct (rn_votes_granted (nodes i)) \<and>
        (\<forall>v \<in> set (rn_votes_granted (nodes i)). (rn_current_term (nodes i), v, i) \<in> V))"

definition add_vote :: "vote_history \<Rightarrow> member_id \<Rightarrow> 'c raft_node \<Rightarrow> vote_history" where
  "add_vote V i m = V \<union> {(rn_current_term m, i, c) |c. rn_voted_for m = Some c}"

lemma node_move_frame:
  assumes "node_move net n out m"
  shows "rn_id m = rn_id n \<and> rn_members m = rn_members n \<and> rn_current_term n \<le> rn_current_term m"
  using assms by cases (auto simp: node_core_def step_down_def)

lemma members_ok_move:
  assumes "members_ok ms nodes" and "node_move net (nodes i) out m"
  shows "members_ok ms (nodes(i := m))"
  using assms node_move_frame [OF assms(2)] by (auto simp: members_ok_def)

text \<open>What a move does to the vote of a node, and which votes it sends.\<close>

lemma node_move_vote:
  assumes "node_move net n out m" and "rn_voted_for n = Some c" and "rn_current_term m = rn_current_term n"
  shows "rn_voted_for m = Some c"
  using assms by cases (auto simp: node_core_def step_down_def)

lemma node_move_sends_vote:
  assumes "node_move net n out m" and "granted_vote c t v \<in> set out"
  shows "t = rn_current_term m \<and> v = rn_id n \<and> rn_voted_for m = Some c"
  using assms by cases (fastforce simp: node_core_def granted_vote_def append_of_def)+

lemma node_move_counts:
  assumes "node_move net n out m" and "rn_role m \<noteq> Follower" and "v \<in> set (rn_votes_granted m)"
  shows "rn_role n \<noteq> Follower \<and> rn_current_term m = rn_current_term n \<and>
           (v \<in> set (rn_votes_granted n) \<or> granted_vote (rn_id n) (rn_current_term n) v \<in> net) \<or>
         v = rn_id n \<and> rn_voted_for m = Some (rn_id n)"
  using assms by cases (auto simp: node_core_def step_down_def granted_vote_def)

lemma node_move_distinct:
  assumes "node_move net n out m" and "rn_role m \<noteq> Follower" and "rn_role n \<noteq> Follower \<Longrightarrow> distinct (rn_votes_granted n)"
  shows "distinct (rn_votes_granted m)"
  using assms by cases (auto simp: node_core_def step_down_def)

lemma votes_ok_move:
  assumes ok: "votes_ok ms nodes net V" and ms: "members_ok ms nodes" and i: "i \<in> set ms"
    and move: "node_move net (nodes i) out m"
  shows "votes_ok ms (nodes(i := m)) (net \<union> set out) (add_vote V i m)"
proof -
  have id: "rn_id (nodes i) = i" using ms i by (simp add: members_ok_def)
  have le: "rn_current_term (nodes i) \<le> rn_current_term m" using node_move_frame [OF move] by simp
  have once: "c = d" if "(t, v, c) \<in> V" "(t, v, d) \<in> V" for t v c d using ok that unfolding votes_ok_def by blast
  have past: "v \<in> set ms \<and> t \<le> rn_current_term (nodes v) \<and> (t = rn_current_term (nodes v) \<longrightarrow> rn_voted_for (nodes v) = Some c)"
    if "(t, v, c) \<in> V" for t v c using ok that unfolding votes_ok_def by blast
  have new: "rn_voted_for m = Some c" if "(rn_current_term m, i, c) \<in> V" for c
    using past [OF that] le node_move_vote [OF move] by auto
  show ?thesis unfolding votes_ok_def
  proof (intro conjI ballI allI impI)
    fix t v c d
    assume "(t, v, c) \<in> add_vote V i m" and "(t, v, d) \<in> add_vote V i m"
    then show "c = d" using once new by (fastforce simp: add_vote_def)
  next
    fix t v c
    assume a: "(t, v, c) \<in> add_vote V i m"
    show "v \<in> set ms" using a past i by (auto simp: add_vote_def)
    show "t \<le> rn_current_term ((nodes(i := m)) v)" using a past le by (fastforce simp: add_vote_def)
    assume "t = rn_current_term ((nodes(i := m)) v)"
    then show "rn_voted_for ((nodes(i := m)) v) = Some c" using a past new by (auto simp: add_vote_def split: if_splits)
  next
    fix j c
    assume "j \<in> set ms" and "rn_voted_for ((nodes(i := m)) j) = Some c"
    then show "(rn_current_term ((nodes(i := m)) j), j, c) \<in> add_vote V i m"
      using ok by (auto simp: add_vote_def votes_ok_def split: if_splits)
  next
    fix t v c
    assume "granted_vote c t v \<in> net \<union> set out"
    then show "(t, v, c) \<in> add_vote V i m"
      using ok node_move_sends_vote [OF move, of c t v] id by (auto simp: add_vote_def votes_ok_def)
  next
    fix j
    assume "j \<in> set ms" and "rn_role ((nodes(i := m)) j) \<noteq> Follower"
    then show "distinct (rn_votes_granted ((nodes(i := m)) j))"
      using ok node_move_distinct [OF move] i by (auto simp: votes_ok_def split: if_splits)
  next
    fix j v
    assume j: "j \<in> set ms" "rn_role ((nodes(i := m)) j) \<noteq> Follower" "v \<in> set (rn_votes_granted ((nodes(i := m)) j))"
    show "(rn_current_term ((nodes(i := m)) j), v, j) \<in> add_vote V i m"
    proof (cases "j = i")
      case True
      then show ?thesis using j ok node_move_counts [OF move, of v] id i by (auto simp: add_vote_def votes_ok_def)
    next
      case False
      then show ?thesis using j ok by (auto simp: add_vote_def votes_ok_def)
    qed
  qed
qed

section \<open>Leaders\<close>

text \<open>The history of leaders \<open>E\<close> holds the term and the name of every node that ever led.\<close>

definition elected :: "member_id list \<Rightarrow> vote_history \<Rightarrow> nat \<Rightarrow> member_id \<Rightarrow> bool" where
  "elected ms V t i \<longleftrightarrow> (\<exists>Q \<subseteq> set ms. length ms div 2 + 1 \<le> card Q \<and> (\<forall>v \<in> Q. (t, v, i) \<in> V))"

definition leaders_ok ::
    "member_id list \<Rightarrow> (member_id \<Rightarrow> 'c raft_node) \<Rightarrow> 'c outbound set \<Rightarrow> vote_history \<Rightarrow> (nat \<times> member_id) set \<Rightarrow> bool" where
  "leaders_ok ms nodes net V E \<longleftrightarrow>
     (\<forall>i \<in> set ms. rn_role (nodes i) = Leader \<longrightarrow> (rn_current_term (nodes i), i) \<in> E) \<and>
     (\<forall>t i. (t, i) \<in> E \<longrightarrow> i \<in> set ms \<and> elected ms V t i \<and> t \<le> rn_current_term (nodes i) \<and>
        (t = rn_current_term (nodes i) \<longrightarrow> rn_role (nodes i) \<noteq> Candidate)) \<and>
     (\<forall>c t l prev pt es commit. \<lparr>ob_to = c, ob_message = AppendEntries t l prev pt es commit\<rparr> \<in> net \<longrightarrow> (t, l) \<in> E)"

definition add_leader :: "(nat \<times> member_id) set \<Rightarrow> member_id \<Rightarrow> 'c raft_node \<Rightarrow> (nat \<times> member_id) set" where
  "add_leader E i m = E \<union> {(t, j). rn_role m = Leader \<and> t = rn_current_term m \<and> j = i}"

text \<open>Two majorities of the declared members share a member.\<close>

lemma majorities_meet:
  assumes "Q \<subseteq> set ms" and "R \<subseteq> set ms" and "length ms div 2 + 1 \<le> card Q" and "length ms div 2 + 1 \<le> card R"
  shows "Q \<inter> R \<noteq> {}"
proof
  assume "Q \<inter> R = {}"
  then have "card Q + card R = card (Q \<union> R)" using assms(1,2) by (simp add: card_Un_disjoint finite_subset)
  also have "\<dots> \<le> card (set ms)" using assms(1,2) by (intro card_mono) auto
  also have "\<dots> \<le> length ms" by (rule card_length)
  finally show False using assms(3,4) by linarith
qed

lemma elected_unique:
  assumes "votes_ok ms nodes net V" and "elected ms V t i" and "elected ms V t j"
  shows "i = j"
proof -
  obtain Q R where q: "Q \<subseteq> set ms" "length ms div 2 + 1 \<le> card Q" "\<forall>v \<in> Q. (t, v, i) \<in> V"
    and r: "R \<subseteq> set ms" "length ms div 2 + 1 \<le> card R" "\<forall>v \<in> R. (t, v, j) \<in> V"
    using assms(2,3) by (auto simp: elected_def)
  obtain v where "v \<in> Q" "v \<in> R" using majorities_meet [OF q(1) r(1) q(2) r(2)] by auto
  then have "(t, v, i) \<in> V" and "(t, v, j) \<in> V" using q r by auto
  then show ?thesis using assms(1) unfolding votes_ok_def by blast
qed

lemma elected_mono: "elected ms V t i \<Longrightarrow> V \<subseteq> W \<Longrightarrow> elected ms W t i"
  unfolding elected_def by blast

lemma node_move_leads:
  assumes "node_move net n out m" and "rn_role m = Leader"
  shows "rn_current_term m = rn_current_term n \<and>
    (rn_role n = Leader \<or> rn_role n = Candidate \<and> raft_quorum n \<le> length (rn_votes_granted n))"
  using assms by cases (auto simp: node_core_def step_down_def)

lemma node_move_candidate:
  assumes "node_move net n out m" and "rn_role m = Candidate" and "rn_current_term m = rn_current_term n"
  shows "rn_role n = Candidate"
  using assms by cases (auto simp: node_core_def step_down_def)

lemma node_move_sends_append:
  assumes "node_move net n out m" and "\<lparr>ob_to = c, ob_message = AppendEntries t l prev pt es commit\<rparr> \<in> set out"
  shows "rn_role n = Leader \<and> t = rn_current_term n \<and> l = rn_id n \<and> log_fragment (rn_log n) prev pt es"
  using assms by cases (fastforce simp: node_core_def append_of_def)+

lemma candidate_elected:
  assumes "votes_ok ms nodes net V" and "members_ok ms nodes" and "i \<in> set ms"
    and "rn_role (nodes i) = Candidate" and "raft_quorum (nodes i) \<le> length (rn_votes_granted (nodes i))"
  shows "elected ms V (rn_current_term (nodes i)) i"
proof -
  have d: "distinct (rn_votes_granted (nodes i))"
    and v: "\<forall>v \<in> set (rn_votes_granted (nodes i)). (rn_current_term (nodes i), v, i) \<in> V"
    using assms(1,3,4) by (auto simp: votes_ok_def)
  have "set (rn_votes_granted (nodes i)) \<subseteq> set ms" using v assms(1) by (auto simp: votes_ok_def)
  moreover have "length ms div 2 + 1 \<le> card (set (rn_votes_granted (nodes i)))"
    using assms(2,3,5) d by (simp add: distinct_card raft_quorum_def members_ok_def)
  ultimately show ?thesis using v unfolding elected_def by blast
qed

lemma leaders_okD:
  assumes "leaders_ok ms nodes net V E"
  shows "i \<in> set ms \<Longrightarrow> rn_role (nodes i) = Leader \<Longrightarrow> (rn_current_term (nodes i), i) \<in> E"
    and "(t, i) \<in> E \<Longrightarrow> i \<in> set ms"
    and "(t, i) \<in> E \<Longrightarrow> elected ms V t i"
    and "(t, i) \<in> E \<Longrightarrow> t \<le> rn_current_term (nodes i)"
    and "(t, i) \<in> E \<Longrightarrow> t = rn_current_term (nodes i) \<Longrightarrow> rn_role (nodes i) \<noteq> Candidate"
    and "\<lparr>ob_to = c, ob_message = AppendEntries t l prev pt es commit\<rparr> \<in> net \<Longrightarrow> (t, l) \<in> E"
  using assms unfolding leaders_ok_def by blast+

lemma add_vote_mono: "V \<subseteq> add_vote V i m"
  by (simp add: add_vote_def)

lemma new_leader_elected:
  assumes ok: "leaders_ok ms nodes net V E" and votes: "votes_ok ms nodes net V" and ms: "members_ok ms nodes"
    and i: "i \<in> set ms" and move: "node_move net (nodes i) out m" and leader: "rn_role m = Leader"
  shows "elected ms V (rn_current_term m) i"
proof (cases "rn_role (nodes i) = Leader")
  case True
  then show ?thesis using node_move_leads [OF move leader] leaders_okD(1,3) [OF ok] i by auto
next
  case False
  then show ?thesis using node_move_leads [OF move leader] candidate_elected [OF votes ms i] by auto
qed

lemma leaders_ok_move:
  assumes ok: "leaders_ok ms nodes net V E" and votes: "votes_ok ms nodes net V" and ms: "members_ok ms nodes"
    and i: "i \<in> set ms" and move: "node_move net (nodes i) out m"
  shows "leaders_ok ms (nodes(i := m)) (net \<union> set out) (add_vote V i m) (add_leader E i m)"
proof -
  have le: "rn_current_term (nodes i) \<le> rn_current_term m" using node_move_frame [OF move] by simp
  show ?thesis unfolding leaders_ok_def
  proof (intro conjI ballI allI impI)
    fix j assume "j \<in> set ms" and "rn_role ((nodes(i := m)) j) = Leader"
    then show "(rn_current_term ((nodes(i := m)) j), j) \<in> add_leader E i m"
      using leaders_okD(1) [OF ok, of j] by (auto simp: add_leader_def split: if_splits)
  next
    fix t j assume a: "(t, j) \<in> add_leader E i m"
    show "j \<in> set ms" using a leaders_okD(2) [OF ok] i by (auto simp: add_leader_def)
    show "elected ms (add_vote V i m) t j"
    proof (cases "(t, j) \<in> E")
      case True
      then show ?thesis using elected_mono [OF leaders_okD(3) [OF ok] add_vote_mono] by blast
    next
      case False
      then show ?thesis
        using a elected_mono [OF new_leader_elected [OF ok votes ms i move] add_vote_mono] by (simp add: add_leader_def)
    qed
    show "t \<le> rn_current_term ((nodes(i := m)) j)"
      using a leaders_okD(4) [OF ok, of t j] le by (auto simp: add_leader_def)
    assume t: "t = rn_current_term ((nodes(i := m)) j)"
    show "rn_role ((nodes(i := m)) j) \<noteq> Candidate"
    proof (cases "(t, j) \<in> E")
      case True
      then show ?thesis
        using t le leaders_okD(4,5) [OF ok True] node_move_candidate [OF move] by (auto split: if_splits)
    next
      case False
      then show ?thesis using a t by (simp add: add_leader_def)
    qed
  next
    fix c t l prev pt es commit
    assume "\<lparr>ob_to = c, ob_message = AppendEntries t l prev pt es commit\<rparr> \<in> net \<union> set out"
    then have "(t, l) \<in> E"
    proof
      assume "\<lparr>ob_to = c, ob_message = AppendEntries t l prev pt es commit\<rparr> \<in> net"
      then show ?thesis by (rule leaders_okD(6) [OF ok])
    next
      assume "\<lparr>ob_to = c, ob_message = AppendEntries t l prev pt es commit\<rparr> \<in> set out"
      from node_move_sends_append [OF move this] show ?thesis
        using leaders_okD(1) [OF ok i] ms i by (simp add: members_ok_def)
    qed
    then show "(t, l) \<in> add_leader E i m" by (simp add: add_leader_def)
  qed
qed

section \<open>Logs\<close>

definition logs_match :: "'c log_entry list \<Rightarrow> 'c log_entry list \<Rightarrow> bool" where
  "logs_match K L \<longleftrightarrow> (\<forall>k < length K. k < length L \<longrightarrow> le_term (K ! k) = le_term (L ! k) \<longrightarrow> take (k + 1) K = take (k + 1) L)"

lemma logs_match_prefix: "logs_match (take p L) L"
  by (simp add: logs_match_def)

lemma logs_match_sym: "logs_match K L \<Longrightarrow> logs_match L K"
  by (simp add: logs_match_def)

text \<open>
  Storing a fragment of a matching log either leaves the log as it is, because it already extends the
  leader's, or makes it the leader's.
\<close>

lemma store_entries_Cons: "store_entries K prev (e # es) = store_entries (store_entry K (prev, e)) (prev + 1) es"
  by (simp add: store_entries_def upt_conv_Cons del: upt_Suc)

lemma store_fragment:
  assumes "prev \<le> length L" and "prev \<le> length K" and "take prev K = take prev L" and "logs_match K L"
  shows "store_entries K prev (drop prev L) = K \<and> take (length L) K = L \<or> store_entries K prev (drop prev L) = L"
  using assms
proof (induction "length L - prev" arbitrary: prev K)
  case 0
  then show ?case by (simp add: store_entries_def)
next
  case (Suc d)
  have p: "prev < length L" using Suc.hyps(2) by simp
  have unfold: "store_entries K prev (drop prev L) = store_entries (store_entry K (prev, L ! prev)) (prev + 1) (drop (prev + 1) L)"
    for K :: "'a log_entry list"
    using p by (simp add: store_entries_Cons flip: Cons_nth_drop_Suc)
  have d: "d = length L - (prev + 1)" using Suc.hyps(2) by simp
  show ?case
  proof (cases "prev < length K \<and> le_term (K ! prev) = le_term (L ! prev)")
    case True
    then have "take (prev + 1) K = take (prev + 1) L" using Suc.prems(4) p by (simp add: logs_match_def)
    moreover have "store_entry K (prev, L ! prev) = K" using True by (simp add: store_entry_def)
    ultimately show ?thesis unfolding unfold using Suc.hyps(1) [OF d] True p Suc.prems(4) by simp
  next
    case False
    then have "store_entry K (prev, L ! prev) = take (prev + 1) L"
      using Suc.prems p by (auto simp: store_entry_def take_Suc_conv_app_nth)
    moreover have "prev + 1 \<le> length (take (prev + 1) L)" using p by simp
    then have "store_entries (take (prev + 1) L) (prev + 1) (drop (prev + 1) L) = L"
      using Suc.hyps(1) [OF d _ _ _ logs_match_prefix] p by (fastforce dest: arg_cong [of _ _ length])
    ultimately show ?thesis unfolding unfold by simp
  qed
qed

definition logs_ok ::
    "member_id list \<Rightarrow> (member_id \<Rightarrow> 'c raft_node) \<Rightarrow> 'c outbound set \<Rightarrow> (nat \<times> member_id) set \<Rightarrow>
     'c log_entry list set \<Rightarrow> bool" where
  "logs_ok ms nodes net E H \<longleftrightarrow>
     (\<forall>i \<in> set ms. rn_log (nodes i) \<in> H) \<and>
     (\<forall>K \<in> H. \<forall>L \<in> H. logs_match K L) \<and>
     (\<forall>L \<in> H. \<forall>k < length L. \<exists>l. (le_term (L ! k), l) \<in> E) \<and>
     (\<forall>i \<in> set ms. rn_role (nodes i) = Leader \<longrightarrow>
        (\<forall>L \<in> H. \<forall>k < length L. le_term (L ! k) = rn_current_term (nodes i) \<longrightarrow> k < length (rn_log (nodes i)) \<and>
           le_term (rn_log (nodes i) ! k) = rn_current_term (nodes i))) \<and>
     (\<forall>c t l prev pt es commit. \<lparr>ob_to = c, ob_message = AppendEntries t l prev pt es commit\<rparr> \<in> net \<longrightarrow>
        (\<exists>L \<in> H. log_fragment L prev pt es))"

lemma logs_okD:
  assumes "logs_ok ms nodes net E H"
  shows "i \<in> set ms \<Longrightarrow> rn_log (nodes i) \<in> H"
    and "K \<in> H \<Longrightarrow> L \<in> H \<Longrightarrow> logs_match K L"
    and "L \<in> H \<Longrightarrow> k < length L \<Longrightarrow> \<exists>l. (le_term (L ! k), l) \<in> E"
    and "i \<in> set ms \<Longrightarrow> rn_role (nodes i) = Leader \<Longrightarrow> L \<in> H \<Longrightarrow> k < length L \<Longrightarrow>
      le_term (L ! k) = rn_current_term (nodes i) \<Longrightarrow> k < length (rn_log (nodes i)) \<and>
        le_term (rn_log (nodes i) ! k) = rn_current_term (nodes i)"
    and "\<lparr>ob_to = c, ob_message = AppendEntries t l prev pt es commit\<rparr> \<in> net \<Longrightarrow> \<exists>L \<in> H. log_fragment L prev pt es"
  using assms unfolding logs_ok_def by blast+

lemma store_in_history:
  assumes ok: "logs_ok ms nodes net E H" and K: "K \<in> H" and held: "holds_previous K prev pt"
    and msg: "\<lparr>ob_to = c, ob_message = AppendEntries t l prev pt es commit\<rparr> \<in> net"
  shows "store_entries K prev es \<in> H"
proof -
  obtain L where L: "L \<in> H" and f: "prev \<le> length L" "es = drop prev L" "0 < prev \<longrightarrow> pt = le_term (L ! (prev - 1))"
    using logs_okD(5) [OF ok msg] by (auto simp: log_fragment_def)
  have m: "logs_match K L" by (rule logs_okD(2) [OF ok K L])
  have "prev \<le> length K" using held by (auto simp: holds_previous_def)
  moreover have "take prev K = take prev L"
  proof (cases "prev = 0")
    case False
    then have "prev - 1 < length K" "prev - 1 < length L" "le_term (K ! (prev - 1)) = le_term (L ! (prev - 1))"
      using held f by (auto simp: holds_previous_def)
    then have "take (prev - 1 + 1) K = take (prev - 1 + 1) L" using m unfolding logs_match_def by blast
    then show ?thesis using False by simp
  qed simp
  ultimately have "store_entries K prev es = K \<or> store_entries K prev es = L"
    using store_fragment [OF f(1) _ _ m] f(2) by blast
  then show ?thesis using K L by auto
qed

text \<open>The log of a node after a move is in the history, or its leader just extended it.\<close>

definition extended_log :: "'c raft_node \<Rightarrow> 'c raft_node \<Rightarrow> bool" where
  "extended_log n m \<longleftrightarrow> rn_role n = Leader \<and> rn_role m = Leader \<and> rn_current_term m = rn_current_term n \<and>
     (\<exists>e. rn_log m = rn_log n @ [e] \<and> le_term e = rn_current_term n)"

lemma node_move_log:
  assumes "logs_ok ms nodes net E H" and "i \<in> set ms" and "node_move net (nodes i) out m"
  shows "rn_log m \<in> H \<and> (rn_role m = Leader \<longrightarrow> rn_log m = rn_log (nodes i)) \<or> extended_log (nodes i) m"
  using assms(3) logs_okD(1) [OF assms(1,2)]
  by cases (auto simp: node_core_def step_down_def extended_log_def intro: store_in_history [OF assms(1)])

lemma logs_ok_grow:
  assumes ok: "logs_ok ms nodes net E H" and leader: "i \<in> set ms" "rn_role (nodes i) = Leader"
    and ext: "extended_log (nodes i) m"
  shows "K \<in> insert (rn_log m) H \<Longrightarrow> L \<in> insert (rn_log m) H \<Longrightarrow> logs_match K L"
proof -
  obtain e where e: "rn_log m = rn_log (nodes i) @ [e]" "le_term e = rn_current_term (nodes i)"
    using ext by (auto simp: extended_log_def)
  have new: "logs_match (rn_log m) L" if "L \<in> H" for L
    unfolding logs_match_def
  proof (intro allI impI)
    fix k
    assume k: "k < length (rn_log m)" "k < length L" "le_term (rn_log m ! k) = le_term (L ! k)"
    have old: "k < length (rn_log (nodes i))"
      using k e logs_okD(4) [OF ok leader that k(2)] by (fastforce simp: nth_append split: if_splits)
    then have "le_term (rn_log (nodes i) ! k) = le_term (L ! k)" using k(3) e by (simp add: nth_append)
    then have "take (k + 1) (rn_log (nodes i)) = take (k + 1) L"
      using logs_okD(2) [OF ok logs_okD(1) [OF ok leader(1)] that] old k(2) unfolding logs_match_def by blast
    then show "take (k + 1) (rn_log m) = take (k + 1) L" using e old by simp
  qed
  have self: "logs_match (rn_log m) (rn_log m)" by (simp add: logs_match_def)
  assume "K \<in> insert (rn_log m) H" and "L \<in> insert (rn_log m) H"
  then show ?thesis using new self logs_match_sym logs_okD(2) [OF ok] by blast
qed

text \<open>
  A node that wins an election is the first leader of its term: no log holds an entry of it yet. A
  leader that already led keeps all of them in its own log, also when a leader of another term
  extends its log.
\<close>

lemma first_leader:
  assumes ok: "leaders_ok ms nodes net V E" and votes: "votes_ok ms nodes net V" and ms: "members_ok ms nodes"
    and i: "i \<in> set ms" and move: "node_move net (nodes i) out m" and leader: "rn_role m = Leader"
    and fresh: "rn_role (nodes i) \<noteq> Leader"
  shows "(rn_current_term m, l) \<notin> E"
proof
  assume e: "(rn_current_term m, l) \<in> E"
  have c: "rn_role (nodes i) = Candidate" "rn_current_term m = rn_current_term (nodes i)"
    using node_move_leads [OF move leader] fresh by auto
  have "l = i"
    by (rule elected_unique [OF votes leaders_okD(3) [OF ok e] new_leader_elected [OF ok votes ms i move leader]])
  then show False using leaders_okD(5) [OF ok e] c by simp
qed

definition owns_term :: "'c log_entry list set \<Rightarrow> 'c log_entry list \<Rightarrow> nat \<Rightarrow> bool" where
  "owns_term H K t \<longleftrightarrow> (\<forall>L \<in> H. \<forall>k < length L. le_term (L ! k) = t \<longrightarrow> k < length K \<and> le_term (K ! k) = t)"

lemma owns_term_extend:
  assumes "owns_term H K t" and "\<And>k. k < length M \<Longrightarrow> le_term (M ! k) = t \<Longrightarrow> k < length K \<and> le_term (K ! k) = t"
  shows "owns_term (insert M H) K t"
  using assms by (auto simp: owns_term_def)

lemma owns_term_append: "owns_term H K t \<Longrightarrow> owns_term H (K @ [e]) t"
  unfolding owns_term_def by (simp add: nth_append) (metis less_SucI)

lemma owns_term_after:
  assumes ok: "logs_ok ms nodes net E H" and lok: "leaders_ok ms nodes net V E" and votes: "votes_ok ms nodes net V"
    and ms: "members_ok ms nodes" and i: "i \<in> set ms" and move: "node_move net (nodes i) out m"
    and j: "j \<in> set ms" and leader: "rn_role ((nodes(i := m)) j) = Leader"
  shows "owns_term (insert (rn_log m) H) (rn_log ((nodes(i := m)) j)) (rn_current_term ((nodes(i := m)) j))"
proof -
  have owned: "owns_term H (rn_log (nodes j)) (rn_current_term (nodes j))" if "rn_role (nodes j) = Leader"
    using logs_okD(4) [OF ok j that] by (auto simp: owns_term_def)
  show ?thesis
  proof (cases "extended_log (nodes i) m")
    case False
    then have m: "rn_log m \<in> H" "rn_role m = Leader \<longrightarrow> rn_log m = rn_log (nodes i)" using node_move_log [OF ok i move] by auto
    then have "insert (rn_log m) H = H" by auto
    moreover have "owns_term H (rn_log ((nodes(i := m)) j)) (rn_current_term ((nodes(i := m)) j))"
    proof (cases "j = i \<and> rn_role (nodes i) \<noteq> Leader")
      case True
      then have "(rn_current_term m, l) \<notin> E" for l using first_leader [OF lok votes ms i move] leader by simp
      then show ?thesis using True logs_okD(3) [OF ok] by (fastforce simp: owns_term_def)
    next
      case no: False
      then have "rn_role (nodes j) = Leader" using leader by (auto split: if_splits)
      then show ?thesis using owned m(2) leader node_move_leads [OF move] by (auto split: if_splits)
    qed
    ultimately show ?thesis by simp
  next
    case True
    then obtain e where e: "rn_log m = rn_log (nodes i) @ [e]" "le_term e = rn_current_term (nodes i)"
      "rn_current_term m = rn_current_term (nodes i)" "rn_role (nodes i) = Leader"
      by (auto simp: extended_log_def)
    have own: "owns_term H (rn_log (nodes j)) (rn_current_term (nodes j))" using owned leader e(4) by (auto split: if_splits)
    show ?thesis
    proof (cases "j = i")
      case True
      then have "owns_term H (rn_log m) (rn_current_term m)" using owns_term_append [OF own] e by simp
      then show ?thesis using True by (auto intro: owns_term_extend)
    next
      case False
      then have lj: "rn_role (nodes j) = Leader" using leader by simp
      have "elected ms V (rn_current_term (nodes i)) i" by (rule leaders_okD(3) [OF lok leaders_okD(1) [OF lok i e(4)]])
      moreover have "elected ms V (rn_current_term (nodes j)) j" by (rule leaders_okD(3) [OF lok leaders_okD(1) [OF lok j lj]])
      ultimately have ne: "rn_current_term (nodes j) \<noteq> rn_current_term (nodes i)" using elected_unique [OF votes] False by metis
      have "owns_term (insert (rn_log m) H) (rn_log (nodes j)) (rn_current_term (nodes j))"
      proof (rule owns_term_extend [OF own])
        fix k assume "k < length (rn_log m)" and t: "le_term (rn_log m ! k) = rn_current_term (nodes j)"
        then have k: "k < length (rn_log (nodes i))" using e ne by (auto simp: nth_append split: if_splits)
        then have "le_term (rn_log (nodes i) ! k) = rn_current_term (nodes j)" using t e by (simp add: nth_append)
        then show "k < length (rn_log (nodes j)) \<and> le_term (rn_log (nodes j) ! k) = rn_current_term (nodes j)"
          using own k logs_okD(1) [OF ok i] unfolding owns_term_def by blast
      qed
      then show ?thesis using False by simp
    qed
  qed
qed

lemma logs_ok_move:
  assumes ok: "logs_ok ms nodes net E H" and lok: "leaders_ok ms nodes net V E" and votes: "votes_ok ms nodes net V"
    and ms: "members_ok ms nodes" and i: "i \<in> set ms" and move: "node_move net (nodes i) out m"
  shows "logs_ok ms (nodes(i := m)) (net \<union> set out) (add_leader E i m) (insert (rn_log m) H)"
proof -
  note log = node_move_log [OF ok i move]
  show ?thesis unfolding logs_ok_def
  proof (intro conjI ballI)
    fix j assume "j \<in> set ms"
    then show "rn_log ((nodes(i := m)) j) \<in> insert (rn_log m) H" using logs_okD(1) [OF ok] by auto
  next
    fix K L assume KL: "K \<in> insert (rn_log m) H" "L \<in> insert (rn_log m) H"
    show "logs_match K L"
    proof (cases "extended_log (nodes i) m")
      case True
      then have "rn_role (nodes i) = Leader" by (simp add: extended_log_def)
      then show ?thesis using logs_ok_grow [OF ok i _ True KL] by simp
    next
      case False
      then show ?thesis using log KL logs_okD(2) [OF ok] by auto
    qed
  next
    fix L assume L: "L \<in> insert (rn_log m) H"
    show "\<forall>k < length L. \<exists>l. (le_term (L ! k), l) \<in> add_leader E i m"
    proof (intro allI impI)
      fix k assume k: "k < length L"
      have "\<exists>l. (le_term (L ! k), l) \<in> E"
      proof (cases "L \<in> H")
        case True
        then show ?thesis using logs_okD(3) [OF ok _ k] by simp
      next
        case False
        then obtain e where e: "L = rn_log (nodes i) @ [e]" "le_term e = rn_current_term (nodes i)" "rn_role (nodes i) = Leader"
          using L log by (auto simp: extended_log_def)
        then show ?thesis
          using k leaders_okD(1) [OF lok i] logs_okD(3) [OF ok logs_okD(1) [OF ok i]] by (auto simp: nth_append less_Suc_eq)
      qed
      then show "\<exists>l. (le_term (L ! k), l) \<in> add_leader E i m" by (auto simp: add_leader_def)
    qed
  next
    fix j
    assume "j \<in> set ms"
    then show "rn_role ((nodes(i := m)) j) = Leader \<longrightarrow> (\<forall>L \<in> insert (rn_log m) H. \<forall>k < length L.
        le_term (L ! k) = rn_current_term ((nodes(i := m)) j) \<longrightarrow> k < length (rn_log ((nodes(i := m)) j)) \<and>
          le_term (rn_log ((nodes(i := m)) j) ! k) = rn_current_term ((nodes(i := m)) j))"
      using owns_term_after [OF ok lok votes ms i move] unfolding owns_term_def by blast
  next
    show "\<forall>c t l prev pt es commit. \<lparr>ob_to = c, ob_message = AppendEntries t l prev pt es commit\<rparr> \<in> net \<union> set out \<longrightarrow>
        (\<exists>L \<in> insert (rn_log m) H. log_fragment L prev pt es)"
      using logs_okD(5) [OF ok] node_move_sends_append [OF move] logs_okD(1) [OF ok i] by (meson UnE insertI2)
  qed
qed

section \<open>The invariant of a cluster\<close>

definition cluster_ok :: "member_id list \<Rightarrow> 'c raft_cluster \<Rightarrow> bool" where
  "cluster_ok ms cl \<longleftrightarrow> members_ok ms (cl_nodes cl) \<and>
     (\<exists>V E H. votes_ok ms (cl_nodes cl) (cl_net cl) V \<and> leaders_ok ms (cl_nodes cl) (cl_net cl) V E \<and>
        logs_ok ms (cl_nodes cl) (cl_net cl) E H)"

lemma cluster_ok_move:
  assumes "cluster_ok ms cl" and "i \<in> set ms" and "node_move (cl_net cl) (cl_nodes cl i) out m"
  shows "cluster_ok ms (advance cl i m out)"
proof -
  let ?cl = "advance cl i m out"
  obtain V E H where ms: "members_ok ms (cl_nodes cl)" and v: "votes_ok ms (cl_nodes cl) (cl_net cl) V"
    and e: "leaders_ok ms (cl_nodes cl) (cl_net cl) V E" and h: "logs_ok ms (cl_nodes cl) (cl_net cl) E H"
    using assms(1) unfolding cluster_ok_def by blast
  have "members_ok ms (cl_nodes ?cl)" using members_ok_move [OF ms assms(3)] by (simp add: advance_def)
  moreover have "votes_ok ms (cl_nodes ?cl) (cl_net ?cl) (add_vote V i m)"
    using votes_ok_move [OF v ms assms(2,3)] by (simp add: advance_def)
  moreover have "leaders_ok ms (cl_nodes ?cl) (cl_net ?cl) (add_vote V i m) (add_leader E i m)"
    using leaders_ok_move [OF e v ms assms(2,3)] by (simp add: advance_def)
  moreover have "logs_ok ms (cl_nodes ?cl) (cl_net ?cl) (add_leader E i m) (insert (rn_log m) H)"
    using logs_ok_move [OF h e v ms assms(2,3)] by (simp add: advance_def)
  ultimately show ?thesis unfolding cluster_ok_def by blast
qed

lemma node_move_more: "node_move net n out m \<Longrightarrow> net \<subseteq> net' \<Longrightarrow> node_move net' n out m"
  by (induction rule: node_move.induct) (blast intro: node_move.intros)+

lemma cluster_ok_moves:
  assumes "node_moves net n out m" and "net = cl_net cl" and "n = cl_nodes cl i" and "cluster_ok ms cl" and "i \<in> set ms"
  shows "cluster_ok ms (advance cl i m out)"
  using assms
proof (induction rule: node_moves.induct)
  case (moves_one net n out m)
  then show ?case using cluster_ok_move by blast
next
  case (moves_more net n a k b m)
  have "node_move (cl_net (advance cl i k a)) (cl_nodes (advance cl i k a) i) b m"
    using moves_more.hyps(2) moves_more.prems(1) by (auto simp: advance_def elim: node_move_more)
  then have "cluster_ok ms (advance (advance cl i k a) i m b)"
    using moves_more.IH moves_more.prems by (blast intro: cluster_ok_move)
  then show ?case by (simp add: advance_advance)
qed

lemma new_raft_node_fields:
  assumes "new_raft_node i ms d = Ok n"
  shows "rn_id n = i \<and> rn_members n = ms \<and> rn_current_term n = 0 \<and> rn_voted_for n = None \<and> rn_log n = [] \<and> rn_role n = Follower"
  using assms by (auto simp: new_raft_node_def split: if_splits)

lemma initial_ok:
  assumes "initial_cluster ms timeouts cl"
  shows "cluster_ok ms cl"
proof -
  have f: "rn_id n = i \<and> rn_members n = ms \<and> rn_current_term n = 0 \<and> rn_voted_for n = None \<and> rn_log n = [] \<and> rn_role n = Follower"
    if "i \<in> set ms" "n = cl_nodes cl i" for i n
    using assms that by (intro new_raft_node_fields [of _ _ "timeouts i"]) (auto simp: initial_cluster_def)
  have "cl_net cl = {}" using assms by (simp add: initial_cluster_def)
  then have "votes_ok ms (cl_nodes cl) (cl_net cl) {}" "leaders_ok ms (cl_nodes cl) (cl_net cl) {} {}"
    "logs_ok ms (cl_nodes cl) (cl_net cl) {} {[]}" "members_ok ms (cl_nodes cl)"
    using f by (auto simp: votes_ok_def leaders_ok_def logs_ok_def members_ok_def logs_match_def)
  then show ?thesis unfolding cluster_ok_def by blast
qed

lemma cluster_ok_step:
  assumes "cluster_step ms cl e cl'" and "cluster_ok ms cl"
  shows "cluster_ok ms cl'"
  using assms(1)
proof cases
  case (step_tick i n out)
  then show ?thesis using cluster_ok_moves [OF tick_moves _ _ assms(2)] by simp
next
  case (step_deliver ob n out)
  have "rn_id (cl_nodes cl (ob_to ob)) = ob_to ob" using assms(2) step_deliver by (simp add: cluster_ok_def members_ok_def)
  then have "\<lparr>ob_to = rn_id (cl_nodes cl (ob_to ob)), ob_message = ob_message ob\<rparr> \<in> cl_net cl"
    using step_deliver by (cases ob) simp
  then show ?thesis using step_deliver cluster_ok_moves [OF handle_moves _ _ assms(2)] by simp
next
  case (step_propose i c n at)
  then show ?thesis using cluster_ok_moves [OF propose_moves _ _ assms(2)] by simp
qed

lemma reachable_ok: "cluster_reachable ms timeouts cl \<Longrightarrow> cluster_ok ms cl"
  by (induction rule: cluster_reachable.induct) (auto intro: initial_ok cluster_ok_step)

end
