(* ===== verification/Raft_Runs.thy ===== *)
theory Raft_Runs
  imports Raft_Safety "HOL-Library.AList"
begin

text \<open>
  What the cluster of \<open>src/raft/consensus.rs\<close> guarantees and what it does not: election safety and log
  matching hold in every reachable state; committed entries can be lost, shown by an execution.
  Executions are lists of events, run by an executable step function.
\<close>

section \<open>Running a list of events\<close>

text \<open>The nodes as an association list and the messages sent as a list.\<close>

type_synonym 'c raft_run = "(member_id \<times> 'c raft_node) list \<times> 'c outbound list"

definition node_of :: "'c raft_run \<Rightarrow> member_id \<Rightarrow> 'c raft_node" where
  "node_of r i = the (map_of (fst r) i)"

definition as_cluster :: "'c raft_run \<Rightarrow> 'c raft_cluster" where
  "as_cluster r = \<lparr>cl_nodes = node_of r, cl_net = set (snd r)\<rparr>"

definition put :: "'c raft_run \<Rightarrow> member_id \<Rightarrow> 'c reaction \<Rightarrow> 'c raft_run" where
  "put r i reaction = (AList.update i (fst reaction) (fst r), snd reaction @ snd r)"

fun fire :: "member_id list \<Rightarrow> 'c raft_run \<Rightarrow> 'c raft_event \<Rightarrow> 'c raft_run option" where
  "fire ms r (Tick i) =
     (if i \<in> set ms then case tick (node_of r i) of Ok reaction \<Rightarrow> Some (put r i reaction) | _ \<Rightarrow> None else None)"
| "fire ms r (Deliver ob) =
     (if ob \<in> set (snd r) \<and> ob_to ob \<in> set ms
      then case handle (node_of r (ob_to ob)) (ob_message ob) of Ok reaction \<Rightarrow> Some (put r (ob_to ob) reaction) | _ \<Rightarrow> None
      else None)"
| "fire ms r (Propose i c) = (if i \<in> set ms then Some (put r i (fst (propose (node_of r i) c), [])) else None)"

fun run_events :: "member_id list \<Rightarrow> 'c raft_run \<Rightarrow> 'c raft_event list \<Rightarrow> 'c raft_run option" where
  "run_events ms r [] = Some r"
| "run_events ms r (e # es) = (case fire ms r e of Some r' \<Rightarrow> run_events ms r' es | None \<Rightarrow> None)"

lemma as_cluster_put: "as_cluster (put r i (n, out)) = advance (as_cluster r) i n out"
  by (auto simp: as_cluster_def put_def advance_def node_of_def update_conv')

lemma as_cluster_simps: "cl_nodes (as_cluster r) = node_of r" "cl_net (as_cluster r) = set (snd r)"
  by (simp_all add: as_cluster_def)

lemma fire_step:
  assumes "fire ms r e = Some r'"
  shows "cluster_step ms (as_cluster r) e (as_cluster r')"
proof (cases e)
  case (Tick i)
  then show ?thesis
    using assms cluster_step.step_tick [of i ms "as_cluster r"]
    by (auto simp: as_cluster_put as_cluster_simps split: if_splits outcome.splits)
next
  case (Deliver ob)
  then show ?thesis
    using assms cluster_step.step_deliver [of ob "as_cluster r" ms]
    by (auto simp: as_cluster_put as_cluster_simps split: if_splits outcome.splits)
next
  case (Propose i c)
  then show ?thesis
    using assms cluster_step.step_propose [of i ms "as_cluster r" c "fst (propose (node_of r i) c)" "snd (propose (node_of r i) c)"]
    by (auto simp: as_cluster_put as_cluster_simps split: if_splits)
qed

lemma run_reachable:
  "cluster_reachable ms timeouts (as_cluster r) \<Longrightarrow> run_events ms r es = Some r' \<Longrightarrow>
   cluster_reachable ms timeouts (as_cluster r')"
proof (induction es arbitrary: r)
  case (Cons e es)
  obtain q where "fire ms r e = Some q" and q: "run_events ms q es = Some r'" using Cons.prems(2) by (auto split: option.splits)
  then have "cluster_reachable ms timeouts (as_cluster q)" using Cons.prems(1) by (blast intro: reach_step fire_step)
  then show ?case using q by (rule Cons.IH)
qed simp

definition start_node :: "member_id list \<Rightarrow> member_id \<Rightarrow> 'c raft_node" where
  "start_node ms i = \<lparr>rn_id = i, rn_members = ms, rn_current_term = 0, rn_voted_for = None, rn_log = [], rn_role = Follower,
     rn_commit_index = 0, rn_leader_hint = None, rn_votes_granted = [], rn_next_index = bt_empty, rn_match_index = bt_empty,
     rn_election_timeout = 1, rn_ticks_since_heard = 0\<rparr>"

definition start_run :: "member_id list \<Rightarrow> 'c raft_run" where
  "start_run ms = (map (\<lambda>i. (i, start_node ms i)) ms, [])"

lemma start_reachable: "cluster_reachable ms (\<lambda>_. 1) (as_cluster (start_run ms))"
  by (rule reach_initial)
    (simp add: initial_cluster_def as_cluster_simps start_run_def node_of_def map_of_map_restrict new_raft_node_def start_node_def)

lemma run_from_start: "run_events ms (start_run ms) es = Some r \<Longrightarrow> cluster_reachable ms (\<lambda>_. 1) (as_cluster r)"
  by (rule run_reachable [OF start_reachable])

definition trio :: "member_id list" where
  "trio = [''a'', ''b'', ''c'']"

lemma in_trio: "''a'' \<in> set trio" "''b'' \<in> set trio" "''c'' \<in> set trio"
  by (simp_all add: trio_def)

abbreviation deliver :: "member_id \<Rightarrow> 'c raft_message \<Rightarrow> 'c raft_event" where
  "deliver i m \<equiv> Deliver \<lparr>ob_to = i, ob_message = m\<rparr>"

text \<open>Node \<open>a\<close> is elected and accepts two commands that it never replicates; \<open>b\<close> is elected after it.\<close>

definition isolated_leader :: "nat raft_event list" where
  "isolated_leader =
     [Tick ''a'', deliver ''b'' (RequestVote 1 ''a'' 0 0), deliver ''a'' (RequestVoteResp 1 ''b'' True),
      Propose ''a'' 1, Propose ''a'' 2,
      Tick ''b'', deliver ''c'' (RequestVote 2 ''b'' 0 0), deliver ''b'' (RequestVoteResp 2 ''c'' True)]"

text \<open>\<open>a\<close> acknowledges an empty append with the length of its own log, and \<open>b\<close> commits on that.\<close>

definition stale_acknowledgement :: "nat raft_event list" where
  "stale_acknowledgement =
     [deliver ''a'' (AppendEntries 2 ''b'' 0 0 [] 0), deliver ''b'' (AppendEntriesResp 2 ''a'' 2 True), Propose ''b'' 7]"

definition stale_log :: "nat log_entry list" where
  "stale_log = [\<lparr>le_term = 1, le_command = 1\<rparr>, \<lparr>le_term = 1, le_command = 2\<rparr>, \<lparr>le_term = 3, le_command = 3\<rparr>]"

definition later_leader :: "nat raft_event list" where
  "later_leader =
     [Tick ''a'', deliver ''c'' (RequestVote 3 ''a'' 2 1), deliver ''a'' (RequestVoteResp 3 ''c'' True), Propose ''a'' 3,
      deliver ''c'' (AppendEntries 3 ''a'' 2 1 [] 0), deliver ''a'' (AppendEntriesResp 3 ''c'' 0 False),
      Tick ''a'', deliver ''c'' (AppendEntries 3 ''a'' 1 1 (drop 1 stale_log) 0), deliver ''a'' (AppendEntriesResp 3 ''c'' 0 False),
      Tick ''a'', deliver ''c'' (AppendEntries 3 ''a'' 0 0 stale_log 0), deliver ''a'' (AppendEntriesResp 3 ''c'' 3 True)]"

definition stale_run :: "nat raft_event list" where
  "stale_run = isolated_leader @ stale_acknowledgement @ later_leader"

text \<open>The execution and what its nodes hold at the end.\<close>

definition stale_end :: "nat raft_run" where
  "stale_end = the (run_events trio (start_run trio) stale_run)"

definition panic_end :: "nat raft_run" where
  "panic_end = the (run_events trio (start_run trio) (isolated_leader @ stale_acknowledgement))"

lemma stale_run_evaluates:
  "map_option (\<lambda>r. (committed_entries (node_of r ''a''), committed_entries (node_of r ''b''), rn_log (node_of r ''c''),
      rn_role (node_of r ''a''), rn_current_term (node_of r ''a''), rn_log (node_of r ''a'')))
     (run_events trio (start_run trio) stale_run) =
   Some (Ok stale_log, Ok [\<lparr>le_term = 2, le_command = 7\<rparr>], stale_log, Leader, 3, stale_log)"
  by code_simp

lemma panic_run_evaluates:
  "map_option (\<lambda>r. tick (node_of r ''b'')) (run_events trio (start_run trio) (isolated_leader @ stale_acknowledgement)) = Some Panic"
  by code_simp

lemma stale_end_facts:
  "run_events trio (start_run trio) stale_run = Some stale_end"
  "committed_entries (node_of stale_end ''a'') = Ok stale_log"
  "committed_entries (node_of stale_end ''b'') = Ok [\<lparr>le_term = 2, le_command = 7\<rparr>]"
  "rn_log (node_of stale_end ''c'') = stale_log"
  "rn_role (node_of stale_end ''a'') = Leader"
  "rn_current_term (node_of stale_end ''a'') = 3"
  "rn_log (node_of stale_end ''a'') = stale_log"
  using stale_run_evaluates by (auto simp: stale_end_def map_option_eq_Some simp del: run_events.simps)

lemma panic_end_facts:
  "run_events trio (start_run trio) (isolated_leader @ stale_acknowledgement) = Some panic_end"
  "tick (node_of panic_end ''b'') = Panic"
  using panic_run_evaluates by (auto simp: panic_end_def map_option_eq_Some simp del: run_events.simps)

lemmas stale_end_reachable = run_from_start [OF stale_end_facts(1)]
  and panic_end_reachable = run_from_start [OF panic_end_facts(1)]

section \<open>Properties\<close>

text \<open>A node leads in a term, or led in it and sent an append then.\<close>

definition has_led :: "member_id list \<Rightarrow> 'c raft_cluster \<Rightarrow> member_id \<Rightarrow> nat \<Rightarrow> bool" where
  "has_led ms cl i t \<longleftrightarrow>
     i \<in> set ms \<and> rn_role (cl_nodes cl i) = Leader \<and> rn_current_term (cl_nodes cl i) = t \<or>
     (\<exists>ob \<in> cl_net cl. \<exists>prev pt es commit. ob_message ob = AppendEntries t i prev pt es commit)"

lemma has_led_elected:
  assumes "leaders_ok ms (cl_nodes cl) (cl_net cl) V E" and "has_led ms cl i t"
  shows "elected ms V t i"
proof (rule leaders_okD(3) [OF assms(1)])
  consider "i \<in> set ms" "rn_role (cl_nodes cl i) = Leader" "rn_current_term (cl_nodes cl i) = t"
    | ob prev pt es commit where "ob \<in> cl_net cl" "ob_message ob = AppendEntries t i prev pt es commit"
    using assms(2) unfolding has_led_def by blast
  then show "(t, i) \<in> E"
  proof cases
    case 1
    then show ?thesis using leaders_okD(1) [OF assms(1)] by blast
  next
    case 2
    then have "\<lparr>ob_to = ob_to ob, ob_message = AppendEntries t i prev pt es commit\<rparr> \<in> cl_net cl" by (cases ob) simp
    then show ?thesis by (rule leaders_okD(6) [OF assms(1)])
  qed
qed

text \<open>
  C5. Election safety: in every state the cluster can reach, under any order, loss and repetition of
  messages, two nodes that lead or ever sent an append as leader in the same term are the same node.
\<close>

theorem raft_election_safety:
  assumes "cluster_reachable ms timeouts cl" and "has_led ms cl i t" and "has_led ms cl j t"
  shows "i = j"
proof -
  obtain V E H where "votes_ok ms (cl_nodes cl) (cl_net cl) V" and "leaders_ok ms (cl_nodes cl) (cl_net cl) V E"
    using reachable_ok [OF assms(1)] unfolding cluster_ok_def by blast
  then show ?thesis using elected_unique has_led_elected assms(2,3) by blast
qed

theorem raft_election_safety_witness:
  "run_events trio (start_run trio) stale_run = Some stale_end \<and> {j. has_led trio (as_cluster stale_end) j 3} = {''a''}"
proof -
  have led: "has_led trio (as_cluster stale_end) ''a'' 3"
    unfolding has_led_def as_cluster_simps by (intro disjI1 conjI stale_end_facts in_trio)
  have "j = ''a''" if "has_led trio (as_cluster stale_end) j 3" for j
    by (rule raft_election_safety [OF stale_end_reachable that led])
  then have "{j. has_led trio (as_cluster stale_end) j 3} = {''a''}" using led by (intro set_eqI) (metis mem_Collect_eq singleton_iff)
  then show ?thesis by (rule conjI [OF stale_end_facts(1)])
qed

text \<open>
  C6. Log matching: in every reachable state, two logs that hold an entry of the same term at the same
  index are identical up to and including it.
\<close>

theorem raft_log_matching:
  assumes "cluster_reachable ms timeouts cl" and "i \<in> set ms" and "j \<in> set ms"
    and "k < length (rn_log (cl_nodes cl i))" and "k < length (rn_log (cl_nodes cl j))"
    and "le_term (rn_log (cl_nodes cl i) ! k) = le_term (rn_log (cl_nodes cl j) ! k)"
  shows "take (k + 1) (rn_log (cl_nodes cl i)) = take (k + 1) (rn_log (cl_nodes cl j))"
proof -
  obtain E H where "logs_ok ms (cl_nodes cl) (cl_net cl) E H"
    using reachable_ok [OF assms(1)] unfolding cluster_ok_def by blast
  then have "logs_match (rn_log (cl_nodes cl i)) (rn_log (cl_nodes cl j))" using logs_okD(1,2) assms(2,3) by blast
  then show ?thesis using assms(4-6) unfolding logs_match_def by blast
qed

theorem raft_log_matching_witness:
  "take (2 + 1) (rn_log (node_of stale_end ''a'')) = take (2 + 1) (rn_log (node_of stale_end ''c'')) \<and>
   length (rn_log (node_of stale_end ''a'')) = 3"
proof
  have l: "length stale_log = 3" by (simp add: stale_log_def)
  show "take (2 + 1) (rn_log (node_of stale_end ''a'')) = take (2 + 1) (rn_log (node_of stale_end ''c''))"
    by (rule raft_log_matching [OF stale_end_reachable, unfolded as_cluster_simps])
      (simp_all add: stale_end_facts(2-) in_trio l)
  show "length (rn_log (node_of stale_end ''a'')) = 3" by (simp add: stale_end_facts(7) l)
qed

text \<open>
  C11. A follower acknowledges an append with the length of its own log, not with the index up to which
  the append matched. So a leader can commit an entry that only it holds: the cluster reaches a state
  in which two nodes have committed different entries at the first index, and a state in which the
  heartbeat of the leader indexes past its own log and panics.
\<close>

theorem raft_commit_diverges:
  "(\<exists>cl :: nat raft_cluster. cluster_reachable trio (\<lambda>_. 1) cl \<and> (\<exists>a as b bs.
      committed_entries (cl_nodes cl ''a'') = Ok (a # as) \<and> committed_entries (cl_nodes cl ''b'') = Ok (b # bs) \<and> a \<noteq> b)) \<and>
   (\<exists>cl :: nat raft_cluster. cluster_reachable trio (\<lambda>_. 1) cl \<and> tick (cl_nodes cl ''b'') = Panic)"
proof
  show "\<exists>cl :: nat raft_cluster. cluster_reachable trio (\<lambda>_. 1) cl \<and> (\<exists>a as b bs.
      committed_entries (cl_nodes cl ''a'') = Ok (a # as) \<and> committed_entries (cl_nodes cl ''b'') = Ok (b # bs) \<and> a \<noteq> b)"
    using stale_end_reachable
    by (intro exI [of _ "as_cluster stale_end"]) (simp add: as_cluster_simps stale_end_facts stale_log_def)
  show "\<exists>cl :: nat raft_cluster. cluster_reachable trio (\<lambda>_. 1) cl \<and> tick (cl_nodes cl ''b'') = Panic"
    using panic_end_reachable by (intro exI [of _ "as_cluster panic_end"]) (simp add: as_cluster_simps panic_end_facts)
qed

end
