(* ===== verification/Scheduler.thy ===== *)
theory Scheduler
  imports Raft
begin

text \<open>
  The replicated state machine of the scheduler, \<open>src/raft/state.rs\<close>: what a committed command does to
  the record of its stage, and the application of the committed prefix of the log, which skips what
  was applied before. Counters of 32 bits are natural numbers whose increment panics at the bound, as
  it does in a build with overflow checks; a build without them wraps to zero there, so that the
  theorems speak of such a build up to the first overflow of a counter.
\<close>

section \<open>Stages and commands\<close>

datatype stage_status = Queued | Dispatched | Running | Done | Failed

datatype scheduler_command =
    EnqueueStage string
  | Dispatch string string "string option"
  | StageRunning string string
  | Complete string string
  | Fail string string
  | CloudJob string string
  | VoidDispatch string string

record stage_record =
  sr_status :: "stage_status option"
  sr_peer :: "string option"
  sr_expected :: "string option"
  sr_content_hash :: "string option"
  sr_cloud_job :: "string option"
  sr_dispatch_count :: nat
  sr_voided_dispatches :: nat

definition default_record :: stage_record where
  "default_record = \<lparr>sr_status = None, sr_peer = None, sr_expected = None, sr_content_hash = None, sr_cloud_job = None,
     sr_dispatch_count = 0, sr_voided_dispatches = 0\<rparr>"

definition effective_dispatches :: "stage_record \<Rightarrow> nat" where
  "effective_dispatches r = sr_dispatch_count r - sr_voided_dispatches r"

record scheduler_state =
  ss_stages :: "(string, stage_record) btree_map"
  ss_applied :: nat

definition new_scheduler_state :: scheduler_state where
  "new_scheduler_state = \<lparr>ss_stages = bt_empty, ss_applied = 0\<rparr>"

definition u32_add :: "nat \<Rightarrow> nat \<Rightarrow> nat raft_result" where
  "u32_add a b = (if int a + int b < 2 ^ 32 then Ok (a + b) else Panic)"

section \<open>Applying a command\<close>

text \<open>The record \<open>stages.entry(stage).or_default()\<close>.\<close>

definition record_of :: "scheduler_state \<Rightarrow> string \<Rightarrow> stage_record" where
  "record_of st stage = (case bt_get (ss_stages st) stage of Some r \<Rightarrow> r | None \<Rightarrow> default_record)"

definition put_record :: "scheduler_state \<Rightarrow> string \<Rightarrow> stage_record \<Rightarrow> scheduler_state" where
  "put_record st stage r = st\<lparr>ss_stages := bt_insert stage r (ss_stages st)\<rparr>"

fun command_stage :: "scheduler_command \<Rightarrow> string" where
  "command_stage (EnqueueStage s) = s"
| "command_stage (Dispatch s _ _) = s"
| "command_stage (StageRunning s _) = s"
| "command_stage (Complete s _) = s"
| "command_stage (Fail s _) = s"
| "command_stage (CloudJob s _) = s"
| "command_stage (VoidDispatch s _) = s"

fun apply_record :: "stage_record \<Rightarrow> scheduler_command \<Rightarrow> stage_record raft_result" where
  "apply_record r (EnqueueStage _) = Ok (if sr_status r = None then r\<lparr>sr_status := Some Queued\<rparr> else r)"
| "apply_record r (Dispatch _ peer expected) =
     and_then (u32_add (sr_dispatch_count r) 1) (\<lambda>n.
     Ok (r\<lparr>sr_status := Some Dispatched, sr_peer := Some peer,
           sr_expected := (if expected \<noteq> None then expected else sr_expected r), sr_dispatch_count := n\<rparr>))"
| "apply_record r (StageRunning _ peer) =
     Ok (if sr_status r \<in> {Some Done, Some Failed} then r else r\<lparr>sr_status := Some Running, sr_peer := Some peer\<rparr>)"
| "apply_record r (Complete _ content_hash) = Ok (r\<lparr>sr_status := Some Done, sr_content_hash := Some content_hash\<rparr>)"
| "apply_record r (Fail _ _) = Ok (if sr_status r \<noteq> Some Done then r\<lparr>sr_status := Some Failed\<rparr> else r)"
| "apply_record r (CloudJob _ job_id) = Ok (r\<lparr>sr_cloud_job := Some job_id\<rparr>)"
| "apply_record r (VoidDispatch _ _) =
     (if sr_status r \<noteq> Some Done
      then and_then (u32_add (sr_voided_dispatches r) 1) (\<lambda>n.
           Ok (r\<lparr>sr_status := Some Queued, sr_peer := None, sr_voided_dispatches := n\<rparr>))
      else Ok r)"

definition apply_command :: "scheduler_state \<Rightarrow> scheduler_command \<Rightarrow> scheduler_state raft_result" where
  "apply_command st command =
     and_then (apply_record (record_of st (command_stage command)) command) (\<lambda>r. Ok (put_record st (command_stage command) r))"

definition apply_entry :: "scheduler_state \<Rightarrow> scheduler_command log_entry \<Rightarrow> scheduler_state raft_result" where
  "apply_entry st entry =
     and_then (apply_command st (le_command entry)) (\<lambda>st.
     and_then (u64_succ (ss_applied st)) (\<lambda>n. Ok (st\<lparr>ss_applied := n\<rparr>)))"

definition apply_prefix :: "scheduler_state \<Rightarrow> scheduler_command log_entry list \<Rightarrow> scheduler_state raft_result" where
  "apply_prefix st committed = try_fold apply_entry st (drop (ss_applied st) committed)"

section \<open>Queries\<close>

definition unresolved :: "scheduler_state \<Rightarrow> string list" where
  "unresolved st = map fst (filter (\<lambda>e. sr_status (snd e) \<in> {Some Dispatched, Some Running}) (ss_stages st))"

definition completed :: "scheduler_state \<Rightarrow> string list" where
  "completed st = map fst (filter (\<lambda>e. sr_status (snd e) = Some Done) (ss_stages st))"

definition max_effective_dispatches :: "scheduler_state \<Rightarrow> nat" where
  "max_effective_dispatches st = fold max (map effective_dispatches (bt_values (ss_stages st))) 0"

definition total_dispatch_decisions :: "scheduler_state \<Rightarrow> nat raft_result" where
  "total_dispatch_decisions st = try_fold u32_add 0 (map sr_dispatch_count (bt_values (ss_stages st)))"

section \<open>Consuming a growing log\<close>

text \<open>
  What a state machine promises the consensus layer: one entry advances its counter by one. Then
  handing it the whole committed prefix again and again is the same as replaying the log once.
\<close>

locale log_consumer =
  fixes step :: "'s \<Rightarrow> 'e \<Rightarrow> 's raft_result"
    and applied :: "'s \<Rightarrow> nat"
  assumes step_applied: "step s e = Ok t \<Longrightarrow> applied t = applied s + 1"
begin

lemma fold_applied: "try_fold step s es = Ok t \<Longrightarrow> applied t = applied s + length es"
  by (induction es arbitrary: s) (auto simp: outcome_simps dest!: step_applied)

lemma replay:
  assumes "try_fold step s (drop (applied s) p) = Ok t" and "applied s \<le> length p"
  shows "applied t = length p" and "try_fold step t (drop (applied t) (p @ q)) = try_fold step s (drop (applied s) (p @ q))"
proof -
  show a: "applied t = length p" using fold_applied [OF assms(1)] assms(2) by simp
  have "drop (applied s) (p @ q) = drop (applied s) p @ q" using assms(2) by simp
  then show "try_fold step t (drop (applied t) (p @ q)) = try_fold step s (drop (applied s) (p @ q))"
    using assms(1) a by (simp add: try_fold_append)
qed

end

lemma apply_entry_applied: "apply_entry st e = Ok st' \<Longrightarrow> ss_applied st' = ss_applied st + 1"
  by (auto simp: apply_entry_def apply_command_def put_record_def u64_succ_def outcome_simps split: if_splits)

interpretation sched: log_consumer apply_entry ss_applied
  by unfold_locales (rule apply_entry_applied)

section \<open>Records\<close>

lemma record_of_put:
  "bt_wf (ss_stages st) \<Longrightarrow> record_of (put_record st stage r) s = (if s = stage then r else record_of st s)"
  by (simp add: record_of_def put_record_def bt_get_insert)

lemma record_of_applied [simp]: "record_of (st\<lparr>ss_applied := n\<rparr>) s = record_of st s"
  by (simp add: record_of_def)

lemma apply_entry_Ok:
  assumes "apply_entry st e = Ok st'" and "bt_wf (ss_stages st)"
  shows "bt_wf (ss_stages st')"
    and "\<exists>r. apply_record (record_of st (command_stage (le_command e))) (le_command e) = Ok r \<and>
      record_of st' = (record_of st)(command_stage (le_command e) := r)"
proof -
  obtain r n where r: "apply_record (record_of st (command_stage (le_command e))) (le_command e) = Ok r"
    and st': "st' = (put_record st (command_stage (le_command e)) r)\<lparr>ss_applied := n\<rparr>"
    using assms(1) by (auto simp: apply_entry_def apply_command_def outcome_simps)
  show "bt_wf (ss_stages st')" using assms(2) by (simp add: st' put_record_def bt_wf_insert)
  show "\<exists>r. apply_record (record_of st (command_stage (le_command e))) (le_command e) = Ok r \<and>
      record_of st' = (record_of st)(command_stage (le_command e) := r)"
    using r assms(2) by (auto simp: st' fun_eq_iff record_of_put)
qed

text \<open>
  A dispatch is serial when the stage is not assigned at the point of the log where it is applied;
  then at most one dispatch of a stage is effective at any time.
\<close>

fun assignable :: "scheduler_state \<Rightarrow> scheduler_command \<Rightarrow> bool" where
  "assignable st (Dispatch stage _ _) = (sr_status (record_of st stage) \<in> {None, Some Queued})"
| "assignable st _ = True"

fun serial_dispatches :: "scheduler_state \<Rightarrow> scheduler_command log_entry list \<Rightarrow> bool" where
  "serial_dispatches st [] = True"
| "serial_dispatches st (e # es) =
     (assignable st (le_command e) \<and> (case apply_entry st e of Ok st' \<Rightarrow> serial_dispatches st' es | _ \<Rightarrow> True))"

definition record_ok :: "stage_record \<Rightarrow> bool" where
  "record_ok r \<longleftrightarrow> sr_dispatch_count r \<le> sr_voided_dispatches r + 1 \<and>
     (sr_status r \<in> {None, Some Queued} \<longrightarrow> sr_dispatch_count r \<le> sr_voided_dispatches r)"

lemma record_ok_apply:
  assumes "apply_record (record_of st (command_stage c)) c = Ok r" and "record_ok (record_of st (command_stage c))" and "assignable st c"
  shows "record_ok r"
  using assms by (cases c) (auto simp: record_ok_def u32_add_def outcome_simps split: if_splits)

lemma serial_records_ok:
  assumes "serial_dispatches st es" and "try_fold apply_entry st es = Ok st'" and "bt_wf (ss_stages st)"
    and "\<forall>s. record_ok (record_of st s)"
  shows "bt_wf (ss_stages st') \<and> (\<forall>s. record_ok (record_of st' s))"
  using assms
proof (induction es arbitrary: st)
  case (Cons e es)
  obtain st1 where st1: "apply_entry st e = Ok st1" and rest: "try_fold apply_entry st1 es = Ok st'"
    using Cons.prems(2) by (auto simp: outcome_simps)
  obtain r where r: "apply_record (record_of st (command_stage (le_command e))) (le_command e) = Ok r"
      "record_of st1 = (record_of st)(command_stage (le_command e) := r)"
    using apply_entry_Ok(2) [OF st1 Cons.prems(3)] by blast
  have "record_ok r" using record_ok_apply [OF r(1)] Cons.prems(1,4) by auto
  then show ?case
    using Cons.IH [OF _ rest apply_entry_Ok(1) [OF st1 Cons.prems(3)]] Cons.prems(1,4) st1 r(2) by auto
qed simp

lemma fold_max_le: "fold max xs (m :: nat) \<le> n \<longleftrightarrow> m \<le> n \<and> (\<forall>x \<in> set xs. x \<le> n)"
  by (induction xs arbitrary: m) auto

lemma max_effective_le:
  assumes "bt_wf (ss_stages st)"
  shows "max_effective_dispatches st \<le> n \<longleftrightarrow> (\<forall>s. effective_dispatches (record_of st s) \<le> n)"
proof -
  have "(\<forall>r \<in> set (bt_values (ss_stages st)). effective_dispatches r \<le> n) \<longleftrightarrow> (\<forall>s. effective_dispatches (record_of st s) \<le> n)"
  proof
    assume a: "\<forall>r \<in> set (bt_values (ss_stages st)). effective_dispatches r \<le> n"
    show "\<forall>s. effective_dispatches (record_of st s) \<le> n"
      using a by (auto simp: record_of_def effective_dispatches_def default_record_def split: option.split dest: bt_get_in_values)
  next
    assume a: "\<forall>s. effective_dispatches (record_of st s) \<le> n"
    show "\<forall>r \<in> set (bt_values (ss_stages st)). effective_dispatches r \<le> n"
    proof
      fix r assume "r \<in> set (bt_values (ss_stages st))"
      then obtain s where "(s, r) \<in> set (ss_stages st)" by (auto simp: bt_values_def)
      then have "bt_get (ss_stages st) s = Some r" using bt.lookup_iff_entry [OF assms] by simp
      then show "effective_dispatches r \<le> n" using a [rule_format, of s] by (simp add: record_of_def)
    qed
  qed
  then show ?thesis by (auto simp: max_effective_dispatches_def fold_max_le)
qed

lemma new_records: "record_of new_scheduler_state s = default_record" "bt_wf (ss_stages new_scheduler_state)"
  by (simp_all add: record_of_def new_scheduler_state_def bt_empty_def bt_get_def)

section \<open>Properties\<close>

definition sample_log :: "scheduler_command log_entry list" where
  "sample_log = map (\<lambda>c. \<lparr>le_term = 1, le_command = c\<rparr>)
     [EnqueueStage ''s'', Dispatch ''s'' ''p'' None, VoidDispatch ''s'' ''gone'', Dispatch ''s'' ''q'' None]"

text \<open>
  C8. Applying the committed prefix is replay: after a prefix is applied, its length is the number of
  entries applied, applying it again changes nothing, and applying any longer prefix gives the state
  that applying the longer prefix from the start would have given.
\<close>

theorem apply_prefix_replay:
  assumes "apply_prefix st p = Ok st'" and "ss_applied st \<le> length p"
  shows "ss_applied st' = length p \<and> apply_prefix st' p = Ok st' \<and> apply_prefix st' (p @ q) = apply_prefix st (p @ q)"
  using sched.replay [of st p st'] assms by (simp add: apply_prefix_def)

theorem apply_prefix_replay_witness:
  "\<exists>st. apply_prefix new_scheduler_state (take 2 sample_log) = Ok st \<and>
     apply_prefix st (take 2 sample_log @ drop 2 sample_log) = apply_prefix new_scheduler_state (take 2 sample_log @ drop 2 sample_log)"
proof -
  obtain st where "apply_prefix new_scheduler_state (take 2 sample_log) = Ok st"
    by (simp add: apply_prefix_def sample_log_def new_scheduler_state_def apply_entry_def apply_command_def record_of_def
        put_record_def default_record_def u32_add_def u64_succ_def bt_get_def bt_empty_def)
  moreover have "ss_applied new_scheduler_state \<le> length (take 2 sample_log)" by (simp add: new_scheduler_state_def)
  ultimately show ?thesis using apply_prefix_replay [of new_scheduler_state "take 2 sample_log" st] by blast
qed

text \<open>
  C9. At most one live dispatch: along any log in which every dispatch is applied to a stage that is
  unknown or queued at that point, no stage ever has more than one effective dispatch, re-dispatches
  after a void included.
\<close>

theorem dispatch_at_most_once:
  assumes "serial_dispatches new_scheduler_state log" and "apply_prefix new_scheduler_state log = Ok st"
  shows "max_effective_dispatches st \<le> 1 \<and> effective_dispatches (record_of st stage) \<le> 1"
proof -
  have "try_fold apply_entry new_scheduler_state log = Ok st" using assms(2) by (simp add: apply_prefix_def new_scheduler_state_def)
  moreover have "\<forall>s. record_ok (record_of new_scheduler_state s)" by (simp add: new_records record_ok_def default_record_def)
  ultimately have "bt_wf (ss_stages st)" and "\<forall>s. record_ok (record_of st s)"
    using serial_records_ok [OF assms(1) _ new_records(2)] by blast+
  moreover from this(2) have "effective_dispatches (record_of st s) \<le> 1" for s
    by (auto simp: record_ok_def effective_dispatches_def dest!: spec [of _ s])
  ultimately show ?thesis by (simp add: max_effective_le)
qed

lemma sample_log_serial:
  "(serial_dispatches new_scheduler_state sample_log,
    case apply_prefix new_scheduler_state sample_log of Ok st \<Rightarrow> Some (sr_dispatch_count (record_of st ''s'')) | _ \<Rightarrow> None) = (True, Some 2)"
  by code_simp

theorem dispatch_at_most_once_witness:
  "\<exists>st. apply_prefix new_scheduler_state sample_log = Ok st \<and> sr_dispatch_count (record_of st ''s'') = 2 \<and>
     max_effective_dispatches st \<le> 1"
proof -
  obtain st where st: "apply_prefix new_scheduler_state sample_log = Ok st" "sr_dispatch_count (record_of st ''s'') = 2"
      "serial_dispatches new_scheduler_state sample_log"
    using sample_log_serial by (auto split: outcome.splits)
  then show ?thesis using dispatch_at_most_once [OF st(3,1)] by blast
qed

end
