(* ===== verification/Ha.thy ===== *)
theory Ha
  imports Scheduler
begin

text \<open>
  The scheduler whose dispatch decisions are replicated, \<open>src/raft/ha.rs\<close>: commit before dispatch,
  reconciliation of inherited stages, and refusal without a quorum; and the in-process cluster of
  \<open>src/raft/mod.rs\<close> that ticks nodes and delivers their messages in order.
\<close>

section \<open>Decisions and reports\<close>

datatype dispatch_decision =
    Committed string string nat
  | AwaitingQuorum string nat
  | NotLeader "string option"
  | NoQuorum
  | AlreadyDispatched string string

datatype peer_stage_state = PeerComplete string | PeerRunning | PeerAbsent

record peer_report =
  pr_stage :: string
  pr_peer :: string
  pr_state :: peer_stage_state

datatype reconcile_action =
    Adopt string string
  | KeepRunning string string
  | Redispatch string
  | RejectedMismatch string string string

record ha_scheduler =
  ha_raft :: "scheduler_command raft_node"
  ha_state :: scheduler_state
  ha_reachable :: "member_id list"
  ha_members :: "member_id list"

type_synonym ha_reaction = "ha_scheduler \<times> scheduler_command outbound list"

definition new_ha_scheduler :: "member_id \<Rightarrow> member_id list \<Rightarrow> nat \<Rightarrow> ha_scheduler raft_result" where
  "new_ha_scheduler i members election_timeout =
     and_then (new_raft_node i members election_timeout) (\<lambda>raft.
     Ok \<lparr>ha_raft = raft, ha_state = new_scheduler_state, ha_reachable = members, ha_members = members\<rparr>)"

definition set_reachable :: "ha_scheduler \<Rightarrow> member_id list \<Rightarrow> ha_scheduler" where
  "set_reachable s reachable = s\<lparr>ha_reachable := reachable\<rparr>"

definition ha_quorum :: "ha_scheduler \<Rightarrow> nat" where
  "ha_quorum s = length (ha_members s) div 2 + 1"

definition has_quorum :: "ha_scheduler \<Rightarrow> bool" where
  "has_quorum s \<longleftrightarrow> ha_quorum s \<le> length (filter (\<lambda>m. m \<in> set (ha_reachable s)) (ha_members s))"

section \<open>Driving the node\<close>

definition pump :: "ha_scheduler \<Rightarrow> ha_scheduler raft_result" where
  "pump s =
     and_then (committed_entries (ha_raft s)) (\<lambda>entries.
     and_then (apply_prefix (ha_state s) entries) (\<lambda>st. Ok (s\<lparr>ha_state := st\<rparr>)))"

definition ha_react :: "ha_scheduler \<Rightarrow> scheduler_command reaction raft_result \<Rightarrow> ha_reaction raft_result" where
  "ha_react s reaction =
     and_then reaction (\<lambda>r. and_then (pump (s\<lparr>ha_raft := fst r\<rparr>)) (\<lambda>s. Ok (s, snd r)))"

definition ha_tick :: "ha_scheduler \<Rightarrow> ha_reaction raft_result" where
  "ha_tick s = ha_react s (tick (ha_raft s))"

definition ha_handle :: "ha_scheduler \<Rightarrow> scheduler_command raft_message \<Rightarrow> ha_reaction raft_result" where
  "ha_handle s message = ha_react s (handle (ha_raft s) message)"

definition ha_propose :: "ha_scheduler \<Rightarrow> scheduler_command \<Rightarrow> (ha_scheduler \<times> nat option) raft_result" where
  "ha_propose s command =
     (case propose (ha_raft s) command of (raft, at) \<Rightarrow> and_then (pump (s\<lparr>ha_raft := raft\<rparr>)) (\<lambda>s. Ok (s, at)))"

definition enqueue :: "ha_scheduler \<Rightarrow> string \<Rightarrow> (ha_scheduler \<times> nat option) raft_result" where
  "enqueue s stage = ha_propose s (EnqueueStage stage)"

definition record_running :: "ha_scheduler \<Rightarrow> string \<Rightarrow> string \<Rightarrow> (ha_scheduler \<times> nat option) raft_result" where
  "record_running s stage peer = ha_propose s (StageRunning stage peer)"

definition record_complete :: "ha_scheduler \<Rightarrow> string \<Rightarrow> string \<Rightarrow> (ha_scheduler \<times> nat option) raft_result" where
  "record_complete s stage content_hash = ha_propose s (Complete stage content_hash)"

definition record_cloud_job :: "ha_scheduler \<Rightarrow> string \<Rightarrow> string \<Rightarrow> (ha_scheduler \<times> nat option) raft_result" where
  "record_cloud_job s stage job_id = ha_propose s (CloudJob stage job_id)"

section \<open>Dispatch\<close>

definition in_flight :: "stage_status option \<Rightarrow> bool" where
  "in_flight status \<longleftrightarrow> status \<in> {Some Dispatched, Some Running, Some Done}"

definition already_dispatched :: "ha_scheduler \<Rightarrow> string \<Rightarrow> dispatch_decision option" where
  "already_dispatched s stage =
     (case bt_get (ss_stages (ha_state s)) stage of
        Some r \<Rightarrow> if in_flight (sr_status r)
                  then Some (AlreadyDispatched stage (case sr_peer r of Some p \<Rightarrow> p | None \<Rightarrow> [])) else None
      | None \<Rightarrow> None)"

definition request_dispatch ::
    "ha_scheduler \<Rightarrow> string \<Rightarrow> string \<Rightarrow> string option \<Rightarrow> (ha_scheduler \<times> dispatch_decision) raft_result" where
  "request_dispatch s stage peer expected =
     (if rn_role (ha_raft s) \<noteq> Leader then Ok (s, NotLeader (rn_leader_hint (ha_raft s)))
      else if \<not> has_quorum s then Ok (s, NoQuorum)
      else case already_dispatched s stage of
        Some decision \<Rightarrow> Ok (s, decision)
      | None \<Rightarrow>
          (case propose (ha_raft s) (Dispatch stage peer expected) of
             (raft, None) \<Rightarrow> Ok (s\<lparr>ha_raft := raft\<rparr>, NotLeader (rn_leader_hint raft))
           | (raft, Some i) \<Rightarrow>
               and_then (pump (s\<lparr>ha_raft := raft\<rparr>)) (\<lambda>s.
               Ok (s, if i \<le> rn_commit_index (ha_raft s) then Committed stage peer i else AwaitingQuorum stage i))))"

definition poll_dispatch :: "ha_scheduler \<Rightarrow> string \<Rightarrow> nat \<Rightarrow> (ha_scheduler \<times> dispatch_decision) raft_result" where
  "poll_dispatch s stage i =
     and_then (pump s) (\<lambda>s.
     Ok (s, case bt_get (ss_stages (ha_state s)) stage of
              None \<Rightarrow> AwaitingQuorum stage i
            | Some r \<Rightarrow> (case sr_peer r of
                None \<Rightarrow> AwaitingQuorum stage i
              | Some peer \<Rightarrow> if i \<le> rn_commit_index (ha_raft s) then Committed stage peer i else AwaitingQuorum stage i)))"

section \<open>Reconciliation\<close>

definition reconcile_stage :: "scheduler_state \<Rightarrow> peer_report list \<Rightarrow> string \<Rightarrow> reconcile_action" where
  "reconcile_stage st reports stage =
     (let r = record_of st stage
      in case List.find (\<lambda>report. pr_stage report = stage) reports of
           None \<Rightarrow> Redispatch stage
         | Some report \<Rightarrow>
             (case pr_state report of
                PeerComplete content_hash \<Rightarrow>
                  (case sr_expected r of
                     Some expected \<Rightarrow> if expected \<noteq> content_hash then RejectedMismatch stage expected content_hash
                                      else Adopt stage content_hash
                   | None \<Rightarrow> Adopt stage content_hash)
              | PeerRunning \<Rightarrow> KeepRunning stage (pr_peer report)
              | PeerAbsent \<Rightarrow> Redispatch stage))"

definition reconcile :: "ha_scheduler \<Rightarrow> peer_report list \<Rightarrow> (ha_scheduler \<times> reconcile_action list) raft_result" where
  "reconcile s reports =
     and_then (pump s) (\<lambda>s. Ok (s, map (reconcile_stage (ha_state s) reports) (unresolved (ha_state s))))"

definition void_reason :: string where
  "void_reason = ''no live owner and no committed result''"

fun commit_action :: "scheduler_command raft_node \<Rightarrow> reconcile_action \<Rightarrow> scheduler_command raft_node" where
  "commit_action raft (Adopt stage content_hash) = fst (propose raft (Complete stage content_hash))"
| "commit_action raft (Redispatch stage) = fst (propose raft (VoidDispatch stage void_reason))"
| "commit_action raft (KeepRunning _ _) = raft"
| "commit_action raft (RejectedMismatch _ _ _) = raft"

definition commit_reconcile :: "ha_scheduler \<Rightarrow> reconcile_action list \<Rightarrow> ha_scheduler raft_result" where
  "commit_reconcile s actions = pump (s\<lparr>ha_raft := foldl commit_action (ha_raft s) actions\<rparr>)"

section \<open>The in-process cluster\<close>

record ha_cluster =
  hc_nodes :: "ha_scheduler list"
  hc_queue :: "(string \<times> scheduler_command outbound) list"
  hc_down :: "string list"

abbreviation ha_id :: "ha_scheduler \<Rightarrow> string" where
  "ha_id s \<equiv> rn_id (ha_raft s)"

definition new_cluster :: "string list \<Rightarrow> nat \<Rightarrow> ha_cluster raft_result" where
  "new_cluster ids election_timeout =
     and_then (try_map (\<lambda>(i, k). if int election_timeout + int k < 2 ^ 64
                                   then new_ha_scheduler i ids (election_timeout + k) else Panic)
                (zip ids [0..<length ids])) (\<lambda>nodes.
     Ok \<lparr>hc_nodes = nodes, hc_queue = [], hc_down = []\<rparr>)"

text \<open>\<open>self.nodes.iter().find(|n| n.id() == id)\<close>, its use and its replacement.\<close>

definition hc_node :: "ha_cluster \<Rightarrow> string \<Rightarrow> ha_scheduler raft_result" where
  "hc_node c i = (case List.find (\<lambda>s. ha_id s = i) (hc_nodes c) of Some s \<Rightarrow> Ok s | None \<Rightarrow> Panic)"

fun replace_node :: "ha_scheduler list \<Rightarrow> string \<Rightarrow> ha_scheduler \<Rightarrow> ha_scheduler list" where
  "replace_node [] i s = []"
| "replace_node (x # xs) i s = (if ha_id x = i then s # xs else x # replace_node xs i s)"

definition at_node :: "ha_cluster \<Rightarrow> string \<Rightarrow> (ha_scheduler \<Rightarrow> (ha_scheduler \<times> 'a) raft_result) \<Rightarrow> (ha_cluster \<times> 'a) raft_result" where
  "at_node c i f =
     and_then (hc_node c i) (\<lambda>s.
     and_then (f s) (\<lambda>(s, x). Ok (c\<lparr>hc_nodes := replace_node (hc_nodes c) i s\<rparr>, x)))"

definition is_down :: "ha_cluster \<Rightarrow> string \<Rightarrow> bool" where
  "is_down c i \<longleftrightarrow> i \<in> set (hc_down c)"

definition kill :: "ha_cluster \<Rightarrow> string \<Rightarrow> ha_cluster" where
  "kill c i =
     (let down = hc_down c @ [i]; live = filter (\<lambda>n. n \<notin> set down) (map ha_id (hc_nodes c))
      in c\<lparr>hc_down := down, hc_queue := filter (\<lambda>(from, ob). from \<noteq> i \<and> ob_to ob \<noteq> i) (hc_queue c),
           hc_nodes := map (\<lambda>s. set_reachable s live) (hc_nodes c)\<rparr>)"

definition enqueue_out :: "ha_cluster \<Rightarrow> string \<Rightarrow> scheduler_command outbound list \<Rightarrow> ha_cluster" where
  "enqueue_out c from out =
     c\<lparr>hc_queue := hc_queue c @ map (Pair from) (filter (\<lambda>ob. \<not> (is_down c (ob_to ob) \<or> is_down c from)) out)\<rparr>"

definition tick_all :: "ha_cluster \<Rightarrow> ha_cluster raft_result" where
  "tick_all c =
     try_fold (\<lambda>c i. and_then (at_node c i ha_tick) (\<lambda>(c, out). Ok (enqueue_out c i out)))
       c (filter (\<lambda>i. \<not> is_down c i) (map ha_id (hc_nodes c)))"

text \<open>\<open>deliver_all\<close> asserts that its budget lasts, so that the budget bounds the loop.\<close>

function deliver_budget :: "int \<Rightarrow> ha_cluster \<Rightarrow> ha_cluster raft_result" where
  "deliver_budget budget c =
     (case hc_queue c of
        [] \<Rightarrow> Ok c
      | (from, ob) # rest \<Rightarrow>
          if budget - 1 \<le> 0 then Panic
          else let c = c\<lparr>hc_queue := rest\<rparr>
               in if is_down c (ob_to ob) then deliver_budget (budget - 1) c
                  else and_then (at_node c (ob_to ob) (\<lambda>s. ha_handle s (ob_message ob))) (\<lambda>(c, replies).
                       deliver_budget (budget - 1) (enqueue_out c (ob_to ob) replies)))"
  by pat_completeness auto

termination deliver_budget
  by (relation "measure (\<lambda>(budget, c). nat budget)") auto

declare deliver_budget.simps [simp del]

definition deliver_all :: "ha_cluster \<Rightarrow> ha_cluster raft_result" where
  "deliver_all c = deliver_budget 10000 c"

definition cluster_round :: "ha_cluster \<Rightarrow> ha_cluster raft_result" where
  "cluster_round c = and_then (tick_all c) deliver_all"

definition hc_leader :: "ha_cluster \<Rightarrow> ha_scheduler option" where
  "hc_leader c = List.find (\<lambda>s. rn_role (ha_raft s) = Leader \<and> \<not> is_down c (ha_id s)) (hc_nodes c)"

fun settle :: "nat \<Rightarrow> ha_cluster \<Rightarrow> ha_cluster raft_result" where
  "settle 0 c = Panic"
| "settle (Suc rounds) c = and_then (cluster_round c) (\<lambda>c. if hc_leader c \<noteq> None then Ok c else settle rounds c)"

fun run_rounds :: "nat \<Rightarrow> ha_cluster \<Rightarrow> ha_cluster raft_result" where
  "run_rounds 0 c = Ok c"
| "run_rounds (Suc rounds) c = and_then (cluster_round c) (run_rounds rounds)"

definition hc_max_effective_dispatches :: "ha_cluster \<Rightarrow> nat" where
  "hc_max_effective_dispatches c =
     fold max (map (\<lambda>s. max_effective_dispatches (ha_state s)) (filter (\<lambda>s. \<not> is_down c (ha_id s)) (hc_nodes c))) 0"

section \<open>Proposals and the state machine\<close>

lemma propose_leader:
  assumes "rn_role n = Leader"
  shows "\<exists>m. propose n c = (m, Some (length (rn_log n) + 1)) \<and>
    rn_log m = rn_log n @ [\<lparr>le_term = rn_current_term n, le_command = c\<rparr>]"
  using assms by (simp add: propose_def Let_def advance_commit_def last_log_index_def)

lemma pump_Ok:
  assumes "pump s = Ok s'"
  shows "ha_raft s' = ha_raft s" and "rn_commit_index (ha_raft s) \<le> length (rn_log (ha_raft s))"
    and "apply_prefix (ha_state s) (take (rn_commit_index (ha_raft s)) (rn_log (ha_raft s))) = Ok (ha_state s')"
  using assms by (auto simp: pump_def committed_entries_def outcome_simps split: if_splits)

lemma try_fold_wf: "try_fold apply_entry st es = Ok st' \<Longrightarrow> bt_wf (ss_stages st) \<Longrightarrow> bt_wf (ss_stages st')"
  by (rule try_fold_invariant [of apply_entry st es st' "\<lambda>st. bt_wf (ss_stages st)"]) (auto intro: apply_entry_Ok(1))

text \<open>When the last entry of an applied prefix is a dispatch, its stage is assigned to its peer.\<close>

lemma applied_dispatch:
  assumes "apply_prefix st (p @ [e]) = Ok st'" and "ss_applied st \<le> length p" and "bt_wf (ss_stages st)"
    and "le_command e = Dispatch stage peer expected"
  shows "sr_status (record_of st' stage) = Some Dispatched \<and> sr_peer (record_of st' stage) = Some peer"
proof -
  obtain st1 where "try_fold apply_entry st (drop (ss_applied st) p) = Ok st1" and last: "apply_entry st1 e = Ok st'"
    using assms(1,2) by (auto simp: apply_prefix_def try_fold_append outcome_simps)
  then have "bt_wf (ss_stages st1)" using try_fold_wf assms(3) by blast
  from apply_entry_Ok(2) [OF last this] show ?thesis
    using assms(4) by (auto simp: u32_add_def outcome_simps split: if_splits)
qed

definition refused :: "ha_scheduler \<Rightarrow> string \<Rightarrow> dispatch_decision \<Rightarrow> bool" where
  "refused s stage decision \<longleftrightarrow>
     (case decision of
        NotLeader hint \<Rightarrow> rn_role (ha_raft s) \<noteq> Leader
      | NoQuorum \<Rightarrow> \<not> has_quorum s
      | AlreadyDispatched st p \<Rightarrow> st = stage \<and> in_flight (sr_status (record_of (ha_state s) stage))
      | _ \<Rightarrow> False)"

definition appended :: "ha_scheduler \<Rightarrow> ha_scheduler \<Rightarrow> scheduler_command \<Rightarrow> nat \<Rightarrow> bool" where
  "appended s s' command i \<longleftrightarrow> i = length (rn_log (ha_raft s)) + 1 \<and>
     rn_log (ha_raft s') = rn_log (ha_raft s) @ [\<lparr>le_term = rn_current_term (ha_raft s), le_command = command\<rparr>]"

lemma already_dispatched_Some:
  "already_dispatched s stage = Some d \<Longrightarrow>
   (\<exists>p. d = AlreadyDispatched stage p) \<and> in_flight (sr_status (record_of (ha_state s) stage))"
  by (auto simp: already_dispatched_def record_of_def split: option.splits if_splits)

lemma already_dispatched_None:
  "already_dispatched s stage = None \<Longrightarrow> \<not> in_flight (sr_status (record_of (ha_state s) stage))"
  by (auto simp: already_dispatched_def record_of_def default_record_def in_flight_def split: option.splits if_splits)

lemma request_dispatch_cases:
  assumes "request_dispatch s stage peer expected = Ok (s', d)"
  obtains (refuse) "s' = s" and "refused s stage d"
    | (propose) m where "rn_role (ha_raft s) = Leader" and "has_quorum s"
        and "\<not> in_flight (sr_status (record_of (ha_state s) stage))"
        and "propose (ha_raft s) (Dispatch stage peer expected) = (m, Some (length (rn_log (ha_raft s)) + 1))"
        and "rn_log m = rn_log (ha_raft s) @ [\<lparr>le_term = rn_current_term (ha_raft s), le_command = Dispatch stage peer expected\<rparr>]"
        and "pump (s\<lparr>ha_raft := m\<rparr>) = Ok s'"
        and "d = (if length (rn_log (ha_raft s)) + 1 \<le> rn_commit_index (ha_raft s')
                  then Committed stage peer (length (rn_log (ha_raft s)) + 1)
                  else AwaitingQuorum stage (length (rn_log (ha_raft s)) + 1))"
proof (cases "rn_role (ha_raft s) = Leader \<and> has_quorum s \<and> already_dispatched s stage = None")
  case True
  then obtain m where m: "propose (ha_raft s) (Dispatch stage peer expected) = (m, Some (length (rn_log (ha_raft s)) + 1))"
    "rn_log m = rn_log (ha_raft s) @ [\<lparr>le_term = rn_current_term (ha_raft s), le_command = Dispatch stage peer expected\<rparr>]"
    using propose_leader [of "ha_raft s" "Dispatch stage peer expected"] by (elim conjE) blast
  have pump: "pump (s\<lparr>ha_raft := m\<rparr>) = Ok s'" and d: "d = (if length (rn_log (ha_raft s)) + 1 \<le> rn_commit_index (ha_raft s')
      then Committed stage peer (length (rn_log (ha_raft s)) + 1) else AwaitingQuorum stage (length (rn_log (ha_raft s)) + 1))"
    using assms True by (auto simp: request_dispatch_def m(1) outcome_simps)
  have idle: "\<not> in_flight (sr_status (record_of (ha_state s) stage))" using True already_dispatched_None by blast
  show ?thesis by (rule propose [OF _ _ idle m pump d]) (use True in simp_all)
next
  case False
  have "s' = s \<and> refused s stage d"
  proof (cases "rn_role (ha_raft s) = Leader \<and> has_quorum s")
    case True
    then obtain x where x: "already_dispatched s stage = Some x" using False by auto
    then have "s' = s" and "d = x" using assms True by (simp_all add: request_dispatch_def)
    then show ?thesis using already_dispatched_Some [OF x] by (auto simp: refused_def)
  next
    case False
    then show ?thesis using assms by (auto simp: request_dispatch_def refused_def split: if_splits)
  qed
  then show ?thesis by (intro refuse) simp_all
qed

section \<open>Properties\<close>

text \<open>
  C7. Commit before dispatch: a request that is answered \<open>Committed\<close> appended its own dispatch to the
  log of a leader with a reachable quorum, that entry is committed and applied, and the stage is
  assigned to the requested peer; \<open>AwaitingQuorum\<close> means it was appended and is not committed; every
  other answer leaves the scheduler as it was, without quorum in particular.
\<close>

theorem request_dispatch_commits_first:
  assumes "request_dispatch s stage peer expected = Ok (s', d)" and "bt_wf (ss_stages (ha_state s))"
    and "ss_applied (ha_state s) \<le> length (rn_log (ha_raft s))"
  shows "case d of
      Committed st p i \<Rightarrow> st = stage \<and> p = peer \<and> rn_role (ha_raft s) = Leader \<and> has_quorum s \<and>
        \<not> in_flight (sr_status (record_of (ha_state s) stage)) \<and> appended s s' (Dispatch stage peer expected) i \<and>
        rn_commit_index (ha_raft s') = i \<and> ss_applied (ha_state s') = i \<and>
        sr_status (record_of (ha_state s') stage) = Some Dispatched \<and> sr_peer (record_of (ha_state s') stage) = Some peer
    | AwaitingQuorum st i \<Rightarrow> st = stage \<and> rn_role (ha_raft s) = Leader \<and> has_quorum s \<and>
        appended s s' (Dispatch stage peer expected) i \<and> rn_commit_index (ha_raft s') < i
    | _ \<Rightarrow> s' = s \<and> refused s stage d"
  using assms(1)
proof (cases rule: request_dispatch_cases)
  case refuse
  then show ?thesis by (auto simp: refused_def split: dispatch_decision.splits)
next
  case (propose m)
  let ?i = "length (rn_log (ha_raft s)) + 1" and ?c = "Dispatch stage peer expected"
  have raft: "ha_raft s' = m" using pump_Ok(1) [OF propose(6)] by simp
  have app: "appended s s' ?c ?i" using propose(5) raft by (simp add: appended_def)
  show ?thesis
  proof (cases "?i \<le> rn_commit_index m")
    case True
    then have "rn_commit_index m = ?i" using pump_Ok(2) [OF propose(6)] propose(5) by simp
    moreover from this have applied: "apply_prefix (ha_state s) (rn_log (ha_raft s) @
        [\<lparr>le_term = rn_current_term (ha_raft s), le_command = ?c\<rparr>]) = Ok (ha_state s')"
      using pump_Ok(3) [OF propose(6)] propose(5) by simp
    moreover have "ss_applied (ha_state s') = ?i"
      using sched.replay(1) [OF applied [unfolded apply_prefix_def]] assms(3) by simp
    ultimately show ?thesis
      using propose(1-3,7) app raft applied_dispatch [OF applied assms(3,2)] by simp
  next
    case False
    then show ?thesis using propose(1,2,7) app raft by simp
  qed
qed

definition lone_leader :: ha_scheduler where
  "lone_leader = \<lparr>ha_raft = \<lparr>rn_id = ''a'', rn_members = [''a''], rn_current_term = 1, rn_voted_for = Some ''a'', rn_log = [],
       rn_role = Leader, rn_commit_index = 0, rn_leader_hint = Some ''a'', rn_votes_granted = [''a''], rn_next_index = [],
       rn_match_index = [], rn_election_timeout = 1, rn_ticks_since_heard = 0\<rparr>,
     ha_state = new_scheduler_state, ha_reachable = [''a''], ha_members = [''a'']\<rparr>"

lemma lone_leader_elected: "and_then (new_ha_scheduler ''a'' [''a''] 1) ha_tick = Ok (lone_leader, [])"
  by code_simp

lemma lone_leader_dispatch:
  "(case request_dispatch lone_leader ''train'' ''p'' None of Ok (s', d) \<Rightarrow> Some d | _ \<Rightarrow> None) = Some (Committed ''train'' ''p'' 1)"
  by code_simp

theorem request_dispatch_commits_first_witness:
  "\<exists>s'. request_dispatch lone_leader ''train'' ''p'' None = Ok (s', Committed ''train'' ''p'' 1) \<and>
     ss_applied (ha_state s') = 1 \<and> sr_peer (record_of (ha_state s') ''train'') = Some ''p''"
proof -
  obtain s' where s': "request_dispatch lone_leader ''train'' ''p'' None = Ok (s', Committed ''train'' ''p'' 1)"
    using lone_leader_dispatch by (auto split: outcome.splits prod.splits)
  have "bt_wf (ss_stages (ha_state lone_leader))" "ss_applied (ha_state lone_leader) \<le> length (rn_log (ha_raft lone_leader))"
    by (simp_all add: lone_leader_def new_scheduler_state_def bt_empty_def)
  from request_dispatch_commits_first [OF s' this] show ?thesis using s' by auto
qed

section \<open>Reconciliation decides\<close>

fun action_stage :: "reconcile_action \<Rightarrow> string" where
  "action_stage (Adopt s _) = s"
| "action_stage (KeepRunning s _) = s"
| "action_stage (Redispatch s) = s"
| "action_stage (RejectedMismatch s _ _) = s"

fun action_command :: "reconcile_action \<Rightarrow> scheduler_command list" where
  "action_command (Adopt s h) = [Complete s h]"
| "action_command (Redispatch s) = [VoidDispatch s void_reason]"
| "action_command _ = []"

text \<open>What a decision means for the record of its stage, once its entry is applied.\<close>

fun action_effect :: "reconcile_action \<Rightarrow> stage_record \<Rightarrow> stage_record" where
  "action_effect (Adopt _ h) r = r\<lparr>sr_status := Some Done, sr_content_hash := Some h\<rparr>"
| "action_effect (Redispatch _) r = r\<lparr>sr_status := Some Queued, sr_peer := None, sr_voided_dispatches := sr_voided_dispatches r + 1\<rparr>"
| "action_effect (KeepRunning _ _) r = r"
| "action_effect (RejectedMismatch _ _ _) r = r"

text \<open>What the first report on the stage and the committed expectation must be for a decision.\<close>

definition first_report :: "peer_report list \<Rightarrow> string \<Rightarrow> peer_report option" where
  "first_report reports stage = List.find (\<lambda>report. pr_stage report = stage) reports"

definition justified :: "scheduler_state \<Rightarrow> peer_report list \<Rightarrow> reconcile_action \<Rightarrow> bool" where
  "justified st reports action \<longleftrightarrow>
     (case action of
        Adopt stage h \<Rightarrow> map_option pr_state (first_report reports stage) = Some (PeerComplete h) \<and>
          (sr_expected (record_of st stage) = None \<or> sr_expected (record_of st stage) = Some h)
      | RejectedMismatch stage e h \<Rightarrow> map_option pr_state (first_report reports stage) = Some (PeerComplete h) \<and>
          sr_expected (record_of st stage) = Some e \<and> e \<noteq> h
      | KeepRunning stage p \<Rightarrow> map_option pr_state (first_report reports stage) = Some PeerRunning \<and>
          map_option pr_peer (first_report reports stage) = Some p
      | Redispatch stage \<Rightarrow> first_report reports stage = None \<or>
          map_option pr_state (first_report reports stage) = Some PeerAbsent)"

lemma action_stage_reconcile [simp]: "action_stage (reconcile_stage st reports s) = s"
  by (auto simp: reconcile_stage_def Let_def split: option.split peer_stage_state.split)

lemma reconcile_stage_justified: "justified st reports (reconcile_stage st reports s)"
  by (auto simp: justified_def first_report_def reconcile_stage_def Let_def split: option.split peer_stage_state.split)

lemma unresolved_stages:
  assumes "bt_wf (ss_stages st)"
  shows "sorted_wrt (<) (unresolved st)"
    and "set (unresolved st) = {stage. sr_status (record_of st stage) = Some Dispatched \<or> sr_status (record_of st stage) = Some Running}"
proof -
  show "sorted_wrt (<) (unresolved st)"
    using assms by (auto simp: unresolved_def bt_wf_def sorted_wrt_map intro: sorted_wrt_filter)
  have "stage \<in> set (unresolved st) \<longleftrightarrow>
      (\<exists>r. bt_get (ss_stages st) stage = Some r \<and> (sr_status r = Some Dispatched \<or> sr_status r = Some Running))" for stage
    by (force simp: unresolved_def bt.lookup_iff_entry [OF assms])
  then show "set (unresolved st) = {stage. sr_status (record_of st stage) = Some Dispatched \<or> sr_status (record_of st stage) = Some Running}"
    by (auto simp: record_of_def default_record_def split: option.splits)
qed

lemma commit_actions_log:
  "rn_role n = Leader \<Longrightarrow> rn_log (foldl commit_action n actions) =
     rn_log n @ map (\<lambda>c. \<lparr>le_term = rn_current_term n, le_command = c\<rparr>) (concat (map action_command actions))"
proof (induction actions arbitrary: n)
  case (Cons a actions)
  have "rn_role (commit_action n a) = Leader" "rn_current_term (commit_action n a) = rn_current_term n"
      "rn_log (commit_action n a) = rn_log n @ map (\<lambda>c. \<lparr>le_term = rn_current_term n, le_command = c\<rparr>) (action_command a)"
    using Cons.prems by (cases a; simp add: propose_def Let_def advance_commit_def)+
  then show ?case using Cons.IH [of "commit_action n a"] by simp
qed simp

lemma apply_action:
  assumes "try_fold apply_entry st (map (\<lambda>c. \<lparr>le_term = n, le_command = c\<rparr>) (action_command a)) = Ok t"
    and "bt_wf (ss_stages st)" and "sr_status (record_of st (action_stage a)) \<noteq> Some Done"
  shows "bt_wf (ss_stages t)"
    and "record_of t = (record_of st)(action_stage a := action_effect a (record_of st (action_stage a)))"
proof -
  have "bt_wf (ss_stages t) \<and> record_of t = (record_of st)(action_stage a := action_effect a (record_of st (action_stage a)))"
  proof (cases "action_command a")
    case Nil
    then have "action_effect a = (\<lambda>r. r)" by (cases a) auto
    then show ?thesis using assms(1,2) Nil by auto
  next
    case (Cons c cs)
    then have c: "cs = []" "command_stage c = action_stage a"
        "apply_record r c = Ok r' \<Longrightarrow> sr_status r \<noteq> Some Done \<Longrightarrow> r' = action_effect a r" for r r'
      by (cases a; auto simp: u32_add_def outcome_simps split: if_splits)+
    have e: "apply_entry st \<lparr>le_term = n, le_command = c\<rparr> = Ok t" using assms(1) by (auto simp: Cons c(1) outcome_simps)
    show ?thesis using apply_entry_Ok [OF e assms(2)] c(2,3) assms(3) by auto
  qed
  then show "bt_wf (ss_stages t)" "record_of t = (record_of st)(action_stage a := action_effect a (record_of st (action_stage a)))"
    by simp_all
qed

lemma apply_actions:
  assumes "try_fold apply_entry st (map (\<lambda>c. \<lparr>le_term = n, le_command = c\<rparr>) (concat (map action_command actions))) = Ok t"
    and "bt_wf (ss_stages st)" and "distinct (map action_stage actions)"
    and "\<forall>a \<in> set actions. sr_status (record_of st (action_stage a)) \<noteq> Some Done"
  shows "(\<forall>a \<in> set actions. record_of t (action_stage a) = action_effect a (record_of st (action_stage a))) \<and>
    (\<forall>stage. stage \<notin> action_stage ` set actions \<longrightarrow> record_of t stage = record_of st stage)"
  using assms
proof (induction actions arbitrary: st)
  case (Cons a actions)
  obtain st1 where st1: "try_fold apply_entry st (map (\<lambda>c. \<lparr>le_term = n, le_command = c\<rparr>) (action_command a)) = Ok st1"
    and rest: "try_fold apply_entry st1 (map (\<lambda>c. \<lparr>le_term = n, le_command = c\<rparr>) (concat (map action_command actions))) = Ok t"
    using Cons.prems(1) by (auto simp: try_fold_append outcome_simps)
  have one: "bt_wf (ss_stages st1)" "record_of st1 = (record_of st)(action_stage a := action_effect a (record_of st (action_stage a)))"
    using apply_action [OF st1 Cons.prems(2)] Cons.prems(4) by auto
  have "action_stage a \<notin> action_stage ` set actions" using Cons.prems(3) by simp
  then have other: "action_stage b \<noteq> action_stage a" if "b \<in> set actions" for b using that by (metis imageI)
  show ?case using Cons.IH [OF rest one(1)] Cons.prems(3,4) other by (auto simp: one(2))
qed simp

text \<open>
  C10. Reconciliation decides exactly once, in the order of the stages, about every stage whose committed
  status is dispatched or running and about no other. Each decision is forced by the FIRST report on
  its stage, later reports being ignored: a completed result is adopted when the committed
  expectation is absent or equals its hash and rejected when it differs, a running report keeps the
  reporting peer, and an absent report or none at all re-dispatches. Committing the decisions of a
  leader appends one completion per adoption and one void per re-dispatch, in order, and nothing for
  the others; when those entries are applied to the state decided upon, adopted stages are done with
  the reported hash, re-dispatched stages are queued without a peer and with one more void, and every
  other stage is as it was.
\<close>

theorem reconcile_decides:
  assumes "reconcile s reports = Ok (s', actions)" and "commit_reconcile s' actions = Ok s''" and "rn_role (ha_raft s) = Leader"
    and "bt_wf (ss_stages (ha_state s))"
  shows "sorted_wrt (<) (map action_stage actions) \<and>
    set (map action_stage actions) =
      {stage. sr_status (record_of (ha_state s') stage) = Some Dispatched \<or> sr_status (record_of (ha_state s') stage) = Some Running} \<and>
    (\<forall>action \<in> set actions. justified (ha_state s') reports action) \<and>
    rn_log (ha_raft s'') = rn_log (ha_raft s) @
      map (\<lambda>c. \<lparr>le_term = rn_current_term (ha_raft s), le_command = c\<rparr>) (concat (map action_command actions)) \<and>
    (\<forall>t. ss_applied (ha_state s') = length (rn_log (ha_raft s)) \<longrightarrow> apply_prefix (ha_state s') (rn_log (ha_raft s'')) = Ok t \<longrightarrow>
      (\<forall>action \<in> set actions. record_of t (action_stage action) = action_effect action (record_of (ha_state s') (action_stage action))) \<and>
      (\<forall>stage. stage \<notin> action_stage ` set actions \<longrightarrow> record_of t stage = record_of (ha_state s') stage))"
proof -
  have actions: "actions = map (reconcile_stage (ha_state s') reports) (unresolved (ha_state s'))" and pump: "pump s = Ok s'"
    using assms(1) by (auto simp: reconcile_def outcome_simps)
  have wf: "bt_wf (ss_stages (ha_state s'))"
    using pump_Ok(3) [OF pump] try_fold_wf assms(4) by (auto simp: apply_prefix_def)
  have stages: "map action_stage actions = unresolved (ha_state s')" by (simp add: actions comp_def)
  note sorted = unresolved_stages [OF wf, folded stages]
  have "ha_raft s'' = foldl commit_action (ha_raft s) actions"
    using assms(2) pump_Ok(1) [OF pump] pump_Ok(1) by (fastforce simp: commit_reconcile_def)
  then have log: "rn_log (ha_raft s'') = rn_log (ha_raft s) @
      map (\<lambda>c. \<lparr>le_term = rn_current_term (ha_raft s), le_command = c\<rparr>) (concat (map action_command actions))"
    using commit_actions_log [OF assms(3)] by simp
  have "distinct (map action_stage actions)" using sorted(1) by (metis strict_sorted_iff)
  moreover have "\<forall>a \<in> set actions. sr_status (record_of (ha_state s') (action_stage a)) \<noteq> Some Done"
  proof
    fix a assume "a \<in> set actions"
    then have "action_stage a \<in> set (map action_stage actions)" by simp
    then show "sr_status (record_of (ha_state s') (action_stage a)) \<noteq> Some Done" unfolding sorted(2) by auto
  qed
  ultimately have "(\<forall>action \<in> set actions. record_of t (action_stage action) = action_effect action (record_of (ha_state s') (action_stage action))) \<and>
      (\<forall>stage. stage \<notin> action_stage ` set actions \<longrightarrow> record_of t stage = record_of (ha_state s') stage)"
    if "ss_applied (ha_state s') = length (rn_log (ha_raft s))" "apply_prefix (ha_state s') (rn_log (ha_raft s'')) = Ok t" for t
    using apply_actions [OF _ wf] that by (simp add: apply_prefix_def log)
  then show ?thesis using sorted log by (auto simp: actions reconcile_stage_justified)
qed

text \<open>A leader on its own that dispatched four stages, and reports that lead to the four decisions.\<close>

definition dispatched_leader :: ha_scheduler where
  "dispatched_leader =
     foldl (\<lambda>s stage. case request_dispatch s stage ''p'' (Some ''h'') of Ok (s, _) \<Rightarrow> s | _ \<Rightarrow> s) lone_leader [''d'', ''b'', ''a'', ''c'']"

definition sample_reports :: "peer_report list" where
  "sample_reports = map (\<lambda>(stage, p, state). \<lparr>pr_stage = stage, pr_peer = p, pr_state = state\<rparr>)
     [(''b'', ''q'', PeerComplete ''x''), (''c'', ''q'', PeerRunning), (''a'', ''p'', PeerComplete ''h''), (''c'', ''p'', PeerComplete ''h'')]"

definition sample_actions :: "reconcile_action list" where
  "sample_actions = [Adopt ''a'' ''h'', RejectedMismatch ''b'' ''h'' ''x'', KeepRunning ''c'' ''q'', Redispatch ''d'']"

lemma dispatched_leader_reconciles:
  "(case reconcile dispatched_leader sample_reports of
      Ok (s', actions) \<Rightarrow> Some (actions, case commit_reconcile s' actions of Ok s'' \<Rightarrow>
        apply_prefix (ha_state s') (rn_log (ha_raft s'')) = Ok (ha_state s'') \<and>
        ss_applied (ha_state s') = length (rn_log (ha_raft dispatched_leader)) | _ \<Rightarrow> False)
    | _ \<Rightarrow> None) = Some (sample_actions, True)"
  "rn_role (ha_raft dispatched_leader) = Leader" "bt_wf (ss_stages (ha_state dispatched_leader))"
  by code_simp+

theorem reconcile_decides_witness:
  "\<exists>s' s''. reconcile dispatched_leader sample_reports = Ok (s', sample_actions) \<and>
     commit_reconcile s' sample_actions = Ok s'' \<and>
     map le_command (drop 4 (rn_log (ha_raft s''))) = [Complete ''a'' ''h'', VoidDispatch ''d'' void_reason] \<and>
     sr_status (record_of (ha_state s'') ''a'') = Some Done \<and> sr_status (record_of (ha_state s'') ''d'') = Some Queued \<and>
     record_of (ha_state s'') ''c'' = record_of (ha_state s') ''c''"
proof -
  obtain s' s'' where run: "reconcile dispatched_leader sample_reports = Ok (s', sample_actions)"
      "commit_reconcile s' sample_actions = Ok s''"
    and applied: "apply_prefix (ha_state s') (rn_log (ha_raft s'')) = Ok (ha_state s'')"
      "ss_applied (ha_state s') = length (rn_log (ha_raft dispatched_leader))"
    using dispatched_leader_reconciles(1) by (auto split: outcome.splits prod.splits)
  have four: "length (rn_log (ha_raft dispatched_leader)) = 4" by code_simp
  note decided = reconcile_decides [OF run dispatched_leader_reconciles(2,3)]
  from decided applied have "\<forall>action \<in> set sample_actions. record_of (ha_state s'') (action_stage action) =
      action_effect action (record_of (ha_state s') (action_stage action))" by blast
  moreover from decided have "map le_command (drop 4 (rn_log (ha_raft s''))) = [Complete ''a'' ''h'', VoidDispatch ''d'' void_reason]"
    by (simp add: sample_actions_def four)
  ultimately show ?thesis using run by (auto simp: sample_actions_def)
qed

section \<open>Two requests before a commit\<close>

lemma apply_prefix_take:
  assumes "apply_prefix st (take c log) = Ok st'" and "ss_applied st \<le> length log"
  shows "apply_prefix st' log = apply_prefix st log" and "ss_applied st' \<le> length log"
proof -
  have "apply_prefix st' log = apply_prefix st log \<and> ss_applied st' \<le> length log"
  proof (cases "ss_applied st \<le> length (take c log)")
    case True
    then show ?thesis
      using sched.replay(1) [OF assms(1) [unfolded apply_prefix_def]] sched.replay(2) [OF assms(1) [unfolded apply_prefix_def], of "drop c log"]
      by (simp add: apply_prefix_def)
  next
    case False
    then show ?thesis using assms by (simp add: apply_prefix_def)
  qed
  then show "apply_prefix st' log = apply_prefix st log" "ss_applied st' \<le> length log" by simp_all
qed

lemma apply_prefix_append:
  assumes "apply_prefix st (log @ es) = Ok st'" and "ss_applied st \<le> length log"
  obtains st0 where "apply_prefix st log = Ok st0" and "try_fold apply_entry st0 es = Ok st'"
  using assms by (auto simp: apply_prefix_def try_fold_append outcome_simps)

lemma two_dispatches:
  assumes "try_fold apply_entry st [e1, e2] = Ok st'" and "bt_wf (ss_stages st)"
    and "le_command e1 = Dispatch stage p e" and "le_command e2 = Dispatch stage q f"
  shows "sr_peer (record_of st' stage) = Some q"
    and "sr_dispatch_count (record_of st' stage) = sr_dispatch_count (record_of st stage) + 2"
    and "sr_voided_dispatches (record_of st' stage) = sr_voided_dispatches (record_of st stage)"
proof -
  obtain st1 where st1: "apply_entry st e1 = Ok st1" and st': "apply_entry st1 e2 = Ok st'"
    using assms(1) by (auto simp: outcome_simps)
  have "record_of st' stage = (record_of st' stage)\<lparr>sr_peer := Some q,
      sr_dispatch_count := sr_dispatch_count (record_of st stage) + 2, sr_voided_dispatches := sr_voided_dispatches (record_of st stage)\<rparr>"
    using apply_entry_Ok(2) [OF st1 assms(2)] apply_entry_Ok(2) [OF st' apply_entry_Ok(1) [OF st1 assms(2)]] assms(3,4)
    by (auto simp: u32_add_def outcome_simps split: if_splits)
  then show "sr_peer (record_of st' stage) = Some q"
    "sr_dispatch_count (record_of st' stage) = sr_dispatch_count (record_of st stage) + 2"
    "sr_voided_dispatches (record_of st' stage) = sr_voided_dispatches (record_of st stage)"
    by (metis stage_record.select_convs stage_record.surjective stage_record.update_convs)+
qed

lemma request_dispatch_awaiting:
  assumes "request_dispatch s stage p e = Ok (s1, AwaitingQuorum stage i)"
  shows "rn_role (ha_raft s1) = Leader" and "has_quorum s1" and "appended s s1 (Dispatch stage p e) i"
    and "apply_prefix (ha_state s) (take (rn_commit_index (ha_raft s1)) (rn_log (ha_raft s1))) = Ok (ha_state s1)"
proof -
  obtain m where propose: "rn_role (ha_raft s) = Leader" "has_quorum s"
      "propose (ha_raft s) (Dispatch stage p e) = (m, Some (length (rn_log (ha_raft s)) + 1))"
      "rn_log m = rn_log (ha_raft s) @ [\<lparr>le_term = rn_current_term (ha_raft s), le_command = Dispatch stage p e\<rparr>]"
      "pump (s\<lparr>ha_raft := m\<rparr>) = Ok s1" "i = length (rn_log (ha_raft s)) + 1"
    using assms by (cases rule: request_dispatch_cases) (auto simp: refused_def split: if_splits)
  have raft: "ha_raft s1 = m" using pump_Ok(1) [OF propose(5)] by simp
  show "rn_role (ha_raft s1) = Leader"
    using propose(1,3) by (auto simp: raft propose_def Let_def advance_commit_def)
  have "s1 = s\<lparr>ha_raft := m, ha_state := ha_state s1\<rparr>"
    using propose(5) by (auto simp: pump_def outcome_simps)
  then show "has_quorum s1"
    using propose(2) by (metis ha_scheduler.select_convs(3,4) ha_scheduler.surjective ha_scheduler.update_convs(1,2) has_quorum_def ha_quorum_def)
  show "appended s s1 (Dispatch stage p e) i" using propose(4,6) by (simp add: appended_def raft)
  show "apply_prefix (ha_state s) (take (rn_commit_index (ha_raft s1)) (rn_log (ha_raft s1))) = Ok (ha_state s1)"
    using pump_Ok(3) [OF propose(5)] by (simp add: raft)
qed

text \<open>
  C12. The guard against double dispatch reads committed entries only, so it does not hold between a
  proposal and its commit. Whenever a leader has answered \<open>AwaitingQuorum\<close> to a request for a stage and
  the entries committed so far leave the stage unassigned, a second request for the same stage, for
  any peer, is accepted as well and appended right behind the first; and once both entries are
  committed, polling the index of the first answers with the peer of the second, and the stage counts
  two more dispatches and no more voids than before: two effective dispatches at least.
\<close>

theorem dispatch_not_exclusive:
  assumes "request_dispatch s stage p e = Ok (s1, AwaitingQuorum stage i)"
    and "\<not> in_flight (sr_status (record_of (ha_state s1) stage))"
    and "request_dispatch s1 stage q f = Ok (s2, d)"
    and "bt_wf (ss_stages (ha_state s))" and "ss_applied (ha_state s) \<le> length (rn_log (ha_raft s))"
    and "ha_state u = ha_state s2" and "rn_log (ha_raft u) = rn_log (ha_raft s2)" and "rn_commit_index (ha_raft u) = i + 1"
    and "poll_dispatch u stage i = Ok (u', answer)"
  shows "appended s s1 (Dispatch stage p e) i \<and> appended s1 s2 (Dispatch stage q f) (i + 1) \<and>
    d \<in> {AwaitingQuorum stage (i + 1), Committed stage q (i + 1)} \<and>
    answer = Committed stage q i \<and>
    (\<exists>before. apply_prefix (ha_state s) (rn_log (ha_raft s)) = Ok before \<and>
      sr_dispatch_count (record_of (ha_state u') stage) = sr_dispatch_count (record_of before stage) + 2 \<and>
      sr_voided_dispatches (record_of (ha_state u') stage) = sr_voided_dispatches (record_of before stage) \<and>
      (sr_voided_dispatches (record_of before stage) \<le> sr_dispatch_count (record_of before stage) \<longrightarrow>
         2 \<le> effective_dispatches (record_of (ha_state u') stage)))"
  using assms(3)
proof (cases rule: request_dispatch_cases)
  case refuse
  then show ?thesis using request_dispatch_awaiting(1,2) [OF assms(1)] assms(2) by (auto simp: refused_def split: dispatch_decision.splits)
next
  case (propose m)
  note first = request_dispatch_awaiting [OF assms(1)]
  have raft: "ha_raft s2 = m" using pump_Ok(1) [OF propose(6)] by simp
  have i: "length (rn_log (ha_raft s1)) = i" "i = length (rn_log (ha_raft s)) + 1" using first(3) by (auto simp: appended_def)
  have second: "appended s1 s2 (Dispatch stage q f) (i + 1)" using propose(5) i raft by (simp add: appended_def)
  obtain e1 e2 where log: "rn_log (ha_raft u) = rn_log (ha_raft s) @ [e1, e2]" "rn_log (ha_raft s1) = rn_log (ha_raft s) @ [e1]"
    and cmd: "le_command e1 = Dispatch stage p e" "le_command e2 = Dispatch stage q f"
    using first(3) second assms(7) by (auto simp: appended_def)
  have tail: "rn_log (ha_raft u) = rn_log (ha_raft s1) @ [e2]" using log by simp
  have pump: "pump u = Ok u'" using assms(9) by (auto simp: poll_dispatch_def outcome_simps)
  have "apply_prefix (ha_state s1) (take (rn_commit_index m) (rn_log (ha_raft u))) = Ok (ha_state u)"
    using pump_Ok(3) [OF propose(6)] assms(6,7) raft by simp
  moreover have "apply_prefix (ha_state u) (rn_log (ha_raft u)) = Ok (ha_state u')"
    using pump_Ok(3) [OF pump] assms(8) log(1) i by simp
  moreover have one: "apply_prefix (ha_state s) (take (min (rn_commit_index (ha_raft s1)) i) (rn_log (ha_raft u))) = Ok (ha_state s1)"
    using first(4) i unfolding tail by (auto simp: min_def)
  moreover have len: "ss_applied (ha_state s) \<le> length (rn_log (ha_raft u))" using assms(5) log(1) by simp
  ultimately have "apply_prefix (ha_state s) (rn_log (ha_raft u)) = Ok (ha_state u')"
    using apply_prefix_take by metis
  then obtain before where before: "apply_prefix (ha_state s) (rn_log (ha_raft s)) = Ok before"
      "try_fold apply_entry before [e1, e2] = Ok (ha_state u')"
    using apply_prefix_append assms(5) unfolding log(1) by blast
  have "bt_wf (ss_stages before)" using before(1) try_fold_wf assms(4) by (auto simp: apply_prefix_def)
  note two = two_dispatches [OF before(2) this cmd]
  have "bt_get (ss_stages (ha_state u')) stage = Some (record_of (ha_state u') stage)"
    using two(1) by (auto simp: record_of_def default_record_def split: option.splits)
  then have "answer = Committed stage q i"
    using assms(9) pump two(1) assms(8) pump_Ok(1) [OF pump] by (auto simp: poll_dispatch_def outcome_simps)
  moreover have "d \<in> {AwaitingQuorum stage (i + 1), Committed stage q (i + 1)}" using propose(7) i by auto
  ultimately show ?thesis using first(3) second before(1) two(2,3) by (auto simp: effective_dispatches_def)
qed

text \<open>The leader of the in-process cluster of three, once it is elected.\<close>

definition trio_leader :: ha_scheduler where
  "trio_leader =
     (case and_then (new_cluster [''a'', ''b'', ''c''] 2) (settle 9) of
        Ok c \<Rightarrow> (case hc_leader c of Some s \<Rightarrow> s | None \<Rightarrow> lone_leader)
      | _ \<Rightarrow> lone_leader)"

definition commit_to :: "ha_scheduler \<Rightarrow> nat \<Rightarrow> ha_scheduler" where
  "commit_to s i = s\<lparr>ha_raft := (ha_raft s)\<lparr>rn_commit_index := i\<rparr>\<rparr>"

lemma trio_leader_requests:
  "(case request_dispatch trio_leader ''train'' ''p'' None of
      Ok (s1, d1) \<Rightarrow> (case request_dispatch s1 ''train'' ''q'' None of
        Ok (s2, d2) \<Rightarrow> (case poll_dispatch (commit_to s2 2) ''train'' 1 of
          Ok (u', answer) \<Rightarrow> Some (d1, in_flight (sr_status (record_of (ha_state s1) ''train'')), d2)
        | _ \<Rightarrow> None) | _ \<Rightarrow> None) | _ \<Rightarrow> None) =
   Some (AwaitingQuorum ''train'' 1, False, AwaitingQuorum ''train'' 2)"
  "bt_wf (ss_stages (ha_state trio_leader))" "ss_applied (ha_state trio_leader) = 0"
  by code_simp+

theorem dispatch_not_exclusive_witness:
  "\<exists>s1 s2 u'. request_dispatch trio_leader ''train'' ''p'' None = Ok (s1, AwaitingQuorum ''train'' 1) \<and>
     request_dispatch s1 ''train'' ''q'' None = Ok (s2, AwaitingQuorum ''train'' 2) \<and>
     poll_dispatch (commit_to s2 2) ''train'' 1 = Ok (u', Committed ''train'' ''q'' 1)"
proof -
  obtain s1 s2 u' answer where run: "request_dispatch trio_leader ''train'' ''p'' None = Ok (s1, AwaitingQuorum ''train'' 1)"
      "\<not> in_flight (sr_status (record_of (ha_state s1) ''train''))"
      "request_dispatch s1 ''train'' ''q'' None = Ok (s2, AwaitingQuorum ''train'' 2)"
    and poll: "poll_dispatch (commit_to s2 2) ''train'' 1 = Ok (u', answer)"
    using trio_leader_requests(1) by (auto split: outcome.splits prod.splits)
  have "answer = Committed ''train'' ''q'' 1"
    using dispatch_not_exclusive [OF run trio_leader_requests(2) _ _ _ _ poll] trio_leader_requests(3) by (simp add: commit_to_def)
  then show ?thesis using run poll by blast
qed

end
