(* ===== verification/Spec2Isabelle.thy ===== *)
theory Spec2Isabelle
  imports Authorize Graph_Identity Mcu Compiler Raft_Runs Ha
begin

text \<open>
  A verification development for blut, a Rust engine that compiles typed semantic graphs to physical
  plans, executes the plans on a host or on firmware, and dispatches training stages through a
  replicated scheduler. Two parts of the program are modelled, definition by definition: the graph
  compiler \<open>src/crates/blut-graph-core/src\<close> and the replicated scheduler \<open>src/src/raft\<close>. File names below
  are relative to \<open>src/\<close>.

  \<^bold>\<open>The program.\<close> A \<open>Graph\<close> joins nodes by typed ports. A \<open>KernelRegistry\<close> holds the descriptors of the
  node types, hierarchical subgraph schemas and the kernels that implement the node types.
  \<open>Compiler::compile\<close> admits a graph (\<open>config.rs\<close>, \<open>verify_edges\<close>, \<open>topological_order\<close>,
  \<open>propagate_contracts\<close>), enumerates the ways to fuse its nodes into regions, tries every assignment of
  kernels, lowers each to steps and buffers (inserting layout conversions), keeps the best, and hashes
  the result into a \<open>CompiledPlan\<close>. A plan travels as bytes (\<open>wire.rs\<close>), is authorized against the
  registry on arrival (\<open>decode_authorized_plan\<close>), and is run by \<open>PlanExecutor\<close> (\<open>execute.rs\<close>) or by the
  allocation-free firmware executor (\<open>mcu.rs\<close>). Beside it, \<open>raft/\<close> replicates the decisions of the stage
  scheduler: \<open>RaftNode\<close> elects leaders and replicates a log, \<open>SchedulerState\<close> folds the committed log,
  \<open>HaScheduler\<close> commits every dispatch before acting on it and reconciles after a failover.

  \<^bold>\<open>How Rust is modelled.\<close> Fixed-width integers are words and their checked operations return \<open>None\<close> on
  overflow; \<open>usize\<close> is \<open>nat\<close> with its bound written out where the code checks it. A fallible function
  returns an \<open>outcome\<close>: \<open>Ok\<close>, \<open>Err\<close> with the source's error, or \<open>Panic\<close> for \<open>expect\<close>, indexing out of
  range and arithmetic overflow (the behaviour of a build with overflow checks; a release build wraps
  where the model panics), so that the absence of panics is a theorem. A \<open>BTreeMap\<close> is a sorted
  association list, structs are records and enums datatypes with the source's fields and variants, a
  loop is a fold (\<open>try_fold\<close>) or a recursion with a termination proof or explicit fuel. Code outside the
  repository is a parameter: the BLAKE3 hasher, the postcard codec (with the round-trip law it documents
  as a named hypothesis), the kernels and the transaction sink. No property assumes the hash injective:
  where an identity matters the alternative is an explicit collision.

  \<^bold>\<open>The theories.\<close>
  \<^item> \<open>Prelude\<close>, \<open>Std_Collections\<close>: outcomes, checked arithmetic, the standard library's sorting,
    searching, maps and iterators, with the simplification rules the other theories use.
  \<^item> \<open>Graph_Model\<close> (\<open>model.rs\<close>): the data of graphs, descriptors, kernels and plans. \<open>Samples\<close>: concrete
    ones for the witnesses.
  \<^item> \<open>Config\<close> (\<open>config.rs\<close>): normalisation of schemas is canonical and independent of the order of
    declaration; canonicalisation of values succeeds exactly on acceptable configurations.
  \<^item> \<open>Contracts\<close>, \<open>Topology\<close>, \<open>Propagate\<close>, \<open>Edges\<close> (admission in \<open>compile.rs\<close>): the order is the
    least-first Kahn order and exists exactly on acyclic graphs; contract propagation is the meet over
    all paths; edge verification accepts exactly the well-connected graphs.
  \<^item> \<open>Hashing\<close>, \<open>Graph_Identity\<close>: the byte encodings under the identities of plans, subgraph schemas and
    graphs are injective up to the canonical order of their parts, so an identity commits to what it names
    unless two given encodings collide.
  \<^item> \<open>Registry\<close>: registration keeps the registry well-formed, the walks over the subgraph hierarchy end
    and are bounded, materialisation succeeds on complete configurations. \<open>Authorize\<close>: what an authorized
    plan guarantees.
  \<^item> \<open>Conversion\<close>, \<open>Regions\<close>, \<open>Buffers\<close>, \<open>Lowering\<close>, \<open>Feedback\<close>, \<open>Selection\<close>, \<open>Compiler\<close>: the back end.
    The conversion search is optimal, the region candidates are exactly the tilings by fusible runs,
    the selected plan has the least score of all assignments, sharing of storage respects lifetimes.
  \<^item> \<open>Wire\<close> (\<open>wire.rs\<close>): decoding inverts encoding, never panics, and what it accepts has safe storage
    and an exact peak.
  \<^item> \<open>Execute\<close>, \<open>Execute_Liveness\<close> (\<open>execute.rs\<close>): the transaction protocol, the receipts, completion of
    executable plans, that early release of buffers is unobservable, and that the keys under which the
    sink sees transactions separate runs. \<open>Mcu\<close> (\<open>mcu.rs\<close>): exact arena
    sizes, and refinement of the host executor by the firmware executor.
  \<^item> \<open>Raft\<close> (\<open>raft/consensus.rs\<close>), \<open>Raft_Safety\<close>, \<open>Raft_Runs\<close>: a cluster as an inductive step relation in
    which any message ever sent may be delivered at any time, repeatedly or never; election safety and
    log matching hold in every reachable state, and a reachable state shows that committed entries may
    diverge because of what a follower acknowledges.
  \<^item> \<open>Scheduler\<close> (\<open>raft/state.rs\<close>): applying committed prefixes is replaying the log. \<open>Ha\<close> (\<open>raft/ha.rs\<close>,
    \<open>raft/mod.rs\<close>): dispatches are committed first, reconciliation decides each unresolved stage once, by
    the first report on it, and the window in which a stage can be dispatched twice.

  \<^bold>\<open>Interfaces.\<close> \<open>ordered_map\<close> is what clients use of a \<open>BTreeMap\<close>; \<open>prefix_code\<close> the self-delimiting
  encodings under the hashes, interpreted for every encoder; \<open>kahn\<close> the work-list loop shared by the
  topological order and the acyclicity check; \<open>registration\<close> what the three registering operations have
  in common; \<open>log_consumer\<close> a state folded from a committed log. Each is interpreted on the definitions of
  the model, and the properties rest on the interpreted facts.

  \<^bold>\<open>Bounds and fuel.\<close> Searches carry the budgets of the source as explicit arguments and report
  \<open>SearchLimit\<close> as it does (\<open>conversion_path\<close>, region candidates, kernel assignments). The retry loop of a
  kernel is bounded by the retry count of its node, the hierarchy walk by the depth limit, delivery in the
  in-process cluster by its message budget; each of these bounds is the source's own. Loops whose
  termination the source leaves to an invariant (Kahn's algorithm, the stack-based acyclicity check) have
  a measure. The codec and the hash are total functions; the witnesses instantiate them.

  \<^bold>\<open>Not modelled.\<close> The plugin host \<open>plugin.rs\<close> (signatures, JSON manifests and a child process). The unit tests and \<open>Debug\<close>/\<open>Display\<close> renderings of the modelled files. The training
  framework \<open>src/src/framework\<close> and everything built on it (stages as type-erased asynchronous closures,
  subprocesses, caches and object stores on the file system), the databases and ledgers (SQLite), the
  configuration readers (YAML, environment), peer-to-peer execution (sockets, encryption), the cloud queue
  (wall-clock leases on object storage), hyperparameter optimization (floating point and random sampling),
  the command line, and the sidecar crates (terminal, web, metrics, notifications, Kubernetes): their
  behaviour is dominated by input and output, floating point or third-party services, which a functional
  model would have to invent.
\<close>

end
